(* ===== verification/Prelude.thy ===== *)
theory Prelude
  imports Complex_Main "HOL-Library.Sublist" "HOL-Library.Char_ord" "HOL-Library.List_Lexorder"
    "HOL-Library.Monad_Syntax" "HOL-Library.State_Monad" "HOL-Library.Code_Target_Nat"
begin

text \<open>
  The vocabulary the component theories share: Go's error-or-value results, Go's 64-bit
  signed integers, and calls that happen at an instant of a changing world.

  A Go function that returns \<open>(T, error)\<close> is a function into \<open>'e + T\<close>: \<open>Inl\<close> is
  the early return with an error, \<open>Inr\<close> the value. A call to the operating system is
  a state transformer over a clock (\<open>'a io\<close>): the world is a function from instants
  to snapshots, every call looks at the snapshot of its own instant and moves the clock on,
  so anything may change between two calls of the program.
\<close>

named_theorems io_run "what a call returns and where it leaves the clock"
named_theorems results "how results of the error-or-value type decompose"

section \<open>Results\<close>

text \<open>\<open>x, err := f(); if err != nil { return err }; ...\<close>\<close>

definition and_then :: "'e + 'a \<Rightarrow> ('a \<Rightarrow> 'e + 'b) \<Rightarrow> 'e + 'b" where
  "and_then r f = (case r of Inl e \<Rightarrow> Inl e | Inr a \<Rightarrow> f a)"

text \<open>\<open>if err != nil { return wrap(err) }\<close>\<close>

definition wrap_err :: "('e \<Rightarrow> 'f) \<Rightarrow> 'e + 'a \<Rightarrow> 'f + 'a" where
  "wrap_err w r = (case r of Inl e \<Rightarrow> Inl (w e) | Inr a \<Rightarrow> Inr a)"

lemma and_then_simps [simp]:
  "and_then (Inl e) f = Inl e"
  "and_then (Inr a) f = f a"
  by (simp_all add: and_then_def)

lemma and_then_Inr [results]:
  "and_then r f = Inr b \<longleftrightarrow> (\<exists>a. r = Inr a \<and> f a = Inr b)"
  by (cases r) auto

lemma and_then_Inl [results]:
  "and_then r f = Inl e \<longleftrightarrow> r = Inl e \<or> (\<exists>a. r = Inr a \<and> f a = Inl e)"
  by (cases r) auto

lemma wrap_err_simps [simp]:
  "wrap_err w (Inl e) = Inl (w e)"
  "wrap_err w (Inr a) = Inr a"
  by (simp_all add: wrap_err_def)

lemma wrap_err_Inr [results]: "wrap_err w r = Inr a \<longleftrightarrow> r = Inr a"
  by (cases r) auto

lemma wrap_err_Inl [results]: "wrap_err w r = Inl f \<longleftrightarrow> (\<exists>e. r = Inl e \<and> f = w e)"
  by (cases r) auto

section \<open>Go's signed 64-bit integers\<close>

text \<open>
  \<open>int\<close>, \<open>int64\<close> and \<open>time.Duration\<close> are 64-bit two's complement on the platforms
  the program is built for. A value is kept as an \<open>int\<close>; \<open>i64\<close> is the wrap-around
  every addition and multiplication goes through.
\<close>

definition i64 :: "int \<Rightarrow> int" where
  "i64 n = (n + 2 ^ 63) mod 2 ^ 64 - 2 ^ 63"

definition in_i64 :: "int \<Rightarrow> bool" where
  "in_i64 n \<longleftrightarrow> - (2 ^ 63) \<le> n \<and> n < 2 ^ 63"

lemma i64_in_i64 [simp]: "in_i64 (i64 n)"
  by (simp add: i64_def in_i64_def)

lemma i64_id: "in_i64 n \<Longrightarrow> i64 n = n"
  by (simp add: i64_def in_i64_def)

text \<open>Go's integer division truncates towards zero.\<close>

definition go_div :: "int \<Rightarrow> int \<Rightarrow> int" where
  "go_div a b = sgn a * sgn b * (\<bar>a\<bar> div \<bar>b\<bar>)"

lemma go_div_nonneg: "0 \<le> a \<Longrightarrow> 0 < b \<Longrightarrow> go_div a b = a div b"
  by (cases "a = 0") (simp_all add: go_div_def)

lemma go_div_neg: "a < 0 \<Longrightarrow> 0 < b \<Longrightarrow> go_div a b \<le> 0"
  by (simp add: go_div_def pos_imp_zdiv_nonneg_iff)

section \<open>Calls at an instant\<close>

type_synonym 'a io = "(nat, 'a) state"

text \<open>One system call: it sees the snapshot of the present instant and moves the clock on.\<close>

definition syscall :: "(nat \<Rightarrow> 'fs) \<Rightarrow> ('fs \<Rightarrow> 'a) \<Rightarrow> 'a io" where
  "syscall w f = State (\<lambda>t. (f (w t), Suc t))"

lemma run_syscall [simp]: "run_state (syscall w f) t = (f (w t), Suc t)"
  by (simp add: syscall_def)

text \<open>\<open>x, err := m(); if err != nil { return err }; ...\<close>, and the wrapping of an error.\<close>

definition try_io :: "('e + 'a) io \<Rightarrow> ('a \<Rightarrow> ('e + 'b) io) \<Rightarrow> ('e + 'b) io" where
  "try_io m f = State_Monad.bind m
     (\<lambda>r. case r of Inl e \<Rightarrow> State_Monad.return (Inl e) | Inr a \<Rightarrow> f a)"

definition wrap_io :: "('e \<Rightarrow> 'f) \<Rightarrow> ('e + 'a) io \<Rightarrow> ('f + 'a) io" where
  "wrap_io g m = State_Monad.bind m (\<lambda>r. State_Monad.return (wrap_err g r))"

lemma run_try_io [simp]:
  "run_state (try_io m f) t =
    (case run_state m t of (Inl e, t') \<Rightarrow> (Inl e, t') | (Inr a, t') \<Rightarrow> run_state (f a) t')"
  by (auto simp: try_io_def split: prod.splits sum.splits)

lemma run_wrap_io [simp]:
  "run_state (wrap_io g m) t = (case run_state m t of (r, t') \<Rightarrow> (wrap_err g r, t'))"
  by (simp add: wrap_io_def)

lemma try_io_Inr [io_run]:
  "run_state (try_io m f) t = (Inr b, u) \<longleftrightarrow>
    (\<exists>a t'. run_state m t = (Inr a, t') \<and> run_state (f a) t' = (Inr b, u))"
  by (auto split: prod.splits sum.splits)

lemma wrap_io_Inr [io_run]:
  "run_state (wrap_io g m) t = (Inr b, u) \<longleftrightarrow> run_state m t = (Inr b, u)"
  by (auto simp: results split: prod.splits)

text \<open>A world that does not change from an instant on.\<close>

definition steady :: "(nat \<Rightarrow> 'fs) \<Rightarrow> 'fs \<Rightarrow> nat \<Rightarrow> bool" where
  "steady w s t \<longleftrightarrow> (\<forall>t' \<ge> t. w t' = s)"

lemma steady_now: "steady w s t \<Longrightarrow> w t = s"
  by (simp add: steady_def)

lemma steady_later: "steady w s t \<Longrightarrow> t \<le> t' \<Longrightarrow> steady w s t'"
  by (simp add: steady_def)

lemma steady_const [simp]: "steady (\<lambda>_. s) s t"
  by (simp add: steady_def)

text \<open>
  The contract of every operation that is made of system calls: the clock never runs
  backwards, and in a world that no longer changes the result does not depend on when the
  operation runs, so that it is a function of the snapshot alone (\<open>snap\<close>).
\<close>

definition snap :: "((nat \<Rightarrow> 'fs) \<Rightarrow> 'a io) \<Rightarrow> 'fs \<Rightarrow> 'a" where
  "snap f s = fst (run_state (f (\<lambda>_. s)) 0)"

locale os_op =
  fixes f :: "(nat \<Rightarrow> 'fs) \<Rightarrow> 'a io"
  assumes forward: "t \<le> snd (run_state (f w) t)"
    and snapshot: "steady w s t \<Longrightarrow> fst (run_state (f w) t) = snap f s"
begin

lemma forward_run: "run_state (f w) t = (a, t') \<Longrightarrow> t \<le> t'"
  using forward [of t w] by simp

lemma snapshot_run: "steady w s t \<Longrightarrow> run_state (f w) t = (a, t') \<Longrightarrow> a = snap f s"
  using snapshot by fastforce

lemma steady_run:
  assumes "steady w s t"
  obtains t' where "run_state (f w) t = (snap f s, t')" "steady w s t'"
proof -
  obtain a t' where r: "run_state (f w) t = (a, t')" by (cases "run_state (f w) t")
  have "a = snap f s" by (rule snapshot_run [OF assms r])
  moreover have "steady w s t'" by (rule steady_later [OF assms forward_run [OF r]])
  ultimately show thesis using that r by simp
qed

end

text \<open>An operation defined by equations on all its arguments.\<close>

lemma os_op_eqI: "(\<And>w. f w = g w) \<Longrightarrow> os_op g \<Longrightarrow> os_op f"
  by (metis ext)

lemma os_op_return [intro]: "os_op (\<lambda>w. State_Monad.return a)"
  by unfold_locales (simp_all add: snap_def)

lemma os_op_syscall [intro]: "os_op (\<lambda>w. syscall w g)"
  by unfold_locales (auto simp: snap_def dest: steady_now)

lemma snap_return [simp]: "snap (\<lambda>w. State_Monad.return a) s = a"
  by (simp add: snap_def)

lemma snap_syscall [simp]: "snap (\<lambda>w. syscall w g) s = g s"
  by (simp add: snap_def)

lemma snap_bind:
  assumes "os_op m" and "\<And>a. os_op (\<lambda>w. f w a)"
  shows "snap (\<lambda>w. State_Monad.bind (m w) (f w)) s = snap (\<lambda>w. f w (snap m s)) s"
proof -
  obtain t' where r: "run_state (m (\<lambda>_. s)) 0 = (snap m s, t')"
    using os_op.steady_run [OF assms(1) steady_const] by blast
  have "snap (\<lambda>w. State_Monad.bind (m w) (f w)) s = fst (run_state (f (\<lambda>_. s) (snap m s)) t')"
    unfolding snap_def [of "\<lambda>w. State_Monad.bind (m w) (f w)"] by (simp add: r)
  also have "\<dots> = snap (\<lambda>w. f w (snap m s)) s"
    by (rule os_op.snapshot [OF assms(2) steady_const])
  finally show ?thesis .
qed

lemma os_op_bind [intro]:
  assumes m: "os_op m" and f: "\<And>a. os_op (\<lambda>w. f w a)"
  shows "os_op (\<lambda>w. State_Monad.bind (m w) (f w))"
proof
  fix w :: "nat \<Rightarrow> 'a" and t
  obtain a t' where r: "run_state (m w) t = (a, t')" by (cases "run_state (m w) t")
  show "t \<le> snd (run_state (State_Monad.bind (m w) (f w)) t)"
    using os_op.forward_run [OF m r] os_op.forward [OF f, of t' w a] r by simp
next
  fix w :: "nat \<Rightarrow> 'a" and s t assume st: "steady w s t"
  obtain t' where r: "run_state (m w) t = (snap m s, t')" "steady w s t'"
    using os_op.steady_run [OF m st] by blast
  then show "fst (run_state (State_Monad.bind (m w) (f w)) t)
      = snap (\<lambda>w. State_Monad.bind (m w) (f w)) s"
    using os_op.snapshot [OF f r(2)] by (simp add: snap_bind [OF m f])
qed

lemma os_op_case_sum [intro]:
  assumes "\<And>e. os_op (\<lambda>w. g w e)" and "\<And>a. os_op (\<lambda>w. f w a)"
  shows "os_op (\<lambda>w. case r of Inl e \<Rightarrow> g w e | Inr a \<Rightarrow> f w a)"
  using assms by (cases r) simp_all

lemma os_op_case_option [intro]:
  assumes "os_op g" and "\<And>a. os_op (\<lambda>w. f w a)"
  shows "os_op (\<lambda>w. case r of None \<Rightarrow> g w | Some a \<Rightarrow> f w a)"
  using assms by (cases r) simp_all

lemma os_op_if [intro]: "os_op f \<Longrightarrow> os_op g \<Longrightarrow> os_op (\<lambda>w. if b then f w else g w)"
  by (cases b) simp_all

lemma os_op_try [intro]:
  assumes "os_op m" and "\<And>a. os_op (\<lambda>w. f w a)"
  shows "os_op (\<lambda>w. try_io (m w) (f w))"
  unfolding try_io_def by (intro os_op_bind os_op_case_sum os_op_return assms)

lemma os_op_wrap [intro]: "os_op m \<Longrightarrow> os_op (\<lambda>w. wrap_io g (m w))"
  unfolding wrap_io_def by (intro os_op_bind) auto

lemma snap_try:
  assumes "os_op m" and "\<And>a. os_op (\<lambda>w. f w a)"
  shows "snap (\<lambda>w. try_io (m w) (f w)) s
    = (case snap m s of Inl e \<Rightarrow> Inl e | Inr a \<Rightarrow> snap (\<lambda>w. f w a) s)"
proof -
  have "snap (\<lambda>w. try_io (m w) (f w)) s
      = snap (\<lambda>w. case snap m s of Inl e \<Rightarrow> State_Monad.return (Inl e) | Inr a \<Rightarrow> f w a) s"
    unfolding try_io_def
    by (rule snap_bind [OF assms(1)]) (rule os_op_case_sum [OF os_op_return assms(2)])
  then show ?thesis by (simp split: sum.split)
qed

lemma snap_wrap: "os_op m \<Longrightarrow> snap (\<lambda>w. wrap_io g (m w)) s = wrap_err g (snap m s)"
  unfolding wrap_io_def by (simp add: snap_bind [OF _ os_op_return])

section \<open>Lists\<close>

lemma in_map_filter: "y \<in> set (List.map_filter f xs) \<longleftrightarrow> (\<exists>x \<in> set xs. f x = Some y)"
  by (induction xs) (auto simp: map_filter_simps split: option.splits)

lemma find_Some_iff_first:
  "find P xs = Some x \<Longrightarrow> P x \<and> x \<in> set xs"
  by (induction xs) (auto split: if_splits)

lemma takeWhile_append_stop:
  "\<forall>x \<in> set xs. P x \<Longrightarrow> \<not> P y \<Longrightarrow> takeWhile P (xs @ y # ys) = xs"
  by (induction xs) auto

lemma dropWhile_append_stop:
  "\<forall>x \<in> set xs. P x \<Longrightarrow> \<not> P y \<Longrightarrow> dropWhile P (xs @ y # ys) = y # ys"
  by (induction xs) auto

end
