(* ===== verification/Go_Strings.thy ===== *)
theory Go_Strings
  imports Prelude
begin

text \<open>
  What the program uses of Go's \<open>strings\<close>, \<open>unicode/utf8\<close> and \<open>bufio\<close>. A Go
  string is a sequence of bytes, and so is a \<^typ>\<open>string\<close>: a character is one byte. Text
  outside ASCII is its UTF-8 encoding, and the functions that look at code points
  (\<open>TrimSpace\<close>, \<open>EqualFold\<close>, \<open>ToLower\<close>) decode it as Go does.
\<close>

named_theorems trim "what trimming leaves alone"

definition newline :: char where
  "newline = CHR 0x0A"

section \<open>Searching and cutting\<close>

text \<open>\<open>strings.HasPrefix\<close>, \<open>strings.HasSuffix\<close>\<close>

definition has_prefix :: "string \<Rightarrow> string \<Rightarrow> bool" where
  "has_prefix s p \<longleftrightarrow> prefix p s"

definition has_suffix :: "string \<Rightarrow> string \<Rightarrow> bool" where
  "has_suffix s p \<longleftrightarrow> suffix p s"

text \<open>\<open>strings.TrimPrefix\<close>\<close>

definition trim_prefix :: "string \<Rightarrow> string \<Rightarrow> string" where
  "trim_prefix s p = (if has_prefix s p then drop (length p) s else s)"

text \<open>\<open>strings.Cut\<close> at a one-byte separator: what is before its first occurrence, and after.\<close>

definition cut :: "char \<Rightarrow> string \<Rightarrow> (string \<times> string) option" where
  "cut c s = (case dropWhile (\<lambda>x. x \<noteq> c) s of
      [] \<Rightarrow> None
    | _ # after \<Rightarrow> Some (takeWhile (\<lambda>x. x \<noteq> c) s, after))"

text \<open>
  \<open>strings.IndexAny\<close> followed by the two slices around the byte it found, and
  \<open>strings.LastIndex\<close> followed by the slice behind it.
\<close>

definition cut_any :: "string \<Rightarrow> string \<Rightarrow> (string \<times> string) option" where
  "cut_any cs s = (case dropWhile (\<lambda>x. x \<notin> set cs) s of
      [] \<Rightarrow> None
    | _ # after \<Rightarrow> Some (takeWhile (\<lambda>x. x \<notin> set cs) s, after))"

definition after_last :: "char \<Rightarrow> string \<Rightarrow> string option" where
  "after_last c s = (if c \<in> set s then Some (rev (takeWhile (\<lambda>x. x \<noteq> c) (rev s))) else None)"

text \<open>\<open>strings.Split\<close> at a one-byte separator; there is always at least one piece.\<close>

fun split_on :: "char \<Rightarrow> string \<Rightarrow> string list" where
  "split_on c [] = [[]]"
| "split_on c (x # xs) =
     (if x = c then [] # split_on c xs
      else (case split_on c xs of
              [] \<Rightarrow> [[x]]
            | p # ps \<Rightarrow> (x # p) # ps))"

text \<open>\<open>strings.Join\<close>\<close>

fun join :: "string \<Rightarrow> string list \<Rightarrow> string" where
  "join sep [] = []"
| "join sep [p] = p"
| "join sep (p # ps) = p @ sep @ join sep ps"

lemma cut_append: "c \<notin> set k \<Longrightarrow> cut c (k @ c # v) = Some (k, v)"
  unfolding cut_def
  by (subst dropWhile_append_stop, force, simp, subst takeWhile_append_stop) auto

lemma cut_None: "cut c s = None \<longleftrightarrow> c \<notin> set s"
proof (cases "dropWhile (\<lambda>x. x \<noteq> c) s")
  case Nil
  then have "c \<notin> set s" by (force simp: dropWhile_eq_Nil_conv)
  then show ?thesis using Nil unfolding cut_def by (simp only: list.case) simp
next
  case (Cons x xs)
  then have "x = c" using hd_dropWhile [of "\<lambda>x. x \<noteq> c" s] by auto
  moreover have "x \<in> set s"
    by (rule set_dropWhileD [of _ "\<lambda>x. x \<noteq> c"]) (simp only: Cons list.set_intros)
  ultimately have "c \<in> set s" by blast
  then show ?thesis using Cons by (simp add: cut_def)
qed

lemma cut_Some: "cut c s = Some (k, v) \<Longrightarrow> s = k @ c # v \<and> c \<notin> set k"
  unfolding cut_def
  by (induction s arbitrary: k) (auto split: list.splits if_splits)

lemma cut_any_append:
  "set k \<inter> set cs = {} \<Longrightarrow> c \<in> set cs \<Longrightarrow> cut_any cs (k @ c # v) = Some (k, v)"
  unfolding cut_any_def
  by (subst dropWhile_append_stop, force, simp, subst takeWhile_append_stop) auto

lemma split_on_nonempty [simp]: "split_on c s \<noteq> []"
  by (induction s) (auto split: list.splits)

lemma split_on_append: "c \<notin> set p \<Longrightarrow> split_on c (p @ c # s) = p # split_on c s"
  by (induction p) auto

lemma split_on_single: "c \<notin> set p \<Longrightarrow> split_on c p = [p]"
  by (induction p) auto

lemma split_on_pieces: "p \<in> set (split_on c s) \<Longrightarrow> c \<notin> set p"
  by (induction s arbitrary: p) (auto split: list.splits if_splits)

lemma after_last_append: "c \<notin> set v \<Longrightarrow> after_last c (k @ c # v) = Some v"
  unfolding after_last_def
  by (auto simp: takeWhile_append)

section \<open>White space\<close>

text \<open>
  The code points \<open>unicode.IsSpace\<close> holds of, each as its UTF-8 encoding: the six
  ASCII ones, U+0085, U+00A0, U+1680, U+2000 to U+200A, U+2028, U+2029, U+202F, U+205F and
  U+3000. No encoding is a prefix or a suffix of another, so stripping encodings from the
  ends of the bytes is stripping decoded code points.
\<close>

definition spaces :: "string list" where
  "spaces =
    [[CHR 0x09], [CHR 0x0A], [CHR 0x0B], [CHR 0x0C], [CHR 0x0D], [CHR 0x20],
     [CHR 0xC2, CHR 0x85], [CHR 0xC2, CHR 0xA0], [CHR 0xE1, CHR 0x9A, CHR 0x80],
     [CHR 0xE2, CHR 0x80, CHR 0x80], [CHR 0xE2, CHR 0x80, CHR 0x81],
     [CHR 0xE2, CHR 0x80, CHR 0x82], [CHR 0xE2, CHR 0x80, CHR 0x83],
     [CHR 0xE2, CHR 0x80, CHR 0x84], [CHR 0xE2, CHR 0x80, CHR 0x85],
     [CHR 0xE2, CHR 0x80, CHR 0x86], [CHR 0xE2, CHR 0x80, CHR 0x87],
     [CHR 0xE2, CHR 0x80, CHR 0x88], [CHR 0xE2, CHR 0x80, CHR 0x89],
     [CHR 0xE2, CHR 0x80, CHR 0x8A], [CHR 0xE2, CHR 0x80, CHR 0xA8],
     [CHR 0xE2, CHR 0x80, CHR 0xA9], [CHR 0xE2, CHR 0x80, CHR 0xAF],
     [CHR 0xE2, CHR 0x81, CHR 0x9F], [CHR 0xE3, CHR 0x80, CHR 0x80]]"

fun strip_one :: "string list \<Rightarrow> string \<Rightarrow> string option" where
  "strip_one [] s = None"
| "strip_one (w # ws) s = (if prefix w s then Some (drop (length w) s) else strip_one ws s)"

function trim_left :: "string list \<Rightarrow> string \<Rightarrow> string" where
  "trim_left ws s = (case strip_one ws s of
      Some s' \<Rightarrow> if length s' < length s then trim_left ws s' else s
    | None \<Rightarrow> s)"
  by pat_completeness auto
termination
  by (relation "measure (\<lambda>(ws, s). length s)") auto

declare trim_left.simps [simp del]

text \<open>\<open>strings.TrimSpace\<close>\<close>

definition trim_space :: "string \<Rightarrow> string" where
  "trim_space s = rev (trim_left (map rev spaces) (rev (trim_left spaces s)))"

text \<open>A string neither end of which \<open>TrimSpace\<close> would touch.\<close>

definition trimmed :: "string \<Rightarrow> bool" where
  "trimmed s \<longleftrightarrow> strip_one spaces s = None \<and> strip_one (map rev spaces) (rev s) = None"

lemma strip_one_None: "strip_one ws s = None \<longleftrightarrow> (\<forall>w \<in> set ws. \<not> prefix w s)"
  by (induction ws) auto

lemma strip_one_Some: "strip_one ws s = Some s' \<Longrightarrow> \<exists>w \<in> set ws. s = w @ s'"
  by (induction ws) (auto split: if_splits elim!: prefixE)

lemma spaces_nonempty: "w \<in> set spaces \<Longrightarrow> w \<noteq> []"
  by (auto simp: spaces_def)

lemma trim_left_none: "strip_one ws s = None \<Longrightarrow> trim_left ws s = s"
  by (simp add: trim_left.simps)

lemma trim_left_suffix: "suffix (trim_left ws s) s"
proof (induction ws s rule: trim_left.induct)
  case (1 ws s)
  show ?case
  proof (cases "strip_one ws s")
    case None
    then show ?thesis by (simp add: trim_left_none)
  next
    case (Some s')
    then obtain w where w: "s = w @ s'" using strip_one_Some by blast
    show ?thesis
    proof (cases "length s' < length s")
      case True
      then have "suffix (trim_left ws s') s'" using 1 Some by simp
      then show ?thesis
        using True Some w suffix_appendI [of _ s' w] by (subst trim_left.simps) simp
    next
      case False
      then show ?thesis using Some by (simp add: trim_left.simps [of ws s])
    qed
  qed
qed

lemma trim_left_stops:
  assumes "[] \<notin> set ws"
  shows "strip_one ws (trim_left ws s) = None"
  using assms
proof (induction ws s rule: trim_left.induct)
  case (1 ws s)
  show ?case
  proof (cases "strip_one ws s")
    case None
    then show ?thesis by (simp add: trim_left_none)
  next
    case (Some s')
    then obtain w where w: "w \<in> set ws" "s = w @ s'" using strip_one_Some by blast
    with 1(2) have "w \<noteq> []" by auto
    then have "length s' < length s" using w by simp
    with 1 Some show ?thesis by (simp add: trim_left.simps [of ws s])
  qed
qed

lemma trim_left_strip:
  assumes "[] \<notin> set ws" and "strip_one ws s = Some s'"
  shows "trim_left ws s = trim_left ws s'"
proof -
  obtain w where "w \<in> set ws" "s = w @ s'" using assms strip_one_Some by blast
  with assms(1) have "length s' < length s" by (cases w) auto
  then show ?thesis using assms(2) by (simp add: trim_left.simps [of ws s])
qed

lemma no_empty_space: "[] \<notin> set spaces" "[] \<notin> set (map rev spaces)"
  using spaces_nonempty by auto

lemma trim_space_trimmed_id [trim]: "trimmed s \<Longrightarrow> trim_space s = s"
  by (simp add: trim_space_def trimmed_def trim_left_none)

text \<open>The bytes an encoding of white space can begin or end with.\<close>

definition space_start :: "char \<Rightarrow> bool" where
  "space_start c \<longleftrightarrow> c \<in> set (map hd spaces)"

definition space_end :: "char \<Rightarrow> bool" where
  "space_end c \<longleftrightarrow> c \<in> set (map last spaces)"

lemma strip_one_no_start: "\<not> space_start c \<Longrightarrow> strip_one spaces (c # s) = None"
  unfolding strip_one_None space_start_def
  by (metis hd_Cons_tl image_eqI image_set prefix_Cons spaces_nonempty list.sel(1))

lemma strip_one_no_end:
  assumes "\<not> space_end c"
  shows "strip_one (map rev spaces) (c # s) = None"
proof -
  have "\<not> prefix (rev w) (c # s)" if w: "w \<in> set spaces" for w
  proof
    assume "prefix (rev w) (c # s)"
    then have "hd (rev w) = c"
      using spaces_nonempty [OF w] by (cases "rev w") auto
    then have "last w = c" by (simp add: hd_rev)
    with assms w show False by (force simp: space_end_def)
  qed
  then show ?thesis by (simp add: strip_one_None)
qed

lemma trimmed_ends:
  assumes "s \<noteq> []" and "\<not> space_start (hd s)" and "\<not> space_end (last s)"
  shows "trimmed s"
proof -
  obtain c r where s: "s = c # r" using assms(1) by (cases s) auto
  obtain d q where r: "rev s = d # q" using assms(1) by (cases "rev s") auto
  have "d = last s" using r by (metis hd_rev list.sel(1))
  then show ?thesis
    using assms s r by (simp add: trimmed_def strip_one_no_start strip_one_no_end)
qed

lemma trimmed_Nil [simp]: "trimmed []"
  by (simp add: trimmed_def strip_one_None spaces_def)

lemma trim_space_prefix: "\<exists>e. trim_left spaces s = trim_space s @ e"
proof -
  have "suffix (trim_left (map rev spaces) (rev (trim_left spaces s))) (rev (trim_left spaces s))"
    by (rule trim_left_suffix)
  then obtain e where "rev (trim_left spaces s)
      = e @ trim_left (map rev spaces) (rev (trim_left spaces s))"
    by (auto simp: suffix_def)
  then have "trim_left spaces s = trim_space s @ rev e"
    unfolding trim_space_def by (metis rev_append rev_rev_ident)
  then show ?thesis by blast
qed

lemma trimmed_trim_space [simp, intro]: "trimmed (trim_space s)"
proof -
  obtain e where e: "trim_left spaces s = trim_space s @ e" using trim_space_prefix by blast
  have "strip_one spaces (trim_left spaces s) = None"
    by (rule trim_left_stops [OF no_empty_space(1)])
  then have "strip_one spaces (trim_space s) = None"
    unfolding e strip_one_None by (meson prefix_prefix)
  moreover have "strip_one (map rev spaces) (rev (trim_space s)) = None"
    unfolding trim_space_def by (simp add: trim_left_stops [OF no_empty_space(2)] del: set_map)
  ultimately show ?thesis by (simp add: trimmed_def)
qed

lemma trim_space_idem [simp]: "trim_space (trim_space s) = trim_space s"
  by (rule trim_space_trimmed_id) simp

lemma set_trim_space: "set (trim_space s) \<subseteq> set s"
proof -
  have "set (trim_left spaces s) \<subseteq> set s" by (rule set_mono_suffix [OF trim_left_suffix])
  moreover have "set (trim_space s) \<subseteq> set (trim_left spaces s)"
    using trim_space_prefix [of s] by auto
  ultimately show ?thesis by blast
qed

text \<open>A blank in front goes.\<close>

lemma trim_space_blank [trim]: "trim_space (CHR '' '' # s) = trim_space s"
proof -
  have "strip_one spaces (CHR '' '' # s) = Some s"
    by (simp add: spaces_def)
  then show ?thesis unfolding trim_space_def
    by (simp add: trim_left_strip [OF no_empty_space(1)])
qed

section \<open>Scanning lines\<close>

text \<open>
  \<open>bufio.Scanner\<close> with its default split function: lines without their newline and
  without one carriage return before it; a last line needs no newline. The scanner's buffer
  holds 65536 bytes: a line that does not end within them stops the scan with
  \<open>ErrTooLong\<close> after the lines before it.
\<close>

definition max_token :: nat where
  "max_token = 65536"

function raw_lines :: "string \<Rightarrow> string list" where
  "raw_lines s = (if s = [] then [] else
     (case cut (CHR 0x0A) s of
        None \<Rightarrow> [s]
      | Some (l, rest) \<Rightarrow> l # raw_lines rest))"
  by pat_completeness auto
termination
  by (relation "measure length") (auto dest: cut_Some)

declare raw_lines.simps [simp del]

definition drop_cr :: "string \<Rightarrow> string" where
  "drop_cr l = (if l \<noteq> [] \<and> last l = CHR 0x0D then butlast l else l)"

definition scan_lines :: "string \<Rightarrow> string list" where
  "scan_lines s = map drop_cr (takeWhile (\<lambda>l. length l < max_token) (raw_lines s))"

definition scan_too_long :: "string \<Rightarrow> bool" where
  "scan_too_long s \<longleftrightarrow> (\<exists>l \<in> set (raw_lines s). max_token \<le> length l)"

lemma raw_lines_Nil [simp]: "raw_lines [] = []"
  by (simp add: raw_lines.simps)

lemma raw_lines_line:
  assumes "CHR 0x0A \<notin> set l"
  shows "raw_lines (l @ CHR 0x0A # rest) = l # raw_lines rest"
  by (subst raw_lines.simps) (simp add: cut_append [OF assms])

lemma raw_lines_concat:
  assumes "\<forall>l \<in> set ls. CHR 0x0A \<notin> set l"
  shows "raw_lines (concat (map (\<lambda>l. l @ [CHR 0x0A]) ls)) = ls"
  using assms by (induction ls) (auto simp: raw_lines_line)

lemma drop_cr_id: "CHR 0x0D \<notin> set l \<Longrightarrow> drop_cr l = l"
  by (metis drop_cr_def last_in_set)

lemma scan_lines_concat:
  assumes "\<forall>l \<in> set ls. CHR 0x0A \<notin> set l \<and> CHR 0x0D \<notin> set l \<and> length l < max_token"
  shows "scan_lines (concat (map (\<lambda>l. l @ [CHR 0x0A]) ls)) = ls"
    and "\<not> scan_too_long (concat (map (\<lambda>l. l @ [CHR 0x0A]) ls))"
proof -
  have raw: "raw_lines (concat (map (\<lambda>l. l @ [CHR 0x0A]) ls)) = ls"
    using assms by (simp add: raw_lines_concat)
  have "takeWhile (\<lambda>l. length l < max_token) ls = ls"
    using assms by (simp add: takeWhile_eq_all_conv)
  moreover have "map drop_cr ls = ls"
    using assms by (intro map_idI) (simp add: drop_cr_id)
  ultimately show "scan_lines (concat (map (\<lambda>l. l @ [CHR 0x0A]) ls)) = ls"
    unfolding scan_lines_def raw by metis
  show "\<not> scan_too_long (concat (map (\<lambda>l. l @ [CHR 0x0A]) ls))"
    using assms by (auto simp: scan_too_long_def raw)
qed

end
