(* ===== verification/Go_Unicode.thy ===== *)
theory Go_Unicode
  imports Go_Strings
begin

text \<open>
  UTF-8 decoding as \<open>unicode/utf8\<close> does it, and the two operations on letter case the
  program uses: \<open>strings.EqualFold\<close> and \<open>strings.ToLower\<close>. The orbits of Unicode's
  simple case folding are data of the Unicode standard that Go ships as a table
  (\<open>unicode.SimpleFold\<close>); the table is an argument, the algorithm over it is here.
\<close>

section \<open>Decoding\<close>

text \<open>
  \<open>utf8.DecodeRuneInString\<close> on a non-empty string: the code point and the number of
  bytes it takes. Anything but a shortest-form encoding of a code point is
  \<open>RuneError\<close> (U+FFFD) and takes one byte.
\<close>

definition byte :: "char \<Rightarrow> nat" where
  "byte c = of_char c"

definition rune_error :: nat where
  "rune_error = 0xFFFD"

definition cont :: "nat \<Rightarrow> nat \<Rightarrow> string \<Rightarrow> nat \<Rightarrow> bool" where
  "cont lo hi s i \<longleftrightarrow> i < length s \<and> lo \<le> byte (s ! i) \<and> byte (s ! i) \<le> hi"

definition decode_rune :: "string \<Rightarrow> nat \<times> nat" where
  "decode_rune s =
    (let b0 = byte (s ! 0); low6 = (\<lambda>i. byte (s ! i) mod 64);
         tail = (\<lambda>i. cont 0x80 0xBF s i);
         second = cont (if b0 = 0xE0 then 0xA0 else if b0 = 0xF0 then 0x90 else 0x80)
                       (if b0 = 0xED then 0x9F else if b0 = 0xF4 then 0x8F else 0xBF) s 1
     in if b0 < 0x80 then (b0, 1)
        else if 0xC2 \<le> b0 \<and> b0 \<le> 0xDF then
          (if second then (b0 mod 32 * 64 + low6 1, 2) else (rune_error, 1))
        else if 0xE0 \<le> b0 \<and> b0 \<le> 0xEF then
          (if second \<and> tail 2 then (b0 mod 16 * 4096 + low6 1 * 64 + low6 2, 3)
           else (rune_error, 1))
        else if 0xF0 \<le> b0 \<and> b0 \<le> 0xF4 then
          (if second \<and> tail 2 \<and> tail 3
           then (b0 mod 8 * 262144 + low6 1 * 4096 + low6 2 * 64 + low6 3, 4)
           else (rune_error, 1))
        else (rune_error, 1))"

lemma decode_rune_size: "0 < snd (decode_rune s)"
  by (simp add: decode_rune_def Let_def)

text \<open>The code points a \<open>range\<close> loop over a string sees.\<close>

function runes :: "string \<Rightarrow> nat list" where
  "runes s = (if s = [] then [] else
     fst (decode_rune s) # runes (drop (snd (decode_rune s)) s))"
  by pat_completeness auto
termination
  by (relation "measure length") (auto simp: decode_rune_size)

declare runes.simps [simp del]

definition ascii :: "string \<Rightarrow> bool" where
  "ascii s \<longleftrightarrow> (\<forall>c \<in> set s. byte c < 0x80)"

lemma runes_ascii: "ascii s \<Longrightarrow> runes s = map byte s"
proof (induction s)
  case Nil
  then show ?case by (simp add: runes.simps)
next
  case (Cons c s)
  then have "byte c < 0x80" "ascii s" by (simp_all add: ascii_def)
  then have "decode_rune (c # s) = (byte c, 1)"
    by (simp add: decode_rune_def Let_def)
  then show ?case using Cons \<open>ascii s\<close> by (subst runes.simps) simp
qed

section \<open>Case folding\<close>

text \<open>
  The general case of \<open>EqualFold\<close> walks the orbit of the smaller code point upwards
  until it reaches or passes the larger one or is back where it started. An orbit has at
  most four members, so the walk is bounded by a small number of steps; \<open>fold_walk\<close>
  takes the bound as fuel.
\<close>

fun fold_walk :: "(nat \<Rightarrow> nat) \<Rightarrow> nat \<Rightarrow> nat \<Rightarrow> nat \<Rightarrow> nat \<Rightarrow> nat" where
  "fold_walk sf 0 sr tr r = r"
| "fold_walk sf (Suc n) sr tr r = (if r \<noteq> sr \<and> r < tr then fold_walk sf n sr tr (sf r) else r)"

definition fold_steps :: nat where
  "fold_steps = 8"

definition fold_eq_rune :: "(nat \<Rightarrow> nat) \<Rightarrow> nat \<Rightarrow> nat \<Rightarrow> bool" where
  "fold_eq_rune sf a b =
    (let sr = min a b; tr = max a b in
     if sr = tr then True
     else if tr < 0x80 then 65 \<le> sr \<and> sr \<le> 90 \<and> tr = sr + 32
     else fold_walk sf fold_steps sr tr (sf sr) = tr)"

definition equal_fold :: "(nat \<Rightarrow> nat) \<Rightarrow> string \<Rightarrow> string \<Rightarrow> bool" where
  "equal_fold sf s t = list_all2 (fold_eq_rune sf) (runes s) (runes t)"

text \<open>On ASCII text the table plays no part: the letters agree up to bit 5.\<close>

definition ascii_lower :: "nat \<Rightarrow> nat" where
  "ascii_lower b = (if 65 \<le> b \<and> b \<le> 90 then b + 32 else b)"

lemma fold_eq_rune_ascii:
  assumes "a < 0x80" "b < 0x80"
  shows "fold_eq_rune sf a b \<longleftrightarrow> ascii_lower a = ascii_lower b"
  using assms unfolding fold_eq_rune_def ascii_lower_def Let_def
  by (cases "a \<le> b") (auto simp: min_def max_def)

lemma equal_fold_ascii:
  assumes "ascii s" "ascii t"
  shows "equal_fold sf s t \<longleftrightarrow> map (ascii_lower \<circ> byte) s = map (ascii_lower \<circ> byte) t"
proof -
  have "list_all2 (fold_eq_rune sf) (map byte s) (map byte t)
      \<longleftrightarrow> map (ascii_lower \<circ> byte) s = map (ascii_lower \<circ> byte) t"
    using assms
  proof (induction s arbitrary: t)
    case Nil
    then show ?case by auto
  next
    case (Cons c s)
    show ?case
    proof (cases t)
      case Nil
      then show ?thesis by simp
    next
      case t: (Cons d t')
      with Cons.prems have "byte c < 0x80" "byte d < 0x80" "ascii s" "ascii t'"
        by (simp_all add: ascii_def)
      then show ?thesis using Cons.IH [of t'] t by (simp add: fold_eq_rune_ascii)
    qed
  qed
  then show ?thesis using assms by (simp add: equal_fold_def runes_ascii)
qed

lemma fold_eq_rune_refl [simp]: "fold_eq_rune sf a a"
  by (simp add: fold_eq_rune_def)

lemma fold_eq_rune_sym: "fold_eq_rune sf a b = fold_eq_rune sf b a"
  by (simp add: fold_eq_rune_def min.commute max.commute)

lemma equal_fold_refl [simp]: "equal_fold sf s s"
  by (simp add: equal_fold_def list.rel_refl)

lemma equal_fold_sym: "equal_fold sf s t = equal_fold sf t s"
  by (simp add: equal_fold_def list_all2_conv_all_nth fold_eq_rune_sym) metis

lemma equal_fold_Nil [simp]: "equal_fold sf s [] \<longleftrightarrow> s = []" "equal_fold sf [] s \<longleftrightarrow> s = []"
  by (simp_all add: equal_fold_def runes.simps)

section \<open>Lower case\<close>

text \<open>
  \<open>strings.ToLower\<close>, as far as a comparison of its result with an ASCII constant can
  tell: two code points outside ASCII have an ASCII letter as their lower case (U+0130 and
  U+212A), all others stay outside ASCII.
\<close>

definition lower_rune :: "nat \<Rightarrow> nat" where
  "lower_rune r = (if r = 0x130 then 0x69 else if r = 0x212A then 0x6B else ascii_lower r)"

definition lower_is :: "string \<Rightarrow> string \<Rightarrow> bool" where
  "lower_is s const \<longleftrightarrow> map lower_rune (runes s) = map byte const"

end
