(* ===== verification/Go_Numbers.thy ===== *)
theory Go_Numbers
  imports Go_Unicode
begin

text \<open>
  \<open>strconv.ParseInt\<close> and \<open>strconv.Atoi\<close>, and the integer verbs of \<open>fmt\<close> the
  program uses (\<open>%d\<close>, \<open>%x\<close>, \<open>%02x\<close>, \<open>%04x\<close>). Parsing follows the loop of
  \<open>ParseUint\<close>: the first offending byte or the first overflow decides the error.
\<close>

datatype num_error = Syntax | Range

section \<open>Digits\<close>

text \<open>\<open>lower(c)\<close> of \<open>strconv\<close> sets bit 5, which maps exactly the letters to lower case.\<close>

definition lower_byte :: "char \<Rightarrow> nat" where
  "lower_byte c = (let b = byte c in if 65 \<le> b \<and> b \<le> 90 then b + 32 else b)"

definition is_digit :: "char \<Rightarrow> bool" where
  "is_digit c \<longleftrightarrow> 48 \<le> byte c \<and> byte c \<le> 57"

definition digit_val :: "char \<Rightarrow> nat option" where
  "digit_val c =
    (if is_digit c then Some (byte c - 48)
     else if 97 \<le> lower_byte c \<and> lower_byte c \<le> 122 then Some (lower_byte c - 87)
     else None)"

definition digit_char :: "nat \<Rightarrow> char" where
  "digit_char d = char_of (if d < 10 then 48 + d else 87 + d)"

lemma byte_less: "byte c < 256"
  by (simp add: byte_def)

lemma byte_char_of: "n < 256 \<Longrightarrow> byte (char_of n) = n"
  by (simp add: byte_def)

lemma byte_digit_char: "d < 36 \<Longrightarrow> byte (digit_char d) = (if d < 10 then 48 + d else 87 + d)"
  by (simp add: digit_char_def byte_char_of)

lemma digit_char_0: "digit_char 0 = CHR ''0''"
  by code_simp

lemma digit_val_char [simp]: "d < 36 \<Longrightarrow> digit_val (digit_char d) = Some d"
  by (auto simp: digit_val_def is_digit_def lower_byte_def byte_digit_char Let_def)

text \<open>
  \<open>underscoreOK\<close>: an underscore must stand between two digits, a base prefix counting as
  one. The state is Go's \<open>i\<close>: the class of the character before.
\<close>

datatype us_class = UsBegin | UsDigit | UsUnderscore | UsOther

fun us_loop :: "bool \<Rightarrow> us_class \<Rightarrow> string \<Rightarrow> bool" where
  "us_loop hex i [] = (i \<noteq> UsUnderscore)"
| "us_loop hex i (c # s) =
    (if is_digit c \<or> hex \<and> 97 \<le> lower_byte c \<and> lower_byte c \<le> 102
     then us_loop hex UsDigit s
     else if c = CHR ''_'' then (if i \<noteq> UsDigit then False else us_loop hex UsUnderscore s)
     else if i = UsUnderscore then False
     else us_loop hex UsOther s)"

definition drop_sign :: "string \<Rightarrow> string" where
  "drop_sign s = (case s of c # r \<Rightarrow> if c = CHR ''-'' \<or> c = CHR ''+'' then r else s | [] \<Rightarrow> [])"

definition underscore_ok :: "string \<Rightarrow> bool" where
  "underscore_ok s0 =
    (let s = drop_sign s0 in
     if 2 \<le> length s \<and> s ! 0 = CHR ''0'' \<and> lower_byte (s ! 1) \<in> {98, 111, 120}
     then us_loop (lower_byte (s ! 1) = 120) UsDigit (drop 2 s)
     else us_loop False UsBegin s)"

section \<open>Parsing\<close>

text \<open>
  The digit loop of \<open>ParseUint\<close>. \<open>n * base\<close> beyond \<open>uint64\<close> and a sum beyond
  \<open>maxVal\<close> are both \<open>ErrRange\<close>, and the first implies the second.
\<close>

fun uint_loop :: "nat \<Rightarrow> bool \<Rightarrow> nat \<Rightarrow> string \<Rightarrow> nat \<Rightarrow> bool \<Rightarrow> num_error + nat \<times> bool" where
  "uint_loop base base0 mx [] n us = Inr (n, us)"
| "uint_loop base base0 mx (c # s) n us =
    (if c = CHR ''_'' \<and> base0 then uint_loop base base0 mx s n True
     else (case digit_val c of
       None \<Rightarrow> Inl Syntax
     | Some d \<Rightarrow>
         if base \<le> d then Inl Syntax
         else if mx < n * base + d then Inl Range
         else uint_loop base base0 mx s (n * base + d) us))"

text \<open>The base a literal's prefix selects when the base argument is 0, and what follows it.\<close>

definition base_prefix :: "string \<Rightarrow> nat \<times> string" where
  "base_prefix s =
    (if s \<noteq> [] \<and> s ! 0 = CHR ''0'' then
       (if 3 \<le> length s \<and> lower_byte (s ! 1) = 98 then (2, drop 2 s)
        else if 3 \<le> length s \<and> lower_byte (s ! 1) = 111 then (8, drop 2 s)
        else if 3 \<le> length s \<and> lower_byte (s ! 1) = 120 then (16, drop 2 s)
        else (8, drop 1 s))
     else (10, s))"

definition parse_uint :: "nat \<Rightarrow> nat \<Rightarrow> string \<Rightarrow> num_error + nat" where
  "parse_uint base bits s =
    (if s = [] then Inl Syntax else
     let (b, r) = (if base = 0 then base_prefix s else (base, s)) in
     and_then (uint_loop b (base = 0) (2 ^ bits - 1) r 0 False)
       (\<lambda>(n, us). if us \<and> \<not> underscore_ok s then Inl Syntax else Inr n))"

text \<open>\<open>strconv.ParseInt(s, base, bits)\<close>\<close>

definition parse_int :: "nat \<Rightarrow> nat \<Rightarrow> string \<Rightarrow> num_error + int" where
  "parse_int base bits s =
    (if s = [] then Inl Syntax else
     let neg = (hd s = CHR ''-'') in
     and_then (parse_uint base bits (drop_sign s))
       (\<lambda>un. if \<not> neg \<and> 2 ^ (bits - 1) \<le> un then Inl Range
             else if neg \<and> 2 ^ (bits - 1) < un then Inl Range
             else Inr (if neg then - int un else int un)))"

text \<open>\<open>strconv.Atoi\<close>\<close>

definition atoi :: "string \<Rightarrow> num_error + int" where
  "atoi s = parse_int 10 64 s"

section \<open>Formatting\<close>

function digits :: "nat \<Rightarrow> nat \<Rightarrow> string" where
  "digits base n =
    (if base < 2 \<or> n < base then [digit_char n]
     else digits base (n div base) @ [digit_char (n mod base)])"
  by pat_completeness auto
termination
  by (relation "measure (\<lambda>(base, n). n)") auto

declare digits.simps [simp del]

definition zero_pad :: "nat \<Rightarrow> string \<Rightarrow> string" where
  "zero_pad w s = replicate (w - length s) (CHR ''0'') @ s"

text \<open>\<open>%d\<close>, \<open>%x\<close> and their zero-padded forms; the sign takes one place of the width.\<close>

definition fmt_int :: "nat \<Rightarrow> nat \<Rightarrow> int \<Rightarrow> string" where
  "fmt_int base w n =
    (if n < 0 then CHR ''-'' # zero_pad (w - 1) (digits base (nat (- n)))
     else zero_pad w (digits base (nat n)))"

definition itoa :: "int \<Rightarrow> string" where
  "itoa n = fmt_int 10 0 n"

section \<open>Parsing undoes formatting\<close>

lemma uint_loop_append:
  "uint_loop b z mx (xs @ ys) n u =
    and_then (uint_loop b z mx xs n u) (\<lambda>(n', u'). uint_loop b z mx ys n' u')"
  by (induction xs arbitrary: n u) (auto split: option.splits)

lemma digit_char_not_underscore: "d < 36 \<Longrightarrow> digit_char d \<noteq> CHR ''_''"
  using byte_digit_char [of d] by (auto simp: byte_def split: if_splits)

lemma digits_length_pos: "digits base n \<noteq> []"
  by (subst digits.simps) simp

lemma hd_digits_nonzero:
  assumes "0 < n"
  shows "\<exists>d. 0 < d \<and> d < 10 \<and> hd (digits 10 n) = digit_char d"
  using assms
proof (induction n rule: less_induct)
  case (less n)
  show ?case
  proof (cases "n < 10")
    case True
    then show ?thesis using less.prems by (subst digits.simps) auto
  next
    case False
    then have "\<exists>d. 0 < d \<and> d < 10 \<and> hd (digits 10 (n div 10)) = digit_char d" by (intro less.IH) auto
    then show ?thesis using False by (subst digits.simps) (simp add: digits_length_pos)
  qed
qed

lemma digit_char_nonzero: "0 < d \<Longrightarrow> d < 10 \<Longrightarrow> digit_char d \<noteq> CHR ''0''"
  using byte_digit_char [of d] by (auto simp: byte_def)

lemma uint_loop_digits:
  assumes "2 \<le> base" "base \<le> 36" "n \<le> mx"
  shows "uint_loop base z mx (digits base n) 0 u = Inr (n, u)"
  using assms
proof (induction base n rule: digits.induct)
  case (1 base n)
  show ?case
  proof (cases "n < base")
    case True
    then show ?thesis
      using 1 by (subst digits.simps) (simp add: digit_char_not_underscore)
  next
    case False
    have le: "n div base \<le> mx" using 1 by (meson div_le_dividend le_trans)
    then have IH: "uint_loop base z mx (digits base (n div base)) 0 u = Inr (n div base, u)"
      using 1 False by simp
    have m: "n mod base < base" "n mod base < 36"
      using 1 by (auto intro: less_le_trans [OF mod_less_divisor])
    have "uint_loop base z mx [digit_char (n mod base)] (n div base) u = Inr (n, u)"
      using 1(4) m(1) digit_val_char [OF m(2)] digit_char_not_underscore [OF m(2)] by simp
    moreover have "digits base n = digits base (n div base) @ [digit_char (n mod base)]"
      using 1 False by (subst digits.simps) simp
    ultimately show ?thesis using IH by (simp add: uint_loop_append)
  qed
qed

lemma uint_loop_zeros:
  assumes "2 \<le> base"
  shows "uint_loop base z mx (replicate k (CHR ''0'') @ s) 0 u = uint_loop base z mx s 0 u"
proof (induction k)
  case (Suc k)
  have "digit_val (CHR ''0'') = Some 0"
    by (simp add: digit_val_def is_digit_def byte_def)
  then show ?case using Suc assms by simp
qed simp

lemma hd_digits:
  assumes "2 \<le> base" "base \<le> 36"
  shows "\<exists>d < base. hd (digits base n) = digit_char d"
  using assms
proof (induction base n rule: digits.induct)
  case (1 base n)
  show ?case
  proof (cases "n < base")
    case True
    then show ?thesis by (subst digits.simps) auto
  next
    case False
    then show ?thesis using 1 by (subst digits.simps) (simp add: digits_length_pos)
  qed
qed

lemma hd_zero_pad: "2 \<le> base \<Longrightarrow> base \<le> 36 \<Longrightarrow>
    \<exists>d < base. hd (zero_pad w (digits base n)) = digit_char d"
proof -
  assume b: "2 \<le> base" "base \<le> 36"
  show ?thesis
  proof (cases "w - length (digits base n)")
    case 0
    then show ?thesis using hd_digits [OF b] by (simp add: zero_pad_def)
  next
    case (Suc k)
    then show ?thesis using b digit_char_0 by (auto simp: zero_pad_def intro: exI [of _ 0])
  qed
qed

lemma zero_pad_nonempty [simp]: "zero_pad w (digits base n) \<noteq> []"
  by (simp add: zero_pad_def digits_length_pos)

lemma digit_char_no_sign: "d < 36 \<Longrightarrow> digit_char d \<noteq> CHR ''-'' \<and> digit_char d \<noteq> CHR ''+''"
  using byte_digit_char [of d] by (auto simp: byte_def split: if_splits)

lemma drop_sign_pad:
  assumes "2 \<le> base" "base \<le> 36"
  shows "drop_sign (zero_pad w (digits base n)) = zero_pad w (digits base n)"
    and "hd (zero_pad w (digits base n)) \<noteq> CHR ''-''"
proof -
  obtain d where d: "d < base" "hd (zero_pad w (digits base n)) = digit_char d"
    using hd_zero_pad [OF assms] by blast
  then have ns: "digit_char d \<noteq> CHR ''-'' \<and> digit_char d \<noteq> CHR ''+''"
    using assms digit_char_no_sign by (meson less_le_trans)
  then show "hd (zero_pad w (digits base n)) \<noteq> CHR ''-''" using d by metis
  obtain c r where "zero_pad w (digits base n) = c # r"
    using zero_pad_nonempty by (metis neq_Nil_conv)
  then show "drop_sign (zero_pad w (digits base n)) = zero_pad w (digits base n)"
    using d ns by (auto simp: drop_sign_def)
qed

lemma parse_uint_pad:
  assumes "2 \<le> base" "base \<le> 36" "n < 2 ^ bits"
  shows "parse_uint base bits (zero_pad w (digits base n)) = Inr n"
proof -
  have "n \<le> 2 ^ bits - 1" using assms(3) by simp
  then have "uint_loop base False (2 ^ bits - 1) (zero_pad w (digits base n)) 0 False
      = Inr (n, False)"
    unfolding zero_pad_def using assms by (simp add: uint_loop_zeros uint_loop_digits)
  then show ?thesis using assms(1) by (simp add: parse_uint_def)
qed

theorem parse_int_fmt_int:
  assumes b: "2 \<le> base" "base \<le> 36" and bits: "0 < bits"
    and range: "- (2 ^ (bits - 1)) \<le> n" "n < 2 ^ (bits - 1)"
  shows "parse_int base bits (fmt_int base w n) = Inr n"
proof -
  have pow: "(2::nat) ^ (bits - 1) < 2 ^ bits" using bits by simp
  show ?thesis
  proof (cases "n < 0")
    case True
    then have m: "nat (- n) \<le> 2 ^ (bits - 1)"
      using range by (simp add: nat_le_iff)
    then have "nat (- n) < 2 ^ bits" using pow by linarith
    then have "parse_uint base bits (zero_pad (w - 1) (digits base (nat (- n)))) = Inr (nat (- n))"
      by (rule parse_uint_pad [OF b])
    then show ?thesis using True m by (simp add: parse_int_def fmt_int_def drop_sign_def)
  next
    case False
    then have m: "nat n < 2 ^ (bits - 1)"
      using range by (simp add: nat_less_iff)
    then have "nat n < 2 ^ bits" using pow by linarith
    then have "parse_uint base bits (zero_pad w (digits base (nat n))) = Inr (nat n)"
      by (rule parse_uint_pad [OF b])
    then show ?thesis using False m
      by (simp add: parse_int_def fmt_int_def drop_sign_pad [OF b])
  qed
qed

text \<open>Every value \<open>ParseInt\<close> returns fits its width.\<close>

lemma parse_int_range:
  assumes "parse_int base bits s = Inr n"
  shows "- (2 ^ (bits - 1)) \<le> n \<and> n < 2 ^ (bits - 1)"
proof -
  obtain un where un: "n = (if hd s = CHR ''-'' then - int un else int un)"
    and pos: "hd s \<noteq> CHR ''-'' \<Longrightarrow> un < 2 ^ (bits - 1)"
    and neg: "hd s = CHR ''-'' \<Longrightarrow> un \<le> 2 ^ (bits - 1)"
    using assms by (auto simp: parse_int_def Let_def results split: if_splits)
  define P :: int where "P = 2 ^ (bits - 1)"
  have "0 < P" by (simp add: P_def)
  have "int un < P \<longleftrightarrow> un < 2 ^ (bits - 1)" "int un \<le> P \<longleftrightarrow> un \<le> 2 ^ (bits - 1)"
    unfolding P_def
    by (metis of_nat_less_iff of_nat_numeral of_nat_power,
        metis of_nat_le_iff of_nat_numeral of_nat_power)
  note P = this
  have "- P \<le> n \<and> n < P"
  proof (cases "hd s = CHR ''-''")
    case True
    then show ?thesis using neg P un \<open>0 < P\<close> by simp
  next
    case False
    then show ?thesis using pos P un by simp
  qed
  then show ?thesis by (simp only: P_def)
qed

lemma fmt_int_inject:
  assumes "2 \<le> base" "base \<le> 36" and "in_i64 m" "in_i64 n"
    and "fmt_int base w m = fmt_int base w n"
  shows "m = n"
proof -
  have "parse_int base 64 (fmt_int base w k) = Inr k" if "in_i64 k" for k
    using that assms(1,2) by (intro parse_int_fmt_int) (auto simp: in_i64_def)
  then show ?thesis using assms by (metis sum.inject(2))
qed

end
