(* ===== verification/Sysfs.thy ===== *)
theory Sysfs
  imports Go_Numbers
begin

text \<open>
  The operating system as the program sees it: the calls of \<open>os\<close> and
  \<open>path/filepath\<close> it makes, each against the snapshot of the file system at its own
  instant, and the lexical path functions \<open>Clean\<close>, \<open>Join\<close>, \<open>Dir\<close> and
  \<open>Base\<close>. What the calls return is not ours to define: a snapshot is a record of
  functions, and every theorem holds for all of them.
\<close>

section \<open>Snapshots and calls\<close>

text \<open>The text of an error of the operating system.\<close>

type_synonym io_err = string

text \<open>
  \<open>fs_open\<close> is \<open>os.Open\<close> and reading to the end: the bytes delivered, and the error
  that ended the reading early, if one did. The entries of a directory come sorted by name.
\<close>

record fs =
  fs_stat :: "string \<Rightarrow> bool"
  fs_read :: "string \<Rightarrow> io_err + string"
  fs_open :: "string \<Rightarrow> io_err + string \<times> io_err option"
  fs_dir :: "string \<Rightarrow> io_err + string list"
  fs_link :: "string \<Rightarrow> io_err + string"

type_synonym world = "nat \<Rightarrow> fs"

definition os_stat :: "string \<Rightarrow> world \<Rightarrow> bool io" where
  "os_stat p w = syscall w (\<lambda>s. fs_stat s p)"

definition os_read_file :: "string \<Rightarrow> world \<Rightarrow> (io_err + string) io" where
  "os_read_file p w = syscall w (\<lambda>s. fs_read s p)"

definition os_open_read :: "string \<Rightarrow> world \<Rightarrow> (io_err + string \<times> io_err option) io" where
  "os_open_read p w = syscall w (\<lambda>s. fs_open s p)"

definition os_read_dir :: "string \<Rightarrow> world \<Rightarrow> (io_err + string list) io" where
  "os_read_dir p w = syscall w (\<lambda>s. fs_dir s p)"

definition eval_symlinks :: "string \<Rightarrow> world \<Rightarrow> (io_err + string) io" where
  "eval_symlinks p w = syscall w (\<lambda>s. fs_link s p)"

lemmas os_calls = os_stat_def os_read_file_def os_open_read_def os_read_dir_def eval_symlinks_def

lemma run_os_calls [simp]:
  "run_state (os_stat p w) t = (fs_stat (w t) p, Suc t)"
  "run_state (os_read_file p w) t = (fs_read (w t) p, Suc t)"
  "run_state (os_open_read p w) t = (fs_open (w t) p, Suc t)"
  "run_state (os_read_dir p w) t = (fs_dir (w t) p, Suc t)"
  "run_state (eval_symlinks p w) t = (fs_link (w t) p, Suc t)"
  by (simp_all add: os_calls)

lemma os_op_os_calls [intro]:
  "os_op (os_stat p)" "os_op (os_read_file p)" "os_op (os_open_read p)"
  "os_op (os_read_dir p)" "os_op (eval_symlinks p)"
  unfolding os_calls by (rule os_op_syscall)+

lemma snap_os_calls [simp]:
  "snap (os_stat p) s = fs_stat s p"
  "snap (os_read_file p) s = fs_read s p"
  "snap (os_open_read p) s = fs_open s p"
  "snap (os_read_dir p) s = fs_dir s p"
  "snap (eval_symlinks p) s = fs_link s p"
  unfolding os_calls by simp_all

section \<open>Lexical paths\<close>

text \<open>
  \<open>filepath.Clean\<close> on Unix: empty elements and \<open>.\<close> go, \<open>..\<close> removes the element
  before it or, at the front of a relative path, stays.
\<close>

definition elements :: "string \<Rightarrow> string list" where
  "elements p = filter (\<lambda>c. c \<noteq> [] \<and> c \<noteq> ''.'') (split_on (CHR ''/'') p)"

definition rooted :: "string \<Rightarrow> bool" where
  "rooted p \<longleftrightarrow> p \<noteq> [] \<and> hd p = CHR ''/''"

fun clean_step :: "bool \<Rightarrow> string list \<Rightarrow> string \<Rightarrow> string list" where
  "clean_step r [] c = (if c = ''..'' \<and> r then [] else [c])"
| "clean_step r (h # st) c = (if c = ''..'' \<and> h \<noteq> ''..'' then st else c # h # st)"

definition normal :: "bool \<Rightarrow> string list \<Rightarrow> string list" where
  "normal r cs = rev (foldl (clean_step r) [] cs)"

definition render :: "bool \<Rightarrow> string list \<Rightarrow> string" where
  "render r cs = (if r then CHR ''/'' # join ''/'' cs else if cs = [] then ''.'' else join ''/'' cs)"

definition clean :: "string \<Rightarrow> string" where
  "clean p = render (rooted p) (normal (rooted p) (elements p))"

text \<open>\<open>filepath.Join(d, n)\<close>\<close>

definition path_join :: "string \<Rightarrow> string \<Rightarrow> string" where
  "path_join d n = (if d \<noteq> [] then clean (d @ ''/'' @ n) else if n \<noteq> [] then clean n else [])"

text \<open>\<open>filepath.Dir\<close>: everything up to and with the last slash, cleaned.\<close>

definition path_dir :: "string \<Rightarrow> string" where
  "path_dir p = clean (rev (dropWhile (\<lambda>c. c \<noteq> CHR ''/'') (rev p)))"

text \<open>\<open>filepath.Base\<close>: the last element.\<close>

definition path_base :: "string \<Rightarrow> string" where
  "path_base p =
    (if p = [] then ''.'' else
     let q = rev (dropWhile (\<lambda>c. c = CHR ''/'') (rev p));
         b = rev (takeWhile (\<lambda>c. c \<noteq> CHR ''/'') (rev q))
     in if b = [] then ''/'' else b)"

text \<open>A name of a directory entry.\<close>

definition plain_name :: "string \<Rightarrow> bool" where
  "plain_name n \<longleftrightarrow> n \<noteq> [] \<and> n \<noteq> ''.'' \<and> n \<noteq> ''..'' \<and> CHR ''/'' \<notin> set n"

lemma split_on_snoc:
  assumes "c \<notin> set q"
  shows "split_on c (p @ c # q) = split_on c p @ [q]"
  by (induction p) (auto simp: split_on_single [OF assms] split: list.splits)

lemma elements_snoc: "plain_name n \<Longrightarrow> elements (d @ CHR ''/'' # n) = elements d @ [n]"
  by (simp add: elements_def plain_name_def split_on_snoc)

lemma elements_slash: "elements (d @ ''/'') = elements d"
  using split_on_snoc [of "CHR ''/''" "[]" d] by (simp add: elements_def)

lemma elements_props: "e \<in> set (elements p) \<Longrightarrow> e \<noteq> [] \<and> e \<noteq> ''.'' \<and> CHR ''/'' \<notin> set e"
  by (auto simp: elements_def dest: split_on_pieces)

lemma elements_join:
  assumes "\<forall>e \<in> set cs. e \<noteq> [] \<and> e \<noteq> ''.'' \<and> CHR ''/'' \<notin> set e"
  shows "elements (join ''/'' cs) = cs"
  using assms
proof (induction cs rule: rev_induct)
  case Nil
  then show ?case by (simp add: elements_def)
next
  case (snoc e cs)
  show ?case
  proof (cases "cs = []")
    case True
    then show ?thesis using snoc.prems by (simp add: elements_def split_on_single)
  next
    case False
    then have "join ''/'' (cs @ [e]) = join ''/'' cs @ CHR ''/'' # e"
      by (induction cs rule: induct_list012) auto
    then show ?thesis using snoc by (simp add: elements_def split_on_snoc)
  qed
qed

lemma elements_render:
  assumes "\<forall>e \<in> set cs. e \<noteq> [] \<and> e \<noteq> ''.'' \<and> CHR ''/'' \<notin> set e"
  shows "elements (render r cs) = cs"
proof -
  have "elements (CHR ''/'' # p) = elements p" for p
    by (simp add: elements_def)
  then show ?thesis using elements_join [OF assms]
    by (auto simp: render_def elements_def)
qed

text \<open>The stacks cleaning builds: parent references only at the bottom, none below the root.\<close>

fun stk :: "bool \<Rightarrow> string list \<Rightarrow> bool" where
  "stk r [] = True"
| "stk r (h # st) = (stk r st \<and> (h = ''..'' \<longrightarrow> \<not> r \<and> set st \<subseteq> {''..''}))"

lemma stk_step: "stk r st \<Longrightarrow> stk r (clean_step r st c)"
  by (cases st) auto

lemma stk_foldl: "stk r st \<Longrightarrow> stk r (foldl (clean_step r) st cs)"
  by (induction cs arbitrary: st) (auto simp: stk_step)

lemma stk_norm: "stk r (rev (normal r cs))"
  by (simp add: normal_def stk_foldl)

lemma norm_stk: "stk r (rev cs) \<Longrightarrow> normal r cs = cs"
proof (induction cs rule: rev_induct)
  case Nil
  then show ?case by (simp add: normal_def)
next
  case (snoc c cs)
  then have n: "foldl (clean_step r) [] cs = rev cs" by (simp add: normal_def rev_swap)
  show ?case
  proof (cases "rev cs")
    case Nil
    then show ?thesis using snoc n by (simp add: normal_def)
  next
    case (Cons h st)
    then have "set (rev cs) = insert h (set st)" by simp
    then have "c = ''..'' \<longrightarrow> h = ''..''" using snoc.prems by auto
    then show ?thesis using Cons n by (auto simp: normal_def)
  qed
qed

lemma norm_idem: "normal r (normal r cs) = normal r cs"
  by (rule norm_stk [OF stk_norm])

lemma norm_snoc: "n \<noteq> ''..'' \<Longrightarrow> normal r (cs @ [n]) = normal r cs @ [n]"
  by (cases "foldl (clean_step r) [] cs") (simp_all add: normal_def)

lemma set_foldl_step: "set (foldl (clean_step r) st cs) \<subseteq> set st \<union> set cs"
proof (induction cs arbitrary: st)
  case (Cons c cs)
  have "set (clean_step r st c) \<subseteq> insert c (set st)" by (cases st) auto
  then show ?case using Cons [of "clean_step r st c"] by auto
qed simp

lemma set_norm: "set (normal r cs) \<subseteq> set cs"
  using set_foldl_step [of r "[]" cs] by (simp add: normal_def)

lemma norm_props:
  "\<forall>e \<in> set (normal r (elements p)). e \<noteq> [] \<and> e \<noteq> ''.'' \<and> CHR ''/'' \<notin> set e"
  using set_norm elements_props by blast

lemma rooted_render:
  assumes "\<forall>e \<in> set cs. e \<noteq> [] \<and> e \<noteq> ''.'' \<and> CHR ''/'' \<notin> set e"
  shows "rooted (render r cs) \<longleftrightarrow> r"
proof -
  have "cs \<noteq> [] \<Longrightarrow> join ''/'' cs \<noteq> [] \<and> hd (join ''/'' cs) \<in> set (hd cs)"
    using assms by (cases "(''/'', cs)" rule: join.cases) auto
  then show ?thesis using assms hd_in_set [of cs] by (auto simp: rooted_def render_def)
qed

lemma render_nonempty:
  assumes "\<forall>e \<in> set cs. e \<noteq> [] \<and> e \<noteq> ''.'' \<and> CHR ''/'' \<notin> set e"
  shows "render r cs \<noteq> []"
  using assms by (cases "(''/'', cs)" rule: join.cases) (auto simp: render_def)

lemma rooted_append: "p \<noteq> [] \<Longrightarrow> rooted (p @ q) = rooted p"
  by (simp add: rooted_def)

lemma clean_idem [simp]: "clean (clean p) = clean p"
  unfolding clean_def
  by (simp only: elements_render [OF norm_props] rooted_render [OF norm_props] norm_idem)

lemma path_join_plain:
  assumes "plain_name n" "d \<noteq> []"
  shows "path_join d n = render (rooted d) (normal (rooted d) (elements d) @ [n])"
proof -
  have "rooted (d @ ''/'' @ n) \<longleftrightarrow> rooted d" using assms(2) by (simp add: rooted_def)
  then show ?thesis
    using assms by (simp add: path_join_def clean_def elements_snoc norm_snoc plain_name_def)
qed

text \<open>The directory of an entry is the directory it was listed in.\<close>

theorem path_dir_join:
  assumes n: "plain_name n" and d: "d \<noteq> []"
  shows "path_dir (path_join d n) = clean d"
proof -
  let ?r = "rooted d" and ?cs = "normal (rooted d) (elements d)"
  have sl: "CHR ''/'' \<notin> set n" using n by (simp add: plain_name_def)
  have dir: "rev (dropWhile (\<lambda>c. c \<noteq> CHR ''/'') (rev (p @ CHR ''/'' # n))) = p @ ''/''" for p
    using sl dropWhile_append_stop [of "rev n" "\<lambda>c. c \<noteq> CHR ''/''" "CHR ''/''" "rev p"] by force
  have dir0: "rev (dropWhile (\<lambda>c. c \<noteq> CHR ''/'') (rev n)) = []"
    using sl by (simp add: dropWhile_eq_Nil_conv) blast
  have snoc: "cs \<noteq> [] \<Longrightarrow> join ''/'' (cs @ [n]) = join ''/'' cs @ CHR ''/'' # n" for cs
    by (induction cs rule: induct_list012) auto
  have cl: "clean (render ?r ?cs @ ''/'') = clean d"
  proof -
    have "render ?r ?cs \<noteq> []" by (rule render_nonempty [OF norm_props])
    then have "rooted (render ?r ?cs @ ''/'') = ?r"
      using rooted_render [OF norm_props] by (simp add: rooted_append)
    then show ?thesis
      by (simp only: clean_def elements_slash elements_render [OF norm_props] norm_idem)
  qed
  show ?thesis
  proof (cases "?cs = []")
    case True
    have "path_dir n = clean []" unfolding path_dir_def dir0 by (rule refl)
    moreover have "path_dir (CHR ''/'' # n) = clean ''/''"
      using dir [of "[]"] unfolding path_dir_def by (simp only: append_Nil)
    moreover have "path_join d n = (if ?r then CHR ''/'' # n else n)"
      using True by (simp add: path_join_plain [OF n d] render_def)
    ultimately have "path_dir (path_join d n) = clean (if ?r then ''/'' else [])" by simp
    moreover have "clean d = (if ?r then ''/'' else ''.'')"
      using True by (simp add: clean_def render_def)
    moreover have "clean ''/'' = ''/''" "clean [] = ''.''" by code_simp+
    ultimately show ?thesis by simp
  next
    case False
    then have "path_join d n = render ?r ?cs @ CHR ''/'' # n"
      unfolding path_join_plain [OF n d] render_def
      using snoc [OF False] False by (cases "rooted d") simp_all
    then show ?thesis using dir cl by (simp add: path_dir_def)
  qed
qed

lemma path_base_plain: "plain_name n \<Longrightarrow> path_base (d @ CHR ''/'' # n) = n"
proof -
  assume n: "plain_name n"
  then obtain c m where r: "rev n = c # m"
    by (metis plain_name_def neq_Nil_conv rev_is_Nil_conv)
  then have "c \<in> set n" by (metis list.set_intros(1) set_rev)
  then have c: "c \<noteq> CHR ''/''" using n by (auto simp: plain_name_def)
  have "rev (d @ CHR ''/'' # n) = c # m @ CHR ''/'' # rev d" using r by simp
  then have "dropWhile (\<lambda>c. c = CHR ''/'') (rev (d @ CHR ''/'' # n)) = rev (d @ CHR ''/'' # n)"
    using c by (simp only: dropWhile.simps if_False)
  then have "rev (dropWhile (\<lambda>c. c = CHR ''/'') (rev (d @ CHR ''/'' # n))) = d @ CHR ''/'' # n"
    by (simp only: rev_rev_ident)
  moreover have "takeWhile (\<lambda>c. c \<noteq> CHR ''/'') (rev n @ CHR ''/'' # rev d) = rev n"
    using n by (intro takeWhile_append_stop) (auto simp: plain_name_def)
  ultimately show ?thesis using n by (simp add: path_base_def plain_name_def Let_def)
qed

end
