(* ===== verification/Go_Float.thy ===== *)
theory Go_Float
  imports Go_Numbers "HOL-Library.Log_Nat"
begin

text \<open>
  Go's \<open>float64\<close> as the program uses it: literals parsed by \<open>strconv.ParseFloat\<close>,
  multiplication by 1000, division by 1000, comparison, \<open>math.Round\<close>, the conversion to
  \<open>int64\<close> and \<open>strconv.FormatFloat(x, 'f', 3, 64)\<close>. A finite value is the rational
  number it stands for; every operation is the exact one followed by rounding to the nearest
  binary64 value, ties to even. The sign of zero is not kept: nothing here observes it.
\<close>

section \<open>Binary64\<close>

datatype f64 = NaN | Inf bool | Fin rat

text \<open>The position of the leading bit of a positive number.\<close>

definition ilog2 :: "rat \<Rightarrow> int" where
  "ilog2 x = (let (n, d) = quotient_of x; k = bitlen n - bitlen d
     in if 2 powi k \<le> x then k else k - 1)"

text \<open>The nearest integer, ties to even.\<close>

definition round_even :: "rat \<Rightarrow> int" where
  "round_even y = (let f = \<lfloor>y\<rfloor>; r = y - of_int f
     in if r < 1 / 2 then f else if 1 / 2 < r then f + 1 else if even f then f else f + 1)"

text \<open>53 bits of precision, the least exponent that of the subnormal numbers.\<close>

definition ulp :: "rat \<Rightarrow> int" where
  "ulp x = max (ilog2 x - 52) (- 1074)"

definition round53 :: "rat \<Rightarrow> rat" where
  "round53 x = of_int (round_even (x / 2 powi ulp x)) * 2 powi ulp x"

definition to_f64 :: "rat \<Rightarrow> f64" where
  "to_f64 x =
    (if x = 0 then Fin 0
     else let y = round53 \<bar>x\<bar> in
       if 2 ^ 1024 \<le> y then Inf (x < 0) else Fin (if x < 0 then - y else y))"

definition f_neg :: "f64 \<Rightarrow> bool" where
  "f_neg a = (case a of NaN \<Rightarrow> False | Inf n \<Rightarrow> n | Fin x \<Rightarrow> x < 0)"

definition f_mul :: "f64 \<Rightarrow> f64 \<Rightarrow> f64" where
  "f_mul a b =
    (case (a, b) of
       (Fin x, Fin y) \<Rightarrow> to_f64 (x * y)
     | (NaN, _) \<Rightarrow> NaN
     | (_, NaN) \<Rightarrow> NaN
     | _ \<Rightarrow> if a = Fin 0 \<or> b = Fin 0 then NaN else Inf (f_neg a \<noteq> f_neg b))"

text \<open>Division by a non-zero finite value.\<close>

definition f_div :: "f64 \<Rightarrow> rat \<Rightarrow> f64" where
  "f_div a y = (case a of NaN \<Rightarrow> NaN | Inf n \<Rightarrow> Inf (n \<noteq> (y < 0)) | Fin x \<Rightarrow> to_f64 (x / y))"

definition f_less :: "f64 \<Rightarrow> f64 \<Rightarrow> bool" where
  "f_less a b =
    (case (a, b) of
       (NaN, _) \<Rightarrow> False
     | (_, NaN) \<Rightarrow> False
     | (Fin x, Fin y) \<Rightarrow> x < y
     | (Inf n, Inf m) \<Rightarrow> n \<and> \<not> m
     | (Inf n, Fin _) \<Rightarrow> n
     | (Fin _, Inf m) \<Rightarrow> \<not> m)"

text \<open>\<open>math.Round\<close>: half away from zero.\<close>

definition round_half_away :: "rat \<Rightarrow> int" where
  "round_half_away x = (if x < 0 then - \<lfloor>- x + 1 / 2\<rfloor> else \<lfloor>x + 1 / 2\<rfloor>)"

definition math_round :: "f64 \<Rightarrow> f64" where
  "math_round a = (case a of Fin x \<Rightarrow> Fin (of_int (round_half_away x)) | _ \<Rightarrow> a)"

text \<open>
  The conversion \<open>int64(x)\<close> truncates. Of a value outside \<open>int64\<close> the language says
  only that the result is implementation-defined; on amd64 it is the most negative
  \<open>int64\<close>.
\<close>

definition trunc :: "rat \<Rightarrow> int" where
  "trunc x = (if x < 0 then - \<lfloor>- x\<rfloor> else \<lfloor>x\<rfloor>)"

definition to_int64 :: "f64 \<Rightarrow> int" where
  "to_int64 a = (case a of
      Fin x \<Rightarrow> if in_i64 (trunc x) then trunc x else - (2 ^ 63)
    | _ \<Rightarrow> - (2 ^ 63))"

section \<open>Rounding\<close>

lemma p2_pos [simp]: "(0::rat) < 2 powi e"
  by simp

lemma p2_add: "(2::rat) powi (a + b) = 2 powi a * 2 powi b"
  by (simp add: power_int_add)

lemma p2_diff: "(2::rat) powi (a - b) = 2 powi a / 2 powi b"
  by (simp add: power_int_diff)

lemma p2_mono: "a \<le> b \<Longrightarrow> (2::rat) powi a \<le> 2 powi b"
  by (simp add: power_int_increasing)

lemma p2_less: "(2::rat) powi a < 2 powi b \<Longrightarrow> a < b"
  using p2_mono [of b a] by linarith

lemma p2_nat: "0 \<le> e \<Longrightarrow> (2::rat) powi e = of_int (2 ^ nat e)"
  by (simp add: power_int_def)

lemma bitlen_p2:
  assumes "0 < n"
  shows "(2::rat) powi (bitlen n - 1) \<le> of_int n" and "of_int n < (2::rat) powi bitlen n"
proof -
  have b: "2 ^ nat (bitlen n - 1) \<le> n" "n < 2 ^ nat (bitlen n)"
    using bitlen_bounds [OF assms] by blast+
  have "0 < bitlen n" using assms bitlen_eq_zero_iff [of n] bitlen_nonneg [of n] by linarith
  then have e: "(2::rat) powi (bitlen n - 1) = of_int (2 ^ nat (bitlen n - 1))"
    "(2::rat) powi bitlen n = of_int (2 ^ nat (bitlen n))"
    by (simp_all only: p2_nat)
  show "(2::rat) powi (bitlen n - 1) \<le> of_int n" unfolding e of_int_le_iff by (rule b)
  show "of_int n < (2::rat) powi bitlen n" unfolding e of_int_less_iff by (rule b)
qed

lemma ilog2_bounds:
  assumes "0 < x"
  shows "2 powi ilog2 x \<le> x" and "x < 2 powi (ilog2 x + 1)"
proof -
  obtain n d where q: "quotient_of x = (n, d)" by (cases "quotient_of x")
  then have d: "0 < d" and x: "x = of_int n / of_int d"
    using quotient_of_denom_pos quotient_of_div by blast+
  then have n: "0 < n" using assms by (simp add: zero_less_divide_iff)
  define k where "k = bitlen n - bitlen d"
  have "x < 2 powi bitlen n / 2 powi (bitlen d - 1)"
    unfolding x using bitlen_p2 [OF n] bitlen_p2 [OF d] d n
    by (intro frac_less) auto
  then have up: "x < 2 powi (k + 1)"
    by (simp add: k_def algebra_simps flip: p2_diff)
  have "2 powi (bitlen n - 1) / 2 powi bitlen d \<le> x"
    unfolding x using bitlen_p2 [OF n] bitlen_p2 [OF d] d n
    by (intro frac_le) auto
  then have lo: "2 powi (k - 1) \<le> x"
    by (simp add: k_def algebra_simps flip: p2_diff)
  show "2 powi ilog2 x \<le> x" using lo by (simp add: ilog2_def q k_def Let_def)
  show "x < 2 powi (ilog2 x + 1)" using up by (simp add: ilog2_def q k_def Let_def)
qed

lemma ilog2_less: "0 < x \<Longrightarrow> x < 2 powi k \<Longrightarrow> ilog2 x < k"
  using ilog2_bounds(1) [of x] p2_less by (meson order_le_less_trans)

lemma ilog2_ge: "0 < x \<Longrightarrow> 2 powi k \<le> x \<Longrightarrow> k \<le> ilog2 x"
  using ilog2_bounds(2) [of x] p2_less by (metis order_le_less_trans zless_add1_eq linorder_not_le order_less_le)

lemma round_even_cases:
  obtains "round_even y = \<lfloor>y\<rfloor>" "y - of_int \<lfloor>y\<rfloor> \<le> 1 / 2"
  | "round_even y = \<lfloor>y\<rfloor> + 1" "1 / 2 \<le> y - of_int \<lfloor>y\<rfloor>"
proof (cases "y - of_int \<lfloor>y\<rfloor> < 1 / 2 \<or> y - of_int \<lfloor>y\<rfloor> = 1 / 2 \<and> even \<lfloor>y\<rfloor>")
  case True
  then have "round_even y = \<lfloor>y\<rfloor>" "y - of_int \<lfloor>y\<rfloor> \<le> 1 / 2"
    by (auto simp: round_even_def Let_def)
  then show thesis by (rule that(1))
next
  case False
  then have "round_even y = \<lfloor>y\<rfloor> + 1" "1 / 2 \<le> y - of_int \<lfloor>y\<rfloor>"
    by (auto simp: round_even_def Let_def)
  then show thesis by (rule that(2))
qed

lemma round_even_err: "\<bar>of_int (round_even y) - y\<bar> \<le> 1 / 2"
proof -
  have "of_int \<lfloor>y\<rfloor> \<le> y" "y < of_int \<lfloor>y\<rfloor> + 1" by linarith+
  then show ?thesis by (cases y rule: round_even_cases) (auto simp: abs_le_iff)
qed

lemma round_even_of_int [simp]: "round_even (of_int n) = n"
  by (simp add: round_even_def)

lemma round_even_ge:
  assumes "of_int n \<le> y"
  shows "n \<le> round_even y"
proof -
  have "n \<le> \<lfloor>y\<rfloor>" using assms by (simp add: le_floor_iff)
  then show ?thesis by (cases y rule: round_even_cases) auto
qed

lemma round_even_le:
  assumes "y \<le> of_int n"
  shows "round_even y \<le> n"
proof (cases "y = of_int n")
  case False
  then have "\<lfloor>y\<rfloor> < n" using assms by (simp add: floor_less_iff)
  then show ?thesis by (cases y rule: round_even_cases) auto
qed simp

lemma round_even_mono: "y \<le> z \<Longrightarrow> round_even y \<le> round_even z"
proof -
  assume yz: "y \<le> z"
  show ?thesis
  proof (cases "\<lfloor>y\<rfloor> = \<lfloor>z\<rfloor>")
    case True
    then show ?thesis using yz unfolding round_even_def Let_def by auto
  next
    case False
    then have f: "\<lfloor>y\<rfloor> + 1 \<le> \<lfloor>z\<rfloor>" using floor_mono [OF yz] by linarith
    have "round_even y \<le> \<lfloor>y\<rfloor> + 1" by (rule round_even_le) linarith
    moreover have "\<lfloor>z\<rfloor> \<le> round_even z" by (rule round_even_ge) simp
    ultimately show ?thesis using f by linarith
  qed
qed

lemma round53_err:
  assumes "0 < x" and "x < 2 powi k" and "- 1000 \<le> k"
  shows "\<bar>round53 x - x\<bar> \<le> 2 powi (k - 54)"
proof -
  have "ilog2 x \<le> k - 1" using ilog2_less [OF assms(1,2)] by simp
  then have u: "ulp x \<le> k - 53" using assms(3) by (simp add: ulp_def)
  have "\<bar>round53 x - x\<bar> = \<bar>of_int (round_even (x / 2 powi ulp x)) - x / 2 powi ulp x\<bar> * 2 powi ulp x"
    by (simp add: round53_def left_diff_distrib abs_mult_pos)
  also have "\<dots> \<le> 1 / 2 * 2 powi ulp x"
    by (intro mult_right_mono round_even_err) simp
  also have "\<dots> = 2 powi (ulp x - 1)" by (simp add: p2_diff)
  also have "\<dots> \<le> 2 powi (k - 54)" using u by (intro p2_mono) simp
  finally show ?thesis .
qed

text \<open>A number on the grid of the rounded one bounds its rounding as it bounds the number.\<close>

lemma round53_ge:
  assumes "of_int n * 2 powi ulp x \<le> x"
  shows "of_int n * 2 powi ulp x \<le> round53 x"
proof -
  have "of_int n \<le> x / 2 powi ulp x" using assms by (simp add: pos_le_divide_eq)
  then show ?thesis unfolding round53_def
    by (intro mult_right_mono) (simp_all add: round_even_ge)
qed

lemma round53_le:
  assumes "x \<le> of_int n * 2 powi ulp x"
  shows "round53 x \<le> of_int n * 2 powi ulp x"
proof -
  have "x / 2 powi ulp x \<le> of_int n" using assms by (simp add: pos_divide_le_eq)
  then show ?thesis unfolding round53_def
    by (intro mult_right_mono) (simp_all add: round_even_le)
qed

lemma on_grid:
  assumes "ulp x \<le> e"
  obtains n where "(2::rat) powi e = of_int n * 2 powi ulp x"
proof -
  have "(2::rat) powi e = 2 powi (e - ulp x) * 2 powi ulp x" by (simp flip: p2_add)
  then show thesis using that assms by (simp add: p2_nat)
qed

lemma round53_int:
  assumes "0 < x" "x < 2 powi 53" "x = of_int m"
  shows "round53 x = x"
proof -
  have "ulp x \<le> 0" using ilog2_less [OF assms(1,2)] by (simp add: ulp_def)
  then obtain n where "(2::rat) powi 0 = of_int n * 2 powi ulp x" by (rule on_grid)
  then have "x = of_int (m * n) * 2 powi ulp x" using assms(3) by simp
  then show ?thesis using round53_ge [of "m * n" x] round53_le [of x "m * n"] by simp
qed

lemma round53_mono:
  assumes "0 < x" "x \<le> y"
  shows "round53 x \<le> round53 y"
proof (cases "ulp x = ulp y")
  case True
  have "x / 2 powi ulp x \<le> y / 2 powi ulp x" using assms by (simp add: divide_right_mono)
  then show ?thesis unfolding round53_def True [symmetric]
    by (intro mult_right_mono) (simp_all add: round_even_mono)
next
  case False
  have "0 < y" using assms by simp
  have i: "ilog2 x \<le> ilog2 y"
    using ilog2_ge [OF \<open>0 < y\<close>, of "ilog2 x"] ilog2_bounds(1) [OF assms(1)] assms(2)
    by (meson order_trans)
  with False have less: "ilog2 x < ilog2 y" and u: "ulp y = ilog2 y - 52"
    by (auto simp: ulp_def max_def split: if_splits)
  have ux: "ulp x \<le> ilog2 y" using less u by (auto simp: ulp_def max_def split: if_splits)
  have "x \<le> 2 powi ilog2 y"
    using ilog2_bounds(2) [OF assms(1)] p2_mono [of "ilog2 x + 1" "ilog2 y"] less by linarith
  then have "round53 x \<le> 2 powi ilog2 y"
    using on_grid [OF ux] round53_le by metis
  moreover have "ulp y \<le> ilog2 y" using u by simp
  then have "2 powi ilog2 y \<le> round53 y"
    using on_grid round53_ge ilog2_bounds(1) [OF \<open>0 < y\<close>] by metis
  ultimately show ?thesis by simp
qed

lemma round53_nonneg: "0 < x \<Longrightarrow> 0 \<le> round53 x"
  using round53_ge [of 0 x] by simp

text \<open>For evaluation: the largest exponent decides, instead of a power of 1024.\<close>

lemma to_f64_code [code]:
  "to_f64 x =
    (if x = 0 then Fin 0
     else let y = round53 \<bar>x\<bar> in
       if 1024 \<le> ilog2 y then Inf (x < 0) else Fin (if x < 0 then - y else y))"
proof -
  have "2 ^ 1024 \<le> y \<longleftrightarrow> 1024 \<le> ilog2 y" if "0 \<le> y" for y
  proof (cases "y = 0")
    case True
    have "ilog2 0 = - 2" by code_simp
    then show ?thesis using True by simp
  next
    case False
    then have y: "0 < y" using that by simp
    have p: "(2::rat) powi 1024 = 2 ^ 1024" by simp
    show ?thesis
      using ilog2_ge [OF y, of 1024] ilog2_less [OF y, of 1024] unfolding p by linarith
  qed
  moreover have "0 \<le> round53 \<bar>x\<bar>" if "x \<noteq> 0" using that round53_nonneg [of "\<bar>x\<bar>"] by simp
  ultimately show ?thesis by (simp add: to_f64_def Let_def)
qed

section \<open>Conversions of exact values\<close>

lemma to_f64_mono:
  assumes "to_f64 x = Fin x'" "to_f64 y = Fin y'" "x \<le> y"
  shows "x' \<le> y'"
proof -
  consider "0 < x" | "y < 0" | "x \<le> 0" "0 \<le> y" by linarith
  then show ?thesis
  proof cases
    case 1
    then show ?thesis using assms round53_mono [of x y]
      by (auto simp: to_f64_def Let_def split: if_splits)
  next
    case 2
    then show ?thesis using assms round53_mono [of "- y" "- x"]
      by (auto simp: to_f64_def Let_def split: if_splits)
  next
    case 3
    then show ?thesis using assms round53_nonneg [of "- x"] round53_nonneg [of y]
      by (auto simp: to_f64_def Let_def split: if_splits)
  qed
qed

text \<open>A number below \<open>2 ^ k\<close> is rounded by at most \<open>2 ^ (k - 54)\<close>, and never to infinity.\<close>

lemma to_f64_Fin:
  assumes "\<bar>x\<bar> < 2 powi k" "- 1000 \<le> k" "k \<le> 1000"
  obtains x' where "to_f64 x = Fin x'" "\<bar>x' - x\<bar> \<le> 2 powi (k - 54)"
proof (cases "x = 0")
  case True
  then show thesis using that [of 0] by (simp add: to_f64_def)
next
  case False
  then have pos: "0 < \<bar>x\<bar>" by simp
  have err: "\<bar>round53 \<bar>x\<bar> - \<bar>x\<bar>\<bar> \<le> 2 powi (k - 54)" by (rule round53_err [OF pos assms(1,2)])
  have "round53 \<bar>x\<bar> < 2 powi k + 2 powi k"
    using err assms(1) p2_mono [of "k - 54" k] by linarith
  also have "\<dots> = 2 powi (k + 1)" by (simp add: p2_add)
  also have "\<dots> \<le> 2 powi 1024" using assms(3) by (intro p2_mono) simp
  finally have "\<not> 2 ^ 1024 \<le> round53 \<bar>x\<bar>" by simp
  then have "to_f64 x = Fin (if x < 0 then - round53 \<bar>x\<bar> else round53 \<bar>x\<bar>)"
    using False by (simp add: to_f64_def Let_def)
  moreover have "\<bar>(if x < 0 then - round53 \<bar>x\<bar> else round53 \<bar>x\<bar>) - x\<bar> \<le> 2 powi (k - 54)"
    using err by (cases "x < 0") auto
  ultimately show thesis by (rule that)
qed

lemma to_f64_int:
  assumes "\<bar>m\<bar> < 2 ^ 53"
  shows "to_f64 (of_int m) = Fin (of_int m)"
proof (cases "m = 0")
  case True
  then show ?thesis by (simp add: to_f64_def)
next
  case False
  have "of_int \<bar>m\<bar> < (of_int (2 ^ 53) :: rat)"
    using assms by (simp only: of_int_less_iff)
  then have "\<bar>of_int m\<bar> < (2 powi 53 :: rat)" by simp
  then have r: "round53 \<bar>of_int m\<bar> = \<bar>of_int m\<bar>"
    using False by (intro round53_int [where m = "\<bar>m\<bar>"]) simp_all
  have "(2::rat) ^ 53 < 2 ^ 1024" by (rule power_strict_increasing) simp_all
  then have "\<not> 2 ^ 1024 \<le> (\<bar>of_int m\<bar> :: rat)"
    using \<open>\<bar>of_int m\<bar> < (2 powi 53 :: rat)\<close> by (simp only: power_int_numeral)
  then show ?thesis using False r unfolding to_f64_def Let_def by (simp only: r) simp
qed

section \<open>Parsing literals\<close>

text \<open>
  \<open>readFloat\<close>: the mantissa's digits (all of them: how many Go keeps does not matter,
  its slow path rounds correctly), how many of them are behind the point, whether there was
  a point, a digit and an underscore, and what is left.
\<close>

record mant =
  mt_digits :: nat
  mt_frac :: nat
  mt_dot :: bool
  mt_seen :: bool
  mt_us :: bool

definition mant0 :: mant where
  "mant0 = \<lparr>mt_digits = 0, mt_frac = 0, mt_dot = False, mt_seen = False, mt_us = False\<rparr>"

definition mant_digit :: "nat \<Rightarrow> nat \<Rightarrow> mant \<Rightarrow> mant" where
  "mant_digit base d m =
     m\<lparr>mt_digits := mt_digits m * base + d, mt_seen := True,
       mt_frac := mt_frac m + (if mt_dot m then 1 else 0)\<rparr>"

fun mant_loop :: "nat \<Rightarrow> mant \<Rightarrow> string \<Rightarrow> mant \<times> string" where
  "mant_loop base m [] = (m, [])"
| "mant_loop base m (c # s) =
    (if c = CHR ''_'' then mant_loop base (m\<lparr>mt_us := True\<rparr>) s
     else if c = CHR ''.'' then
       (if mt_dot m then (m, c # s) else mant_loop base (m\<lparr>mt_dot := True\<rparr>) s)
     else if is_digit c then mant_loop base (mant_digit base (byte c - 48) m) s
     else if base = 16 \<and> 97 \<le> lower_byte c \<and> lower_byte c \<le> 102
       then mant_loop base (mant_digit base (lower_byte c - 87) m) s
     else (m, c # s))"

text \<open>The exponent's digits; beyond 10000 they no longer count.\<close>

fun exp_loop :: "nat \<Rightarrow> bool \<Rightarrow> string \<Rightarrow> (nat \<times> bool) \<times> string" where
  "exp_loop e us [] = ((e, us), [])"
| "exp_loop e us (c # s) =
    (if c = CHR ''_'' then exp_loop e True s
     else if is_digit c then exp_loop (if e < 10000 then e * 10 + (byte c - 48) else e) us s
     else ((e, us), c # s))"

text \<open>The optional exponent: its value, whether it holds an underscore, and the rest.\<close>

definition read_exp :: "nat \<Rightarrow> string \<Rightarrow> ((int \<times> bool) \<times> string) option" where
  "read_exp base s =
    (case s of
       [] \<Rightarrow> if base = 16 then None else Some ((0, False), [])
     | c # r \<Rightarrow>
         if lower_byte c = (if base = 16 then 112 else 101) then
           (let neg = (r \<noteq> [] \<and> hd r = CHR ''-''); d = drop_sign r in
            if d = [] \<or> \<not> is_digit (hd d) then None
            else (case exp_loop 0 False d of
                    ((e, us), rest) \<Rightarrow> Some ((if neg then - int e else int e, us), rest)))
         else if base = 16 then None
         else Some ((0, False), s))"

text \<open>The words for the special values, in any letter case.\<close>

definition special_float :: "string \<Rightarrow> f64 option" where
  "special_float s =
    (let w = map lower_byte s; u = map lower_byte (drop_sign s) in
     if u = map byte ''inf'' \<or> u = map byte ''infinity''
     then Some (Inf (s \<noteq> [] \<and> hd s = CHR ''-''))
     else if w = map byte ''nan'' then Some NaN
     else None)"

definition float_value :: "nat \<Rightarrow> mant \<Rightarrow> int \<Rightarrow> rat" where
  "float_value base m e =
    (if base = 16 then of_nat (mt_digits m) * 2 powi (e - 4 * int (mt_frac m))
     else of_nat (mt_digits m) * 10 powi (e - int (mt_frac m)))"

text \<open>
  The number in \<open>u\<close>, the literal \<open>s\<close> without its sign and base prefix; all of it must be
  read. A value beyond the largest \<open>float64\<close> is \<open>ErrRange\<close>.
\<close>

definition read_number :: "nat \<Rightarrow> string \<Rightarrow> string \<Rightarrow> num_error + f64" where
  "read_number base u s =
    (let (m, r) = mant_loop base mant0 u in
     if \<not> mt_seen m then Inl Syntax
     else (case read_exp base r of
         None \<Rightarrow> Inl Syntax
       | Some ((e, us), rest) \<Rightarrow>
           if rest \<noteq> [] \<or> ((mt_us m \<or> us) \<and> \<not> underscore_ok s) then Inl Syntax
           else let x = float_value base m e in
             (case to_f64 (if hd s = CHR ''-'' then - x else x) of
                Inf _ \<Rightarrow> Inl Range
              | f \<Rightarrow> Inr f)))"

definition is_hex :: "string \<Rightarrow> bool" where
  "is_hex u \<longleftrightarrow> 3 \<le> length u \<and> u ! 0 = CHR ''0'' \<and> lower_byte (u ! 1) = 120"

text \<open>\<open>strconv.ParseFloat(s, 64)\<close>\<close>

definition parse_float :: "string \<Rightarrow> num_error + f64" where
  "parse_float s =
    (case special_float s of
       Some f \<Rightarrow> Inr f
     | None \<Rightarrow>
        if s = [] then Inl Syntax
        else if is_hex (drop_sign s) then read_number 16 (drop 2 (drop_sign s)) s
        else read_number 10 (drop_sign s) s)"

section \<open>Formatting\<close>

text \<open>
  \<open>strconv.FormatFloat(x, 'f', 3, 64)\<close>: the exact value rounded to three decimals, ties
  to even.
\<close>

definition show_milli :: "nat \<Rightarrow> string" where
  "show_milli k = digits 10 (k div 1000) @ ''.'' @ zero_pad 3 (digits 10 (k mod 1000))"

definition format_f3 :: "f64 \<Rightarrow> string" where
  "format_f3 a =
    (case a of
       NaN \<Rightarrow> ''NaN''
     | Inf n \<Rightarrow> if n then ''-Inf'' else ''+Inf''
     | Fin x \<Rightarrow> (if x < 0 then ''-'' else []) @ show_milli (nat (round_even (\<bar>x\<bar> * 1000))))"

section \<open>Decimals with three places survive\<close>

text \<open>
  A number of millidegrees below \<open>2 ^ 24\<close>, written as degrees with three places, read as
  a \<open>float64\<close>, multiplied by 1000 and rounded, is itself: the two roundings on the way
  amount to less than half a millidegree.
\<close>

lemma milli_exact:
  assumes "\<bar>m\<bar> < 2 ^ 24"
  obtains v w where "to_f64 (of_int m / 1000) = Fin v" "to_f64 (v * 1000) = Fin w"
    "round_half_away w = m"
proof -
  have "of_int \<bar>m\<bar> < (of_int (2 ^ 24) :: rat)" using assms by (simp only: of_int_less_iff)
  then have m: "\<bar>of_int m\<bar> < (16777216 :: rat)" by simp
  then have "\<bar>of_int m / 1000 :: rat\<bar> < 2 powi 15" by (simp add: abs_divide)
  then obtain v where v: "to_f64 (of_int m / 1000) = Fin v"
    "\<bar>v - of_int m / 1000\<bar> \<le> 2 powi (15 - 54)" by (rule to_f64_Fin) simp_all
  have "v * 1000 - of_int m = (v - of_int m / 1000) * 1000" by simp
  then have "\<bar>v * 1000 - of_int m\<bar> = \<bar>v - of_int m / 1000\<bar> * 1000" by (simp only: abs_mult)
  also have "\<dots> \<le> 2 powi (15 - 54) * 1000" using v(2) by (intro mult_right_mono) simp_all
  also have "\<dots> < 1 / 8" by (simp add: power_int_def power_one_over)
  finally have e1: "\<bar>v * 1000 - of_int m\<bar> < 1 / 8" .
  then have "\<bar>v * 1000\<bar> < 33554432" using m unfolding abs_less_iff by linarith
  then have "\<bar>v * 1000\<bar> < 2 powi 25" by simp
  then obtain w where w: "to_f64 (v * 1000) = Fin w" "\<bar>w - v * 1000\<bar> \<le> 2 powi (25 - 54)"
    by (rule to_f64_Fin) simp_all
  have "2 powi (25 - 54) < (1 / 8 :: rat)" by (simp add: power_int_def power_one_over)
  then have "\<bar>w - of_int m\<bar> < 1 / 2" using e1 w(2) by linarith
  then have e2: "w - of_int m < 1 / 2" "of_int m - w < 1 / 2" by linarith+
  have "round_half_away w = m"
  proof (cases "w < 0")
    case True
    have "\<lfloor>- w + 1 / 2\<rfloor> = - m"
      by (rule floor_unique) (use e2 in \<open>unfold of_int_minus, linarith+\<close>)
    then show ?thesis using True by (simp add: round_half_away_def)
  next
    case False
    have "\<lfloor>w + 1 / 2\<rfloor> = m"
      by (rule floor_unique) (use e2 in \<open>linarith+\<close>)
    then show ?thesis using False by (simp add: round_half_away_def)
  qed
  then show thesis using that v(1) w(1) by blast
qed

definition mant_push :: "mant \<Rightarrow> nat \<Rightarrow> nat \<Rightarrow> mant" where
  "mant_push m l n =
     m\<lparr>mt_digits := mt_digits m * 10 ^ l + n, mt_seen := True,
       mt_frac := mt_frac m + (if mt_dot m then l else 0)\<rparr>"

lemma mant_loop_digit:
  assumes "d < 10"
  shows "mant_loop 10 m (digit_char d # s) = mant_loop 10 (mant_digit 10 d m) s"
proof -
  have b: "byte (digit_char d) = 48 + d" using assms byte_digit_char [of d] by simp
  then have "digit_char d \<noteq> CHR ''_''" "digit_char d \<noteq> CHR ''.''" "is_digit (digit_char d)"
    using assms by (auto simp: byte_def is_digit_def)
  then show ?thesis using b by simp
qed

lemma mant_loop_digits:
  "mant_loop 10 m (digits 10 n @ s) = mant_loop 10 (mant_push m (length (digits 10 n)) n) s"
proof (induction "10::nat" n arbitrary: m s rule: digits.induct)
  case (1 n)
  show ?case
  proof (cases "n < 10")
    case True
    then have "digits 10 n = [digit_char n]" by (subst digits.simps) simp
    moreover have "mant_digit 10 n m = mant_push m 1 n"
      by (simp add: mant_digit_def mant_push_def)
    ultimately show ?thesis using True by (simp add: mant_loop_digit del: mant_loop.simps)
  next
    case False
    have d: "digits 10 n = digits 10 (n div 10) @ [digit_char (n mod 10)]"
      using False by (subst digits.simps) simp
    have "mant_digit 10 (n mod 10) (mant_push m (length (digits 10 (n div 10))) (n div 10))
        = mant_push m (length (digits 10 n)) n"
      by (simp add: mant_digit_def mant_push_def d algebra_simps)
    then show ?thesis using 1 False by (simp add: d mant_loop_digit del: mant_loop.simps)
  qed
qed

lemma mant_loop_zeros:
  "mant_loop 10 m (replicate (Suc k) (CHR ''0'') @ s) = mant_loop 10 (mant_push m (Suc k) 0) s"
proof (induction k arbitrary: m)
  case 0
  have "mant_loop 10 m (digit_char 0 # s) = mant_loop 10 (mant_digit 10 0 m) s"
    by (rule mant_loop_digit) simp
  moreover have "mant_digit 10 0 m = mant_push m 1 0" by (simp add: mant_digit_def mant_push_def)
  ultimately show ?case by (simp add: digit_char_0 del: mant_loop.simps)
next
  case (Suc k)
  have "mant_loop 10 m (digit_char 0 # replicate (Suc k) (CHR ''0'') @ s)
      = mant_loop 10 (mant_push (mant_digit 10 0 m) (Suc k) 0) s"
    using Suc mant_loop_digit [of 0] by (simp del: mant_loop.simps replicate.simps)
  moreover have "mant_push (mant_digit 10 0 m) (Suc k) 0 = mant_push m (Suc (Suc k)) 0"
    by (simp add: mant_digit_def mant_push_def algebra_simps)
  ultimately show ?case by (simp add: digit_char_0 del: mant_loop.simps)
qed

lemma mant_loop_pad:
  "mant_loop 10 m (zero_pad w (digits 10 n) @ s)
    = mant_loop 10 (mant_push m (length (zero_pad w (digits 10 n))) n) s"
proof (cases "w - length (digits 10 n)")
  case 0
  then show ?thesis by (simp add: zero_pad_def mant_loop_digits)
next
  case (Suc k)
  have "zero_pad w (digits 10 n) @ s = replicate (Suc k) (CHR ''0'') @ digits 10 n @ s"
    using Suc by (simp add: zero_pad_def)
  moreover have "mant_push (mant_push m (Suc k) 0) (length (digits 10 n)) n
      = mant_push m (length (zero_pad w (digits 10 n))) n"
    using Suc by (simp add: zero_pad_def mant_push_def power_add algebra_simps)
  ultimately show ?thesis by (simp only: mant_loop_zeros mant_loop_digits)
qed

lemma digits_length:
  assumes "n < 10 ^ l" "0 < l"
  shows "length (digits 10 n) \<le> l"
  using assms
proof (induction l arbitrary: n)
  case (Suc l)
  show ?case
  proof (cases "n < 10")
    case False
    then have "l \<noteq> 0" using Suc.prems by (cases l) auto
    moreover have "n div 10 < 10 ^ l" using Suc.prems(1) by (simp add: div_less_iff_less_mult)
    ultimately have "length (digits 10 (n div 10)) \<le> l" using Suc.IH by simp
    then show ?thesis using False by (subst digits.simps) simp
  qed (subst digits.simps, simp)
qed simp

lemma zero_pad_length: "n < 10 ^ l \<Longrightarrow> 0 < l \<Longrightarrow> length (zero_pad l (digits 10 n)) = l"
  using digits_length by (simp add: zero_pad_def)

definition show_signed :: "int \<Rightarrow> string" where
  "show_signed m = (if m < 0 then ''-'' else []) @ show_milli (nat \<bar>m\<bar>)"

lemma mant_loop_show_milli:
  "\<exists>m. mant_loop 10 mant0 (show_milli k) = (m, [])
    \<and> mt_digits m = k \<and> mt_frac m = 3 \<and> mt_seen m \<and> \<not> mt_us m"
proof -
  let ?a = "mant_push mant0 (length (digits 10 (k div 1000))) (k div 1000)"
  have "mant_loop 10 mant0 (show_milli k)
      = mant_loop 10 (?a\<lparr>mt_dot := True\<rparr>) (zero_pad 3 (digits 10 (k mod 1000)) @ [])"
    by (simp add: show_milli_def mant_loop_digits) (simp add: mant_push_def mant0_def)
  also have "\<dots> = (mant_push (?a\<lparr>mt_dot := True\<rparr>) 3 (k mod 1000), [])"
    unfolding mant_loop_pad by (simp add: zero_pad_length)
  finally show ?thesis by (simp add: mant_push_def mant0_def)
qed

lemma digit_char_is_digit: "d < 10 \<Longrightarrow> is_digit (digit_char d)"
  using byte_digit_char [of d] by (simp add: is_digit_def)

lemma digits_are_digits: "c \<in> set (digits 10 n) \<Longrightarrow> is_digit c"
proof (induction "10::nat" n rule: digits.induct)
  case (1 n)
  show ?case
  proof (cases "n < 10")
    case True
    then have "digits 10 n = [digit_char n]" by (subst digits.simps) simp
    then show ?thesis using 1 True by (simp add: digit_char_is_digit)
  next
    case False
    then have "digits 10 n = digits 10 (n div 10) @ [digit_char (n mod 10)]"
      by (subst digits.simps) simp
    then show ?thesis using 1 False by (auto simp: digit_char_is_digit)
  qed
qed

lemma show_milli_chars:
  assumes "c \<in> set (show_milli k)"
  shows "is_digit c \<or> c = CHR ''.''"
proof -
  have "is_digit (CHR ''0'')" using digit_char_is_digit [of 0] by (simp add: digit_char_0)
  then show ?thesis
    using assms by (auto simp: show_milli_def zero_pad_def dest: digits_are_digits)
qed

lemma hd_show_milli: "is_digit (hd (show_milli k))" "show_milli k \<noteq> []"
  using digits_are_digits [of "hd (digits 10 (k div 1000))" "k div 1000"]
  by (simp_all add: show_milli_def digits_length_pos)

lemma lower_byte_plain: "is_digit c \<or> c = CHR ''.'' \<Longrightarrow> lower_byte c < 58"
  by (auto simp: lower_byte_def is_digit_def Let_def byte_def)

lemma drop_sign_digit: "s \<noteq> [] \<Longrightarrow> is_digit (hd s) \<Longrightarrow> drop_sign s = s \<and> hd s \<noteq> CHR ''-''"
  by (cases s) (auto simp: drop_sign_def is_digit_def byte_def)

lemma show_signed_parts:
  "drop_sign (show_signed m) = show_milli (nat \<bar>m\<bar>)"
  "show_signed m \<noteq> []" "hd (show_signed m) = CHR ''-'' \<longleftrightarrow> m < 0"
proof -
  obtain c r where u: "show_milli (nat \<bar>m\<bar>) = c # r"
    using hd_show_milli(2) by (metis neq_Nil_conv)
  then have "is_digit c" using hd_show_milli(1) by (metis list.sel(1))
  then have "c \<noteq> CHR ''-'' \<and> c \<noteq> CHR ''+''" by (auto simp: is_digit_def byte_def)
  then show "drop_sign (show_signed m) = show_milli (nat \<bar>m\<bar>)"
    "show_signed m \<noteq> []" "hd (show_signed m) = CHR ''-'' \<longleftrightarrow> m < 0"
    using u by (simp_all add: show_signed_def drop_sign_def)
qed

lemma special_float_digit:
  assumes "drop_sign s \<noteq> []" "is_digit (hd (drop_sign s))" "s \<noteq> []"
  shows "special_float s = None"
proof -
  have "lower_byte (hd (drop_sign s)) < 58" using lower_byte_plain assms(2) by blast
  moreover have "lower_byte (hd s) \<noteq> 110"
    using assms by (cases s) (auto simp: drop_sign_def lower_byte_def is_digit_def byte_def Let_def
      split: if_splits)
  ultimately show ?thesis using assms(1,3)
    by (cases s; cases "drop_sign s") (auto simp: special_float_def Let_def byte_def)
qed

theorem parse_float_show_signed:
  assumes "to_f64 (of_int m / 1000) = Fin v"
  shows "parse_float (show_signed m) = Inr (Fin v)"
proof -
  let ?u = "show_milli (nat \<bar>m\<bar>)"
  obtain mt where mt: "mant_loop 10 mant0 ?u = (mt, [])" "mt_digits mt = nat \<bar>m\<bar>"
    "mt_frac mt = 3" "mt_seen mt" "\<not> mt_us mt" using mant_loop_show_milli by blast
  have sp: "special_float (show_signed m) = None"
    by (rule special_float_digit) (simp_all add: show_signed_parts hd_show_milli)
  have hex: "\<not> is_hex ?u"
  proof
    assume "is_hex ?u"
    then have "?u ! 1 \<in> set ?u" "lower_byte (?u ! 1) = 120" by (simp_all add: is_hex_def)
    then show False using lower_byte_plain [OF show_milli_chars] by fastforce
  qed
  have "float_value 10 mt 0 = of_int \<bar>m\<bar> / 1000"
    by (simp add: float_value_def mt power_int_def power_one_over)
  then have val: "(if m < 0 then - float_value 10 mt 0 else float_value 10 mt 0) = of_int m / 1000"
    by simp
  have "read_exp 10 [] = Some ((0, False), [])" by (simp add: read_exp_def)
  then have "read_number 10 ?u (show_signed m) = Inr (Fin v)"
    using mt assms unfolding read_number_def Let_def
    by (simp add: show_signed_parts(3) val split del: if_split)
  then show ?thesis using hex sp by (simp add: parse_float_def show_signed_parts)
qed

text \<open>Printing a number of millidegrees as degrees is exact for every number below \<open>2 ^ 24\<close>.\<close>

lemma format_f3_exact:
  assumes "\<bar>m\<bar> < 2 ^ 24"
  obtains v where "f_div (to_f64 (of_int m)) 1000 = Fin v" "format_f3 (Fin v) = show_signed m"
proof -
  have "of_int \<bar>m\<bar> < (of_int (2 ^ 24) :: rat)" using assms by (simp only: of_int_less_iff)
  then have m: "\<bar>of_int m\<bar> < (16777216 :: rat)" by simp
  then have "\<bar>of_int m / 1000 :: rat\<bar> < 2 powi 15" by (simp add: abs_divide)
  then obtain v where v: "to_f64 (of_int m / 1000) = Fin v"
    "\<bar>v - of_int m / 1000\<bar> \<le> 2 powi (15 - 54)" by (rule to_f64_Fin) simp_all
  have "\<bar>m\<bar> < 2 ^ 53" using assms by simp
  then have "f_div (to_f64 (of_int m)) 1000 = Fin v" using v(1) by (simp add: to_f64_int f_div_def)
  have "2 powi (15 - 54) < (1 / 8000 :: rat)" by (simp add: power_int_def power_one_over)
  then have e: "\<bar>v - of_int m / 1000\<bar> < 1 / 8000" using v(2) by linarith
  have sgn: "v < 0 \<longleftrightarrow> m < 0"
  proof (cases "m = 0")
    case True
    then show ?thesis using v(1) by (simp add: to_f64_def)
  next
    case False
    have b: "v - of_int m / 1000 < 1 / 8000" "of_int m / 1000 - v < 1 / 8000"
      using e by linarith+
    from False consider "1 \<le> m" | "m \<le> - 1" by linarith
    then show ?thesis
    proof cases
      case 1
      then have "(1::rat) \<le> of_int m" by simp
      then show ?thesis using b 1 by linarith
    next
      case 2
      then have "of_int m \<le> (- 1::rat)" by linarith
      then show ?thesis using b 2 by linarith
    qed
  qed
  have "\<bar>of_int (round_even (\<bar>v\<bar> * 1000)) - of_int \<bar>m\<bar> :: rat\<bar> < 1"
    using round_even_err [of "\<bar>v\<bar> * 1000"] e by linarith
  then have "round_even (\<bar>v\<bar> * 1000) = \<bar>m\<bar>"
    by (simp flip: of_int_diff)
  then have "format_f3 (Fin v) = show_signed m"
    using sgn by (simp add: format_f3_def show_signed_def)
  then show thesis using that \<open>f_div (to_f64 (of_int m)) 1000 = Fin v\<close> by blast
qed

end
