(* ===== verification/Sample_Node.thy ===== *)
theory Sample_Node
  imports Sysfs
begin

text \<open>
  A file system given by a table, and a node of two sockets with it: the concrete input on
  which the hypotheses of the properties are shown to hold together.
\<close>

definition no_entry :: io_err where
  "no_entry = ''no such file or directory''"

definition table_lookup :: "(string \<times> 'a) list \<Rightarrow> string \<Rightarrow> io_err + 'a" where
  "table_lookup tab p = (case map_of tab p of None \<Rightarrow> Inl no_entry | Some a \<Rightarrow> Inr a)"

definition table_fs ::
    "(string \<times> string) list \<Rightarrow> (string \<times> string list) list \<Rightarrow> (string \<times> string) list \<Rightarrow> fs" where
  "table_fs files dirs links =
    \<lparr>fs_stat = (\<lambda>p. p \<in> set (map fst files)),
     fs_read = table_lookup files,
     fs_open = (\<lambda>p. case table_lookup files p of Inl e \<Rightarrow> Inl e | Inr b \<Rightarrow> Inr (b, None)),
     fs_dir = table_lookup dirs,
     fs_link = table_lookup links\<rparr>"

definition class_path :: string where
  "class_path = ''/sys/class/hwmon''"

definition config_path :: string where
  "config_path = ''/etc/stc/boards.conf''"

definition board_path :: string where
  "board_path = ''/sys/board_name''"

definition disable_path :: string where
  "disable_path = ''/etc/stc/disable''"

definition override_path :: string where
  "override_path = ''/run/stc/override''"

definition node_files :: "string \<Rightarrow> string \<Rightarrow> (string \<times> string) list" where
  "node_files t0 t1 =
    [(''/sys/class/hwmon/hwmon0/name'', ''k10temp'' @ [newline]),
     (''/sys/class/hwmon/hwmon0/temp1_input'', t0 @ [newline]),
     (''/sys/class/hwmon/hwmon0/temp1_label'', ''Tctl'' @ [newline]),
     (''/sys/class/hwmon/hwmon0/temp3_input'', ''41000'' @ [newline]),
     (''/sys/class/hwmon/hwmon0/temp3_label'', ''Tccd1'' @ [newline]),
     (''/sys/class/hwmon/hwmon1/name'', ''k10temp'' @ [newline]),
     (''/sys/class/hwmon/hwmon1/temp1_input'', t1 @ [newline]),
     (''/sys/class/hwmon/hwmon1/temp1_label'', ''Tctl'' @ [newline]),
     (board_path, ''H11DSi-NT'' @ [newline]),
     (config_path, ''[H11DSi-NT]'' @ [newline] @ ''chip = k10temp'' @ [newline]
        @ ''sensor = tctl'' @ [newline] @ ''max_celsius = 85'' @ [newline])]"

definition node :: "string \<Rightarrow> string \<Rightarrow> (string \<times> string) list \<Rightarrow> fs" where
  "node t0 t1 extra = table_fs (extra @ node_files t0 t1)
    [(class_path, [''hwmon0'', ''hwmon1'']),
     (''/sys/class/hwmon/hwmon0'',
      [''device'', ''name'', ''temp1_input'', ''temp1_label'', ''temp3_input'', ''temp3_label'']),
     (''/sys/class/hwmon/hwmon1'', [''device'', ''name'', ''temp1_input'', ''temp1_label''])]
    [(''/sys/class/hwmon/hwmon0/device'', ''/sys/devices/0000:00:18.3''),
     (''/sys/class/hwmon/hwmon1/device'', ''/sys/devices/0000:00:19.3''),
     (''/sys/devices/0000:00:18.3/subsystem'', ''/sys/bus/pci''),
     (''/sys/devices/0000:00:19.3/subsystem'', ''/sys/bus/pci'')]"

end
