(* ===== verification/Config.thy ===== *)
theory Config
  imports Sysfs Go_Float Sample_Node "HOL-Library.AList"
begin

text \<open>
  \<open>internal/config/config.go\<close>: the board table. The two Go maps of the parser are
  association lists with distinct keys; every early return with an error is a constructor of
  \<open>config_error\<close> with the values its message shows.
\<close>

section \<open>Data\<close>

text \<open>The plausible thresholds, in degrees Celsius.\<close>

definition min_threshold_celsius :: rat where
  "min_threshold_celsius = 20"

definition max_threshold_celsius :: rat where
  "max_threshold_celsius = 150"

record board =
  b_name :: string
  b_chip :: string
  b_sensor :: string
  b_max :: int
  b_line :: nat

type_synonym table = "(string \<times> board) list"

datatype threshold_error = MaxEmpty | MaxNotNumber string | MaxImplausible string

datatype config_error =
    UnterminatedHeader nat string
  | EmptyHeader nat
  | DuplicateBoard nat string nat
  | NotKeyValue nat string
  | BeforeSection nat string
  | SetTwice nat string string
  | EmptyChip nat string
  | BadThreshold nat string threshold_error
  | UnknownKey nat string string
  | LineTooLong
  | ScanFailed io_err
  | NoChip string nat
  | NoMaxCelsius string nat
  | NoBoards

datatype load_error = OpenFailed io_err | TableError string config_error

text \<open>\<open>cfg\<close>, \<open>seen\<close> and \<open>current\<close> of \<open>Parse\<close>.\<close>

record parser =
  p_boards :: table
  p_seen :: "(string \<times> string list) list"
  p_current :: string

section \<open>Operations\<close>

definition board_names :: "table \<Rightarrow> string list" where
  "board_names boards = sort (map fst boards)"

datatype lookup_error = NotInTable string "string list"

definition lookup :: "table \<Rightarrow> string \<Rightarrow> lookup_error + board" where
  "lookup boards name =
    (case map_of boards name of
       None \<Rightarrow> Inl (NotInTable name (board_names boards))
     | Some b \<Rightarrow> Inr b)"

definition parse_threshold :: "string \<Rightarrow> threshold_error + int" where
  "parse_threshold s =
    (if s = [] then Inl MaxEmpty
     else (case parse_float s of
         Inl _ \<Rightarrow> Inl (MaxNotNumber s)
       | Inr v \<Rightarrow>
           if v = NaN \<or> f_less v (Fin min_threshold_celsius) \<or> f_less (Fin max_threshold_celsius) v
           then Inl (MaxImplausible s)
           else Inr (to_int64 (math_round (f_mul v (Fin 1000))))))"

definition seen_keys :: "parser \<Rightarrow> string \<Rightarrow> string list" where
  "seen_keys st name = (case map_of (p_seen st) name of None \<Rightarrow> [] | Some ks \<Rightarrow> ks)"

definition board_at :: "parser \<Rightarrow> string \<Rightarrow> board" where
  "board_at st name = (case map_of (p_boards st) name of
     None \<Rightarrow> \<lparr>b_name = [], b_chip = [], b_sensor = [], b_max = 0, b_line = 0\<rparr>
   | Some b \<Rightarrow> b)"

text \<open>A section header, and a key with its value; the loop's body and the loop.\<close>

definition parse_header :: "nat \<Rightarrow> string \<Rightarrow> parser \<Rightarrow> config_error + parser" where
  "parse_header line_no line st =
    (if \<not> has_suffix line '']'' then Inl (UnterminatedHeader line_no line)
     else let name = trim_space (butlast (tl line)) in
       if name = [] then Inl (EmptyHeader line_no)
       else (case map_of (p_boards st) name of
           Some b \<Rightarrow> Inl (DuplicateBoard line_no name (b_line b))
         | None \<Rightarrow> Inr
             \<lparr>p_boards = AList.update name
                \<lparr>b_name = name, b_chip = [], b_sensor = [], b_max = 0, b_line = line_no\<rparr> (p_boards st),
              p_seen = AList.update name [] (p_seen st),
              p_current = name\<rparr>))"

definition parse_entry :: "nat \<Rightarrow> string \<Rightarrow> string \<Rightarrow> parser \<Rightarrow> config_error + parser" where
  "parse_entry line_no key val st =
    (let cur = p_current st in
     if cur = [] then Inl (BeforeSection line_no key)
     else if key \<in> set (seen_keys st cur) then Inl (SetTwice line_no key cur)
     else
       let st' = st\<lparr>p_seen := AList.update cur (key # seen_keys st cur) (p_seen st)\<rparr>;
           b = board_at st cur;
           store = (\<lambda>b'. Inr (st'\<lparr>p_boards := AList.update cur b' (p_boards st)\<rparr>)) in
       if key = ''chip'' then
         (if val = [] then Inl (EmptyChip line_no cur) else store (b\<lparr>b_chip := val\<rparr>))
       else if key = ''sensor'' then store (b\<lparr>b_sensor := val\<rparr>)
       else if key = ''max_celsius'' then
         (case parse_threshold val of
            Inl e \<Rightarrow> Inl (BadThreshold line_no cur e)
          | Inr m \<Rightarrow> store (b\<lparr>b_max := m\<rparr>))
       else Inl (UnknownKey line_no cur key))"

definition parse_line :: "nat \<Rightarrow> string \<Rightarrow> parser \<Rightarrow> config_error + parser" where
  "parse_line line_no txt st =
    (let line = trim_space txt in
     if line = [] \<or> has_prefix line ''#'' \<or> has_prefix line '';'' then Inr st
     else if has_prefix line ''['' then parse_header line_no line st
     else (case cut (CHR ''='') line of
         None \<Rightarrow> Inl (NotKeyValue line_no line)
       | Some (k, v) \<Rightarrow> parse_entry line_no (trim_space k) (trim_space v) st))"

fun parse_lines :: "nat \<Rightarrow> string list \<Rightarrow> parser \<Rightarrow> config_error + parser" where
  "parse_lines line_no [] st = Inr st"
| "parse_lines line_no (l # ls) st =
    and_then (parse_line (line_no + 1) l st) (parse_lines (line_no + 1) ls)"

fun check_boards :: "string list \<Rightarrow> parser \<Rightarrow> config_error + unit" where
  "check_boards [] st = Inr ()"
| "check_boards (name # names) st =
    (let b = board_at st name in
     if b_chip b = [] then Inl (NoChip name (b_line b))
     else if ''max_celsius'' \<notin> set (seen_keys st name) then Inl (NoMaxCelsius name (b_line b))
     else check_boards names st)"

text \<open>
  \<open>Parse\<close> on the bytes its reader delivers and the error that ended them, if any. The
  scanner gives up on a line that does not fit its buffer before it sees that error.
\<close>

definition parse_table :: "string \<Rightarrow> io_err option \<Rightarrow> config_error + table" where
  "parse_table txt read_err =
    and_then (parse_lines 0 (scan_lines txt) \<lparr>p_boards = [], p_seen = [], p_current = []\<rparr>) (\<lambda>st.
      if scan_too_long txt then Inl LineTooLong
      else (case read_err of
          Some e \<Rightarrow> Inl (ScanFailed e)
        | None \<Rightarrow>
            and_then (check_boards (board_names (p_boards st)) st) (\<lambda>_.
              if p_boards st = [] then Inl NoBoards else Inr (p_boards st))))"

definition load :: "string \<Rightarrow> world \<Rightarrow> (load_error + table) io" where
  "load path w =
    try_io (wrap_io OpenFailed (os_open_read path w)) (\<lambda>(txt, read_err).
      State_Monad.return (wrap_err (TableError path) (parse_table txt read_err)))"

lemma os_op_load [intro]: "os_op (load path)"
  unfolding load_def split_def by (intro os_op_try os_op_wrap os_op_return os_op_os_calls)

interpretation load_op: os_op "load path" for path
  by (rule os_op_load)

lemma snap_load:
  "snap (load path) st =
    (case fs_open st path of
       Inl e \<Rightarrow> Inl (OpenFailed e)
     | Inr (txt, read_err) \<Rightarrow> wrap_err (TableError path) (parse_table txt read_err))"
  unfolding load_def
  by (simp add: snap_try snap_wrap os_op_wrap os_op_os_calls os_op_return split_def split: sum.split)

section \<open>Thresholds\<close>

lemma parse_threshold_range:
  assumes "parse_threshold s = Inr m"
  shows "20000 \<le> m \<and> m \<le> 150000"
proof -
  obtain v where v: "v \<noteq> NaN" "\<not> f_less v (Fin 20)" "\<not> f_less (Fin 150) v"
    and m: "m = to_int64 (math_round (f_mul v (Fin 1000)))"
    using assms
    by (auto simp: parse_threshold_def min_threshold_celsius_def max_threshold_celsius_def
        split: if_splits sum.splits)
  then obtain x where x: "v = Fin x" "20 \<le> x" "x \<le> 150"
    by (cases v) (auto simp: f_less_def)
  note m = m [unfolded x(1)]
  have "\<bar>x * 1000\<bar> < 2 powi 18" using x by (simp add: abs_mult)
  then obtain w where w: "to_f64 (x * 1000) = Fin w" by (rule to_f64_Fin) simp_all
  have "to_f64 20000 = Fin 20000" "to_f64 150000 = Fin 150000"
    using to_f64_int [of 20000] to_f64_int [of 150000] by simp_all
  then have b: "20000 \<le> w" "w \<le> 150000"
    using to_f64_mono [of 20000 20000 "x * 1000" w] to_f64_mono [of "x * 1000" w 150000 150000] w x
    by simp_all
  then have "20000 \<le> \<lfloor>w + 1 / 2\<rfloor>" "\<lfloor>w + 1 / 2\<rfloor> \<le> 150000" by linarith+
  moreover have "m = \<lfloor>w + 1 / 2\<rfloor>"
  proof -
    have "math_round (f_mul (Fin x) (Fin 1000)) = Fin (of_int \<lfloor>w + 1 / 2\<rfloor>)"
      using w b by (simp add: f_mul_def math_round_def round_half_away_def)
    then show ?thesis
      using m calculation b by (simp add: to_int64_def trunc_def in_i64_def)
  qed
  ultimately show ?thesis by simp
qed

lemma parse_threshold_exact:
  assumes "20000 \<le> m" "m \<le> 150000"
  shows "parse_threshold (show_signed m) = Inr m"
proof -
  have "\<bar>m\<bar> < 2 ^ 24" using assms by simp
  then obtain v w where v: "to_f64 (of_int m / 1000) = Fin v" and w: "to_f64 (v * 1000) = Fin w"
    and r: "round_half_away w = m" by (rule milli_exact)
  have "to_f64 20 = Fin 20" "to_f64 150 = Fin 150"
    using to_f64_int [of 20] to_f64_int [of 150] by simp_all
  moreover have "(20::rat) \<le> of_int m / 1000" "of_int m / 1000 \<le> (150::rat)"
    using assms by simp_all
  ultimately have "20 \<le> v" "v \<le> 150"
    using to_f64_mono [of 20 20 _ v] to_f64_mono [of _ v 150 150] v by blast+
  moreover have "to_int64 (math_round (Fin w)) = m"
    using assms by (simp add: math_round_def to_int64_def r trunc_def in_i64_def)
  ultimately show ?thesis
    using parse_float_show_signed [OF v] show_signed_parts(2) w
    by (simp add: parse_threshold_def f_less_def f_mul_def min_threshold_celsius_def
        max_threshold_celsius_def)
qed

section \<open>What the table means\<close>

text \<open>
  The specification of the format, without a parser's state: every line is blank, a header, an
  entry or junk; a section is a header with the entries up to the next header.
\<close>

datatype item = Blank | Header string | Entry string string | Junk

definition classify :: "string \<Rightarrow> item" where
  "classify txt =
    (let line = trim_space txt in
     if line = [] \<or> has_prefix line ''#'' \<or> has_prefix line '';'' then Blank
     else if has_prefix line ''['' then
       (if has_suffix line '']'' then Header (trim_space (butlast (tl line))) else Junk)
     else (case cut (CHR ''='') line of
         None \<Rightarrow> Junk | Some (k, v) \<Rightarrow> Entry (trim_space k) (trim_space v)))"

type_synonym section_text = "string \<times> nat \<times> (string \<times> string) list"

fun entries :: "(nat \<times> item) list \<Rightarrow> (string \<times> string) list" where
  "entries [] = []"
| "entries ((n, Header h) # is) = []"
| "entries ((n, Entry k v) # is) = (k, v) # entries is"
| "entries ((n, Blank) # is) = entries is"
| "entries ((n, Junk) # is) = entries is"

fun sections :: "(nat \<times> item) list \<Rightarrow> section_text list" where
  "sections [] = []"
| "sections ((n, Header h) # is) = (h, n, entries is) # sections is"
| "sections ((n, Entry k v) # is) = sections is"
| "sections ((n, Blank) # is) = sections is"
| "sections ((n, Junk) # is) = sections is"

definition items_of :: "string list \<Rightarrow> (nat \<times> item) list" where
  "items_of ls = enumerate 1 (map classify ls)"

definition threshold_of :: "string \<Rightarrow> int" where
  "threshold_of v = (case parse_threshold v of Inl _ \<Rightarrow> 0 | Inr m \<Rightarrow> m)"

definition board_of :: "section_text \<Rightarrow> board" where
  "board_of s = (case s of (name, line, kvs) \<Rightarrow>
     \<lparr>b_name = name,
      b_chip = (case map_of kvs ''chip'' of None \<Rightarrow> [] | Some v \<Rightarrow> v),
      b_sensor = (case map_of kvs ''sensor'' of None \<Rightarrow> [] | Some v \<Rightarrow> v),
      b_max = (case map_of kvs ''max_celsius'' of None \<Rightarrow> 0 | Some v \<Rightarrow> threshold_of v),
      b_line = line\<rparr>)"

definition plain_entries :: "(string \<times> string) list \<Rightarrow> bool" where
  "plain_entries kvs \<longleftrightarrow> distinct (map fst kvs) \<and>
    (\<forall>(k, v) \<in> set kvs. k \<in> {''chip'', ''sensor'', ''max_celsius''}
      \<and> (k = ''chip'' \<longrightarrow> v \<noteq> []) \<and> (k = ''max_celsius'' \<longrightarrow> (\<exists>m. parse_threshold v = Inr m)))"

definition complete_entries :: "(string \<times> string) list \<Rightarrow> bool" where
  "complete_entries kvs \<longleftrightarrow> ''chip'' \<in> fst ` set kvs \<and> ''max_celsius'' \<in> fst ` set kvs"

definition plain_sections :: "section_text list \<Rightarrow> bool" where
  "plain_sections ss \<longleftrightarrow> distinct (map fst ss) \<and>
    (\<forall>(name, line, kvs) \<in> set ss. name \<noteq> [] \<and> plain_entries kvs)"

section \<open>The parser implements it\<close>

text \<open>The parser's state after some sections, the last of them still open.\<close>

definition parser_of :: "section_text list \<Rightarrow> parser" where
  "parser_of ss =
    \<lparr>p_boards = map (\<lambda>s. (fst s, board_of s)) ss,
     p_seen = map (\<lambda>(name, line, kvs). (name, rev (map fst kvs))) ss,
     p_current = (if ss = [] then [] else fst (last ss))\<rparr>"

definition add_entries :: "section_text list \<Rightarrow> (string \<times> string) list \<Rightarrow> section_text list" where
  "add_entries ss es = (if ss = [] then [] else
     butlast ss @ [(fst (last ss), fst (snd (last ss)), snd (snd (last ss)) @ es)])"

lemma update_new: "k \<notin> fst ` set al \<Longrightarrow> AList.update k v al = al @ [(k, v)]"
  by (induction al) auto

lemma update_end: "k \<notin> fst ` set al \<Longrightarrow> AList.update k v (al @ [(k, u)]) = al @ [(k, v)]"
  by (induction al) auto

lemma map_of_new: "k \<notin> fst ` set al \<Longrightarrow> map_of (al @ ys) k = map_of ys k"
  by (induction al) auto

lemma parser_of_snoc:
  "p_boards (parser_of (ss @ [(name, line, kvs)]))
    = p_boards (parser_of ss) @ [(name, board_of (name, line, kvs))]"
  "p_seen (parser_of (ss @ [(name, line, kvs)]))
    = p_seen (parser_of ss) @ [(name, rev (map fst kvs))]"
  "p_current (parser_of (ss @ [(name, line, kvs)])) = name"
  by (simp_all add: parser_of_def)

lemma parser_of_names:
  "fst ` set (p_boards (parser_of ss)) = fst ` set ss"
  "fst ` set (p_seen (parser_of ss)) = fst ` set ss"
  by (force simp: parser_of_def)+

lemma parser_of_header:
  assumes "h \<notin> fst ` set ss"
  shows "parser_of (ss @ [(h, n, [])]) =
    \<lparr>p_boards = AList.update h
       \<lparr>b_name = h, b_chip = [], b_sensor = [], b_max = 0, b_line = n\<rparr> (p_boards (parser_of ss)),
     p_seen = AList.update h [] (p_seen (parser_of ss)), p_current = h\<rparr>"
  using assms by (simp add: update_new parser_of_names) (simp add: parser_of_def board_of_def)

lemma plain_sections_snoc:
  "plain_sections (ss @ [(name, line, kvs)]) \<longleftrightarrow>
    plain_sections ss \<and> name \<notin> fst ` set ss \<and> name \<noteq> [] \<and> plain_entries kvs"
  by (auto simp: plain_sections_def)

lemma plain_entries_snoc:
  "plain_entries (kvs @ [(k, v)]) \<longleftrightarrow> plain_entries kvs \<and> k \<notin> fst ` set kvs
    \<and> k \<in> {''chip'', ''sensor'', ''max_celsius''} \<and> (k = ''chip'' \<longrightarrow> v \<noteq> [])
    \<and> (k = ''max_celsius'' \<longrightarrow> (\<exists>m. parse_threshold v = Inr m))"
  by (auto simp: plain_entries_def)

lemma parser_of_lookups:
  assumes "name \<notin> fst ` set ss"
  shows "board_at (parser_of (ss @ [(name, line, kvs)])) name = board_of (name, line, kvs)"
    "seen_keys (parser_of (ss @ [(name, line, kvs)])) name = rev (map fst kvs)"
proof -
  have "name \<notin> fst ` set (map (\<lambda>s. (fst s, board_of s)) ss)"
    "name \<notin> fst ` set (map (\<lambda>(name, line, kvs). (name, rev (map fst kvs))) ss)"
    using assms by force+
  note n = map_of_new [OF this(1)] map_of_new [OF this(2)]
  show "board_at (parser_of (ss @ [(name, line, kvs)])) name = board_of (name, line, kvs)"
    "seen_keys (parser_of (ss @ [(name, line, kvs)])) name = rev (map fst kvs)"
    unfolding board_at_def seen_keys_def parser_of_def by (simp_all add: n del: map_of_append)
qed

lemma parser_of_update:
  assumes "name \<notin> fst ` set ss"
  shows "AList.update name b (p_boards (parser_of (ss @ [(name, line, kvs)])))
      = p_boards (parser_of ss) @ [(name, b)]"
    "AList.update name ks (p_seen (parser_of (ss @ [(name, line, kvs)])))
      = p_seen (parser_of ss) @ [(name, ks)]"
  unfolding parser_of_snoc using assms by (simp_all add: update_end parser_of_names)

lemma parse_entry_step:
  assumes new: "name \<notin> fst ` set ss" "name \<noteq> []" and pl: "plain_entries kvs"
  shows "parse_entry n k v (parser_of (ss @ [(name, line, kvs)])) = Inr st \<longleftrightarrow>
    plain_entries (kvs @ [(k, v)]) \<and> st = parser_of (ss @ [(name, line, kvs @ [(k, v)])])"
proof -
  let ?st = "parser_of (ss @ [(name, line, kvs)])"
  have cur: "p_current ?st = name" by (simp add: parser_of_def)
  have after: "parser_of (ss @ [(name, line, kvs @ [(k, v)])])
      = ?st\<lparr>p_seen := p_seen (parser_of ss) @ [(name, k # rev (map fst kvs))],
            p_boards := p_boards (parser_of ss) @ [(name, board_of (name, line, kvs @ [(k, v)]))]\<rparr>"
    by (simp add: parser_of_def)
  have key: "k \<in> set (rev (map fst kvs)) \<longleftrightarrow> k \<in> fst ` set kvs" by simp
  show ?thesis
  proof (cases "k \<in> fst ` set kvs")
    case True
    then show ?thesis
      by (simp add: parse_entry_def cur Let_def parser_of_lookups [OF new(1)] new(2) plain_entries_snoc)
  next
    case False
    then have m: "map_of (kvs @ [(k, v)]) q = (if q = k then Some v else map_of kvs q)" for q
      by (induction kvs) auto
    have b: "board_of (name, line, kvs @ [(k, v)]) =
        (if k = ''chip'' then (board_of (name, line, kvs))\<lparr>b_chip := v\<rparr>
         else if k = ''sensor'' then (board_of (name, line, kvs))\<lparr>b_sensor := v\<rparr>
         else if k = ''max_celsius'' then (board_of (name, line, kvs))\<lparr>b_max := threshold_of v\<rparr>
         else board_of (name, line, kvs))"
      by (simp add: board_of_def m del: map_of_append)
    have run: "parse_entry n k v ?st =
        (let store = (\<lambda>b'. Inr (?st\<lparr>p_seen := p_seen (parser_of ss) @ [(name, k # rev (map fst kvs))],
                p_boards := p_boards (parser_of ss) @ [(name, b')]\<rparr>)) in
         if k = ''chip'' then
           (if v = [] then Inl (EmptyChip n name) else store ((board_of (name, line, kvs))\<lparr>b_chip := v\<rparr>))
         else if k = ''sensor'' then store ((board_of (name, line, kvs))\<lparr>b_sensor := v\<rparr>)
         else if k = ''max_celsius'' then
           (case parse_threshold v of
              Inl e \<Rightarrow> Inl (BadThreshold n name e)
            | Inr m \<Rightarrow> store ((board_of (name, line, kvs))\<lparr>b_max := m\<rparr>))
         else Inl (UnknownKey n name k))"
      using False new(2)
      by (simp add: parse_entry_def Let_def cur parser_of_lookups [OF new(1)]
          parser_of_update [OF new(1)])
    have plain: "plain_entries (kvs @ [(k, v)]) \<longleftrightarrow> k \<in> {''chip'', ''sensor'', ''max_celsius''}
        \<and> (k = ''chip'' \<longrightarrow> v \<noteq> []) \<and> (k = ''max_celsius'' \<longrightarrow> (\<exists>m. parse_threshold v = Inr m))"
      unfolding plain_entries_snoc using pl False by (simp only: simp_thms)
    consider "k = ''chip''" | "k = ''sensor''" | "k = ''max_celsius''"
      | "k \<notin> {''chip'', ''sensor'', ''max_celsius''}" by (simp only: insert_iff empty_iff) metis
    then show ?thesis
    proof cases
      case 3
      then show ?thesis
        unfolding run after b plain Let_def by (cases "parse_threshold v") (auto simp: threshold_of_def)
    qed (unfold run after b plain Let_def, auto)
  qed
qed

text \<open>Sections that grow by the items of further lines.\<close>

definition grow :: "section_text list \<Rightarrow> (nat \<times> item) list \<Rightarrow> section_text list" where
  "grow ss items = (if ss = [] then [] else
     butlast ss @ [(fst (last ss), fst (snd (last ss)), snd (snd (last ss)) @ entries items)])
     @ sections items"

definition no_orphans :: "section_text list \<Rightarrow> (nat \<times> item) list \<Rightarrow> bool" where
  "no_orphans ss items \<longleftrightarrow> (ss = [] \<longrightarrow> entries items = []) \<and> Junk \<notin> snd ` set items"

lemma grow_Nil [simp]: "grow ss [] = ss"
  by (simp add: grow_def)

lemma grow_Blank [simp]: "grow ss ((n, Blank) # is) = grow ss is"
  by (simp add: grow_def)

lemma grow_Header [simp]: "grow ss ((n, Header h) # is) = grow (ss @ [(h, n, [])]) is"
  by (simp add: grow_def)

lemma grow_Entry [simp]:
  "grow (ss @ [(name, line, kvs)]) ((n, Entry k v) # is) = grow (ss @ [(name, line, kvs @ [(k, v)])]) is"
  by (simp add: grow_def)

lemma plain_entries_append: "plain_entries (kvs @ es) \<Longrightarrow> plain_entries kvs"
  by (auto simp: plain_entries_def)

lemma plain_sections_append: "plain_sections (ss @ rest) \<Longrightarrow> plain_sections ss"
  by (auto simp: plain_sections_def)

lemma plain_sections_grow:
  assumes "plain_sections (grow ss items)"
  shows "plain_sections ss"
proof (cases ss rule: rev_cases)
  case Nil
  then show ?thesis by (simp add: plain_sections_def)
next
  case (snoc ss0 s)
  obtain name line kvs where s: "s = (name, line, kvs)" by (cases s)
  have "plain_sections (ss0 @ [(name, line, kvs @ entries items)])"
    using assms plain_sections_append unfolding snoc s grow_def by fastforce
  then show ?thesis unfolding snoc s plain_sections_snoc using plain_entries_append by blast
qed

lemma parse_line_step:
  assumes pl: "plain_sections ss"
  shows "parse_line n txt (parser_of ss) = Inr st \<longleftrightarrow>
    no_orphans ss [(n, classify txt)] \<and> plain_sections (grow ss [(n, classify txt)])
      \<and> st = parser_of (grow ss [(n, classify txt)])"
proof -
  let ?line = "trim_space txt"
  consider (blank) "classify txt = Blank" "?line = [] \<or> has_prefix ?line ''#'' \<or> has_prefix ?line '';''"
    | (header) h where "classify txt = Header h" "h = trim_space (butlast (tl ?line))"
        "parse_line n txt (parser_of ss) = parse_header n ?line (parser_of ss)" "has_suffix ?line '']''"
    | (entry) k v where "classify txt = Entry k v"
        "parse_line n txt (parser_of ss) = parse_entry n k v (parser_of ss)"
    | (junk) e where "classify txt = Junk" "parse_line n txt (parser_of ss) = Inl e"
  proof -
    let ?b = "?line = [] \<or> has_prefix ?line ''#'' \<or> has_prefix ?line '';''"
    let ?h = "has_prefix ?line ''[''" and ?s = "has_suffix ?line '']''"
    consider "?b" | "\<not> ?b" "?h" "?s" | "\<not> ?b" "?h" "\<not> ?s" | "\<not> ?b" "\<not> ?h" by blast
    then show thesis
    proof cases
      case 1
      then have "classify txt = Blank" by (simp add: classify_def Let_def)
      then show thesis using blank 1 by blast
    next
      case 2
      then have "classify txt = Header (trim_space (butlast (tl ?line)))"
        "parse_line n txt (parser_of ss) = parse_header n ?line (parser_of ss)"
        by (simp_all add: classify_def parse_line_def Let_def)
      then show thesis using header 2 by blast
    next
      case 3
      then have "classify txt = Junk"
        "parse_line n txt (parser_of ss) = Inl (UnterminatedHeader n ?line)"
        by (simp_all add: classify_def parse_line_def parse_header_def Let_def)
      then show thesis by (rule junk)
    next
      case 4
      show thesis
      proof (cases "cut (CHR ''='') ?line")
        case None
        then have "classify txt = Junk" "parse_line n txt (parser_of ss) = Inl (NotKeyValue n ?line)"
          using 4 by (simp_all add: classify_def parse_line_def Let_def)
        then show thesis by (rule junk)
      next
        case (Some kv)
        then have "classify txt = Entry (trim_space (fst kv)) (trim_space (snd kv))"
          "parse_line n txt (parser_of ss)
            = parse_entry n (trim_space (fst kv)) (trim_space (snd kv)) (parser_of ss)"
          using 4 by (simp_all add: classify_def parse_line_def Let_def split: prod.split)
        then show thesis by (rule entry)
      qed
    qed
  qed
  then show ?thesis
  proof cases
    case blank
    then have "parse_line n txt (parser_of ss) = Inr (parser_of ss)"
      by (auto simp: parse_line_def Let_def)
    then show ?thesis using pl blank(1) by (auto simp: no_orphans_def)
  next
    case header
    have m: "map_of (p_boards (parser_of ss)) h = None \<longleftrightarrow> h \<notin> fst ` set ss"
      by (simp add: map_of_eq_None_iff parser_of_names)
    show ?thesis
    proof (cases "h \<noteq> [] \<and> h \<notin> fst ` set ss")
      case True
      then have "parse_line n txt (parser_of ss) = Inr (parser_of (ss @ [(h, n, [])]))"
        using header m by (simp add: parse_header_def parser_of_header Let_def)
      moreover have "plain_sections (ss @ [(h, n, [])])"
        using True pl by (simp add: plain_sections_snoc plain_entries_def)
      ultimately show ?thesis using header(1) by (auto simp: no_orphans_def)
    next
      case False
      then have "\<exists>e. parse_line n txt (parser_of ss) = Inl e"
        using header m by (auto simp: parse_header_def Let_def split: option.split)
      moreover have "\<not> plain_sections (ss @ [(h, n, [])])"
        using False by (auto simp: plain_sections_snoc)
      ultimately show ?thesis using header(1) by auto
    qed
  next
    case entry
    show ?thesis
    proof (cases ss rule: rev_cases)
      case Nil
      then show ?thesis using entry
        by (simp add: no_orphans_def parse_entry_def parser_of_def)
    next
      case (snoc ss0 s)
      obtain name line kvs where s: "s = (name, line, kvs)" by (cases s)
      have p: "plain_sections ss0" "name \<notin> fst ` set ss0" "name \<noteq> []" "plain_entries kvs"
        using pl unfolding snoc s plain_sections_snoc by auto
      have "grow ss [(n, Entry k v)] = ss0 @ [(name, line, kvs @ [(k, v)])]"
        unfolding snoc s by simp
      then show ?thesis
        using parse_entry_step [OF p(2-4), of n k v line st] p
        unfolding entry unfolding snoc s by (auto simp: no_orphans_def plain_sections_snoc)
    qed
  next
    case junk
    then show ?thesis by (simp add: no_orphans_def)
  qed
qed

lemma grow_Cons: "no_orphans ss [i] \<Longrightarrow> grow ss (i # is) = grow (grow ss [i]) is"
proof (cases i; cases "snd i")
  fix n it k v assume i: "no_orphans ss [i]" "i = (n, it)" "snd i = Entry k v"
  then obtain ss0 s where "ss = ss0 @ [s]" by (cases ss rule: rev_cases) (auto simp: no_orphans_def)
  then show ?thesis using i by (cases s) simp
qed (simp_all add: no_orphans_def)

lemma no_orphans_Cons:
  "no_orphans ss (i # is) \<longleftrightarrow> no_orphans ss [i] \<and> no_orphans (grow ss [i]) is"
proof -
  have "grow ss [i] = [] \<longleftrightarrow> ss = [] \<and> sections [i] = []" by (simp add: grow_def)
  then show ?thesis by (cases i; cases "snd i") (auto simp: no_orphans_def)
qed

lemma parse_lines_step:
  assumes "plain_sections ss"
  shows "parse_lines n ls (parser_of ss) = Inr st \<longleftrightarrow>
    (let items = enumerate (n + 1) (map classify ls) in
     no_orphans ss items \<and> plain_sections (grow ss items) \<and> st = parser_of (grow ss items))"
  using assms
proof (induction ls arbitrary: n ss)
  case Nil
  then show ?case by (auto simp: no_orphans_def)
next
  case (Cons l ls)
  let ?i = "(n + 1, classify l)" and ?is = "enumerate (n + 2) (map classify ls)"
  have "parse_lines n (l # ls) (parser_of ss) = Inr st \<longleftrightarrow>
      no_orphans ss [?i] \<and> plain_sections (grow ss [?i])
      \<and> parse_lines (n + 1) ls (parser_of (grow ss [?i])) = Inr st"
    using parse_line_step [OF Cons.prems, of "n + 1" l] by (auto simp: and_then_Inr)
  also have "\<dots> \<longleftrightarrow> no_orphans ss [?i] \<and> no_orphans (grow ss [?i]) ?is
      \<and> plain_sections (grow (grow ss [?i]) ?is) \<and> st = parser_of (grow (grow ss [?i]) ?is)"
    using Cons.IH [of "grow ss [?i]" "n + 1"] plain_sections_grow by (auto simp: Let_def)
  also have "\<dots> \<longleftrightarrow> no_orphans ss (?i # ?is) \<and> plain_sections (grow ss (?i # ?is))
      \<and> st = parser_of (grow ss (?i # ?is))"
    using grow_Cons [of ss ?i ?is] no_orphans_Cons [of ss ?i ?is] by auto
  finally show ?case by (simp add: Let_def)
qed

lemma check_boards_iff:
  "check_boards names st = Inr () \<longleftrightarrow>
    (\<forall>name \<in> set names. b_chip (board_at st name) \<noteq> [] \<and> ''max_celsius'' \<in> set (seen_keys st name))"
  by (induction names) (auto simp: Let_def)

lemma check_boards_parser_of:
  assumes "plain_sections ss"
  shows "check_boards (board_names (p_boards (parser_of ss))) (parser_of ss) = Inr () \<longleftrightarrow>
    (\<forall>(name, line, kvs) \<in> set ss. complete_entries kvs)"
proof -
  have at: "board_at (parser_of ss) name = board_of (name, line, kvs)
      \<and> seen_keys (parser_of ss) name = rev (map fst kvs)" if "(name, line, kvs) \<in> set ss" for name line kvs
  proof -
    have d: "distinct (map fst ss)" using assms by (simp add: plain_sections_def)
    have "map_of (p_boards (parser_of ss)) name = Some (board_of (name, line, kvs))"
      using that d by (intro map_of_is_SomeI) (force simp: parser_of_def comp_def)+
    moreover have "map_of (p_seen (parser_of ss)) name = Some (rev (map fst kvs))"
      using that d by (intro map_of_is_SomeI) (force simp: parser_of_def comp_def split_def)+
    ultimately show ?thesis by (simp add: board_at_def seen_keys_def)
  qed
  have chip: "b_chip (board_of (name, line, kvs)) \<noteq> [] \<longleftrightarrow> ''chip'' \<in> fst ` set kvs"
    if "(name, line, kvs) \<in> set ss" for name line kvs
  proof (cases "map_of kvs ''chip''")
    case None
    then have "''chip'' \<notin> fst ` set kvs" by (simp only: map_of_eq_None_iff not_False_eq_True)
    then show ?thesis using None by (simp add: board_of_def)
  next
    case (Some v)
    then have "(''chip'', v) \<in> set kvs" by (rule map_of_SomeD)
    moreover have "plain_entries kvs" using assms that by (auto simp: plain_sections_def)
    ultimately have "v \<noteq> []" by (auto simp: plain_entries_def)
    moreover have "''chip'' \<in> fst ` set kvs"
      using \<open>(''chip'', v) \<in> set kvs\<close> by (metis fst_conv image_eqI)
    ultimately show ?thesis using Some by (simp add: board_of_def)
  qed
  have names: "set (board_names (p_boards (parser_of ss))) = fst ` set ss"
    by (simp add: board_names_def parser_of_names)
  have "b_chip (board_at (parser_of ss) (fst s)) \<noteq> []
        \<and> ''max_celsius'' \<in> set (seen_keys (parser_of ss) (fst s))
      \<longleftrightarrow> (case s of (name, line, kvs) \<Rightarrow> complete_entries kvs)" if s: "s \<in> set ss" for s
  proof -
    obtain name line kvs where "s = (name, line, kvs)" by (cases s)
    then show ?thesis using at [of name line kvs] chip [of name line kvs] s
      by (simp add: complete_entries_def)
  qed
  then show ?thesis unfolding check_boards_iff names by (simp cong: ball_cong)
qed

lemma parse_table_iff:
  "parse_table txt None = Inr tab \<longleftrightarrow> \<not> scan_too_long txt \<and>
    (let items = items_of (scan_lines txt) in
     entries items = [] \<and> Junk \<notin> snd ` set items \<and> sections items \<noteq> []
     \<and> plain_sections (sections items) \<and> (\<forall>(name, line, kvs) \<in> set (sections items). complete_entries kvs)
     \<and> tab = map (\<lambda>s. (fst s, board_of s)) (sections items))"
proof -
  let ?items = "items_of (scan_lines txt)"
  have init: "parser_of [] = \<lparr>p_boards = [], p_seen = [], p_current = []\<rparr>"
    by (simp add: parser_of_def)
  have step: "parse_lines 0 (scan_lines txt) (parser_of []) = Inr st \<longleftrightarrow>
      no_orphans [] ?items \<and> plain_sections (sections ?items) \<and> st = parser_of (sections ?items)" for st
    using parse_lines_step [of "[]" 0 "scan_lines txt" st]
    by (simp add: plain_sections_def [of "[]"] items_of_def grow_def Let_def)
  have boards: "p_boards (parser_of ss) = map (\<lambda>s. (fst s, board_of s)) ss" for ss
    by (simp add: parser_of_def)
  have "parse_table txt None = Inr tab \<longleftrightarrow>
      (\<exists>st. parse_lines 0 (scan_lines txt) (parser_of []) = Inr st \<and> \<not> scan_too_long txt
        \<and> check_boards (board_names (p_boards st)) st = Inr () \<and> p_boards st \<noteq> [] \<and> tab = p_boards st)"
    unfolding parse_table_def init [symmetric] by (auto simp: and_then_Inr split: if_splits)
  also have "\<dots> \<longleftrightarrow> no_orphans [] ?items \<and> plain_sections (sections ?items) \<and> \<not> scan_too_long txt
      \<and> check_boards (board_names (p_boards (parser_of (sections ?items)))) (parser_of (sections ?items)) = Inr ()
      \<and> sections ?items \<noteq> [] \<and> tab = map (\<lambda>s. (fst s, board_of s)) (sections ?items)"
    unfolding step by (auto simp: boards)
  finally show ?thesis
    using check_boards_parser_of [of "sections ?items"] by (auto simp: no_orphans_def Let_def)
qed

section \<open>What an accepted table holds\<close>

definition sound_board :: "string \<Rightarrow> board \<Rightarrow> bool" where
  "sound_board name b \<longleftrightarrow> b_name b = name \<and> name \<noteq> [] \<and> trimmed name \<and> b_chip b \<noteq> []
    \<and> 20000 \<le> b_max b \<and> b_max b \<le> 150000"

lemma sections_headers:
  "(name, line, kvs) \<in> set (sections items) \<Longrightarrow> (line, Header name) \<in> set items"
  by (induction items rule: sections.induct) auto

lemma classify_header: "classify txt = Header h \<Longrightarrow> trimmed h"
  by (auto simp: classify_def Let_def split: if_splits option.splits prod.splits)

lemma plain_entriesD:
  assumes "plain_entries kvs" "(k, v) \<in> set kvs"
  shows "map_of kvs k = Some v" "k = ''chip'' \<Longrightarrow> v \<noteq> []"
    "k = ''max_celsius'' \<Longrightarrow> \<exists>m. parse_threshold v = Inr m"
proof -
  have d: "distinct (map fst kvs)" using assms(1) unfolding plain_entries_def by (rule conjunct1)
  have p: "case (k, v) of (k, v) \<Rightarrow> k \<in> {''chip'', ''sensor'', ''max_celsius''}
      \<and> (k = ''chip'' \<longrightarrow> v \<noteq> []) \<and> (k = ''max_celsius'' \<longrightarrow> (\<exists>m. parse_threshold v = Inr m))"
    using assms(1) unfolding plain_entries_def by (rule bspec [OF conjunct2 assms(2)])
  show "map_of kvs k = Some v" using d assms(2) by simp
  show "k = ''chip'' \<Longrightarrow> v \<noteq> []" "k = ''max_celsius'' \<Longrightarrow> \<exists>m. parse_threshold v = Inr m"
    using p by simp_all
qed

lemma board_of_sound:
  assumes "plain_entries kvs" "complete_entries kvs" "name \<noteq> []" "trimmed name"
  shows "sound_board name (board_of (name, line, kvs))"
proof -
  obtain c v where c: "(''chip'', c) \<in> set kvs" and v: "(''max_celsius'', v) \<in> set kvs"
    using assms(2) by (auto simp: complete_entries_def)
  note c = plain_entriesD(1,2) [OF assms(1) c] and v = plain_entriesD(1,3) [OF assms(1) v]
  then obtain m where m: "parse_threshold v = Inr m" by auto
  show ?thesis
    using c v m parse_threshold_range [OF m] assms(3,4)
    by (simp add: sound_board_def board_of_def threshold_of_def)
qed

lemma parse_table_no_error: "parse_table txt read_err = Inr tab \<Longrightarrow> parse_table txt None = Inr tab"
  unfolding parse_table_def and_then_Inr by (cases read_err) (auto split: if_split_asm)

lemma parse_table_sound:
  assumes "parse_table txt read_err = Inr tab"
  shows "tab \<noteq> [] \<and> distinct (map fst tab) \<and> (\<forall>(name, b) \<in> set tab. sound_board name b)"
proof -
  define items where items0: "items = items_of (scan_lines txt)"
  have items: "sections items \<noteq> []"
    "plain_sections (sections items)" "\<forall>(name, line, kvs) \<in> set (sections items). complete_entries kvs"
    and tab: "tab = map (\<lambda>s. (fst s, board_of s)) (sections items)"
    using parse_table_no_error [OF assms, unfolded parse_table_iff Let_def] items0
    unfolding items0 by - (elim conjE, assumption)+
  have "sound_board (fst s) (board_of s)" if s: "s \<in> set (sections items)" for s
  proof -
    obtain name line kvs where e: "s = (name, line, kvs)" by (cases s)
    have "(line, Header name) \<in> set items" using sections_headers s e by blast
    then have "Header name \<in> set (map classify (scan_lines txt))"
      unfolding items0 items_of_def by (metis image_eqI list.set_map map_snd_enumerate snd_conv)
    then have "\<exists>l. classify l = Header name" unfolding set_map by (elim imageE) metis
    then have "trimmed name" using classify_header by blast
    moreover have "name \<noteq> []" "plain_entries kvs" "complete_entries kvs"
      using items(2,3) s e unfolding plain_sections_def by fastforce+
    ultimately show ?thesis using board_of_sound e by simp
  qed
  moreover have "distinct (map fst tab)" using items(2) tab by (simp add: plain_sections_def comp_def)
  ultimately show ?thesis using tab items(1) by auto
qed

section \<open>Writing a table\<close>

definition print_board :: "board \<Rightarrow> string list" where
  "print_board b =
    [''['' @ b_name b @ '']'', ''chip'' @ '' = '' @ b_chip b]
    @ (if b_sensor b = [] then [] else [''sensor'' @ '' = '' @ b_sensor b])
    @ [''max_celsius'' @ '' = '' @ show_signed (b_max b)]"

definition print_table :: "board list \<Rightarrow> string" where
  "print_table bs = concat (map (\<lambda>l. l @ [CHR 0x0A]) (concat (map print_board bs)))"

definition printable :: "string \<Rightarrow> bool" where
  "printable s \<longleftrightarrow> trimmed s \<and> CHR 0x0A \<notin> set s \<and> CHR 0x0D \<notin> set s \<and> length s < 65000"

definition printable_board :: "board \<Rightarrow> bool" where
  "printable_board b \<longleftrightarrow> printable (b_name b) \<and> b_name b \<noteq> [] \<and> printable (b_chip b) \<and> b_chip b \<noteq> []
    \<and> printable (b_sensor b) \<and> 20000 \<le> b_max b \<and> b_max b \<le> 150000"

definition board_entries :: "board \<Rightarrow> (string \<times> string) list" where
  "board_entries b = (''chip'', b_chip b)
    # (if b_sensor b = [] then [] else [(''sensor'', b_sensor b)])
    @ [(''max_celsius'', show_signed (b_max b))]"

lemma trimmed_after_blank:
  assumes "trimmed v" "v \<noteq> []" "p \<noteq> []" "\<not> space_start (hd p)"
  shows "trimmed (p @ CHR '' '' # v)"
proof -
  have "\<not> prefix (rev w) (rev v @ CHR '' '' # rev p)" if w: "w \<in> set spaces" for w
  proof
    assume pre: "prefix (rev w) (rev v @ CHR '' '' # rev p)"
    have "\<not> prefix (rev w) (rev v)"
      using assms(1) w by (auto simp: trimmed_def strip_one_None)
    then obtain us where us: "rev w = rev v @ us" "us \<noteq> []" "prefix us (CHR '' '' # rev p)"
      using pre by (auto simp: prefix_append)
    then have "CHR '' '' \<in> set w"
      by (metis Un_iff list.set_intros(1) prefix_Cons set_append set_rev)
    moreover have "u = [CHR '' '']" if "u \<in> set spaces" "CHR '' '' \<in> set u" for u
      using that by (auto simp: spaces_def)
    ultimately have "w = [CHR '' '']" using w by blast
    then show False using us assms(2) by (cases v rule: rev_cases) auto
  qed
  then have "strip_one (map rev spaces) (rev (p @ CHR '' '' # v)) = None"
    by (auto simp: strip_one_None)
  moreover have "strip_one spaces (p @ CHR '' '' # v) = None"
    using assms(3,4) by (cases p) (simp_all add: strip_one_no_start)
  ultimately show ?thesis by (simp add: trimmed_def)
qed

lemma classify_print_header:
  assumes "trimmed name"
  shows "classify (''['' @ name @ '']'') = Header name"
proof -
  have "\<not> space_start (CHR ''['')" "\<not> space_end (CHR '']'')"
    by (simp_all add: space_start_def space_end_def spaces_def)
  then have "trimmed (''['' @ name @ '']'')" by (intro trimmed_ends) simp_all
  then have "trim_space (''['' @ name @ '']'') = ''['' @ name @ '']''" by (rule trim_space_trimmed_id)
  moreover have "has_suffix (''['' @ name @ '']'') '']''" by (simp add: has_suffix_def suffix_def)
  ultimately show ?thesis
    using trim_space_trimmed_id [OF assms] by (simp add: classify_def Let_def has_prefix_def butlast_append)
qed

lemma classify_print_entry:
  assumes v: "trimmed v" "v \<noteq> []" and k: "k \<in> {''chip'', ''sensor'', ''max_celsius''}"
  shows "classify (k @ '' = '' @ v) = Entry k v"
proof -
  have keys: "trim_space (k @ '' '') = k" "k \<noteq> []" "\<not> space_start (hd k)" "CHR ''='' \<notin> set (k @ '' '')"
    "hd k \<noteq> CHR ''#'' \<and> hd k \<noteq> CHR '';'' \<and> hd k \<noteq> CHR ''[''"
    using k by (elim insertE emptyE; simp; code_simp)+
  have line: "k @ '' = '' @ v = (k @ '' ='') @ CHR '' '' # v" by simp
  have "trimmed (k @ '' = '' @ v)"
    unfolding line using keys(2,3) v by (intro trimmed_after_blank) simp_all
  then have trim: "trim_space (k @ '' = '' @ v) = k @ '' = '' @ v" by (rule trim_space_trimmed_id)
  have cut: "cut (CHR ''='') (k @ '' = '' @ v) = Some (k @ '' '', CHR '' '' # v)"
    using cut_append [OF keys(4), of "CHR '' '' # v"] by simp
  have "\<not> has_prefix (k @ '' = '' @ v) [c]" if "c \<noteq> hd k" for c
    using that keys(2) by (cases k) (simp_all add: has_prefix_def)
  then show ?thesis
    unfolding classify_def Let_def trim cut using keys
    by (auto simp: trim_space_blank trim_space_trimmed_id [OF v(1)])
qed


lemma show_signed_printable:
  assumes "20000 \<le> m" "m \<le> 150000"
  shows "printable (show_signed m)" "show_signed m \<noteq> []"
proof -
  have pos: "\<not> m < 0" using assms by simp
  have c: "is_digit c \<or> c = CHR ''.''" if "c \<in> set (show_signed m)" for c
    using that pos show_milli_chars by (auto simp: show_signed_def)
  have ends: "\<not> space_start c \<and> \<not> space_end c" if "c \<in> set (show_signed m)" for c
  proof -
    have "byte c \<in> {46..57}" using c [OF that] by (auto simp: is_digit_def byte_def)
    moreover have "byte d \<notin> {46..57}" if "d \<in> set (map hd spaces) \<or> d \<in> set (map last spaces)" for d
      using that by (auto simp: spaces_def byte_def)
    ultimately show ?thesis unfolding space_start_def space_end_def by blast
  qed
  show ne: "show_signed m \<noteq> []" by (rule show_signed_parts(2))
  have "trimmed (show_signed m)" using ends ne by (intro trimmed_ends) auto
  moreover have "CHR 0x0A \<notin> set (show_signed m)" "CHR 0x0D \<notin> set (show_signed m)"
    using c [of "CHR 0x0A"] c [of "CHR 0x0D"] by (auto simp: is_digit_def byte_def)
  moreover have "length (show_signed m) < 65000"
  proof -
    have "nat m div 1000 < 10 ^ 3" using assms by simp
    then have "length (digits 10 (nat m div 1000)) \<le> 3"
      using digits_length [of "nat m div 1000" 3] by simp
    moreover have "length (zero_pad 3 (digits 10 (nat m mod 1000))) = 3"
      by (intro zero_pad_length) simp_all
    ultimately show ?thesis using pos by (simp add: show_signed_def show_milli_def)
  qed
  ultimately show "printable (show_signed m)" by (simp add: printable_def)
qed

lemma map_classify_print:
  assumes "printable_board b"
  shows "map classify (print_board b)
    = Header (b_name b) # map (\<lambda>(k, v). Entry k v) (board_entries b)"
proof -
  have b: "trimmed (b_name b)" "trimmed (b_chip b)" "b_chip b \<noteq> []" "trimmed (b_sensor b)"
    "printable (show_signed (b_max b))"
    using assms show_signed_printable(1) by (auto simp: printable_board_def printable_def)
  then have m: "trimmed (show_signed (b_max b))" by (simp add: printable_def)
  note e = classify_print_entry [OF b(2,3), of "''chip''"]
    classify_print_entry [OF m show_signed_parts(2), of "''max_celsius''"]
    classify_print_entry [OF b(4), of "''sensor''"]
  show ?thesis
    using e classify_print_header [OF b(1)] by (simp add: print_board_def board_entries_def)
qed

lemma items_entries:
  "entries (enumerate n (map (\<lambda>(k, v). Entry k v) kvs @ is))
    = kvs @ entries (enumerate (n + length kvs) is)"
  "sections (enumerate n (map (\<lambda>(k, v). Entry k v) kvs @ is))
    = sections (enumerate (n + length kvs) is)"
  by (induction kvs arbitrary: n) auto

abbreviation board_items :: "board \<Rightarrow> item list" where
  "board_items b \<equiv> Header (b_name b) # map (\<lambda>(k, v). Entry k v) (board_entries b)"

lemma items_boards:
  "entries (enumerate n (concat (map board_items bs))) = []"
  "map (\<lambda>s. (fst s, snd (snd s))) (sections (enumerate n (concat (map board_items bs))))
    = map (\<lambda>b. (b_name b, board_entries b)) bs"
proof -
  have e: "entries (enumerate n (concat (map board_items bs))) = []" for n bs
    by (cases bs) simp_all
  then show "entries (enumerate n (concat (map board_items bs))) = []" .
  show "map (\<lambda>s. (fst s, snd (snd s))) (sections (enumerate n (concat (map board_items bs))))
      = map (\<lambda>b. (b_name b, board_entries b)) bs"
    by (induction bs arbitrary: n) (simp_all add: items_entries e)
qed

lemma board_of_entries:
  assumes "printable_board b"
  shows "plain_entries (board_entries b)" "complete_entries (board_entries b)"
    "board_of (b_name b, 0, board_entries b) = b\<lparr>b_line := 0\<rparr>"
proof -
  have t: "parse_threshold (show_signed (b_max b)) = Inr (b_max b)" and c: "b_chip b \<noteq> []"
    using assms parse_threshold_exact by (auto simp: printable_board_def)
  show "plain_entries (board_entries b)"
    using t c by (simp add: plain_entries_def board_entries_def)
  show "complete_entries (board_entries b)" by (simp add: complete_entries_def board_entries_def)
  show "board_of (b_name b, 0, board_entries b) = b\<lparr>b_line := 0\<rparr>"
    using t by (cases b) (simp add: board_of_def board_entries_def threshold_of_def)
qed

lemma print_lines_short:
  assumes "printable_board b" "l \<in> set (print_board b)"
  shows "CHR 0x0A \<notin> set l \<and> CHR 0x0D \<notin> set l \<and> length l < max_token"
proof -
  have "printable (b_name b)" "printable (b_chip b)" "printable (b_sensor b)"
    "printable (show_signed (b_max b))"
    using assms(1) show_signed_printable(1) by (auto simp: printable_board_def)
  then show ?thesis
    using assms(2) by (auto simp: print_board_def printable_def max_token_def split: if_splits)
qed

lemma parse_print:
  assumes "bs \<noteq> []" "distinct (map b_name bs)" "\<forall>b \<in> set bs. printable_board b"
  shows "\<exists>tab. parse_table (print_table bs) None = Inr tab
    \<and> map (\<lambda>(n, b). (n, b\<lparr>b_line := 0\<rparr>)) tab = map (\<lambda>b. (b_name b, b\<lparr>b_line := 0\<rparr>)) bs"
proof -
  let ?ls = "concat (map print_board bs)"
  let ?items = "enumerate 1 (concat (map board_items bs))" and ?secs = "sections (enumerate 1 (concat (map board_items bs)))"
  have short: "\<forall>l \<in> set ?ls. CHR 0x0A \<notin> set l \<and> CHR 0x0D \<notin> set l \<and> length l < max_token"
    using assms(3) print_lines_short by auto
  have scan: "scan_lines (print_table bs) = ?ls" "\<not> scan_too_long (print_table bs)"
    unfolding print_table_def by (rule scan_lines_concat [OF short])+
  have "map classify ?ls = concat (map board_items bs)"
    using assms(3) map_classify_print by (simp add: map_concat comp_def cong: map_cong)
  then have items: "items_of (scan_lines (print_table bs)) = ?items" by (simp add: scan items_of_def)
  have pairs: "map (\<lambda>s. (fst s, snd (snd s))) ?secs = map (\<lambda>b. (b_name b, board_entries b)) bs"
    by (rule items_boards)
  have sec: "\<exists>b \<in> set bs. fst s = b_name b \<and> snd (snd s) = board_entries b" if "s \<in> set ?secs" for s
  proof -
    have "(fst s, snd (snd s)) \<in> set (map (\<lambda>s. (fst s, snd (snd s))) ?secs)" using that by simp
    then show ?thesis unfolding pairs by auto
  qed
  have good: "case s of (name, line, kvs) \<Rightarrow> name \<noteq> [] \<and> plain_entries kvs \<and> complete_entries kvs"
    if "s \<in> set ?secs" for s
    using sec [OF that] assms(3) board_of_entries by (cases s) (auto simp: printable_board_def)
  have "map fst ?secs = map b_name bs"
    using arg_cong [OF pairs, of "map fst"] by (simp add: comp_def)
  then have "plain_sections ?secs" "?secs \<noteq> []"
    using assms(1,2) good by (force simp: plain_sections_def)+
  moreover have "Junk \<notin> snd ` set ?items"
    unfolding set_map [symmetric] map_snd_enumerate by auto
  moreover have "\<forall>(name, line, kvs) \<in> set ?secs. complete_entries kvs" using good by force
  ultimately have "parse_table (print_table bs) None = Inr (map (\<lambda>s. (fst s, board_of s)) ?secs)"
    unfolding parse_table_iff Let_def items using scan(2) items_boards(1) by blast
  moreover have "map (\<lambda>(n, b). (n, b\<lparr>b_line := 0\<rparr>)) (map (\<lambda>s. (fst s, board_of s)) ?secs)
      = map (\<lambda>(n, kvs). (n, board_of (n, 0, kvs))) (map (\<lambda>s. (fst s, snd (snd s))) ?secs)"
    by (auto simp: board_of_def)
  then have "map (\<lambda>(n, b). (n, b\<lparr>b_line := 0\<rparr>)) (map (\<lambda>s. (fst s, board_of s)) ?secs)
      = map (\<lambda>b. (b_name b, b\<lparr>b_line := 0\<rparr>)) bs"
    unfolding pairs using assms(3) board_of_entries(3) by auto
  ultimately show ?thesis by blast
qed

section \<open>Properties\<close>

definition sample_conf :: string where
  "sample_conf = ''[H11DSi-NT]'' @ [newline] @ ''chip = k10temp'' @ [newline]
     @ ''sensor = tctl'' @ [newline] @ ''max_celsius = 85'' @ [newline]"

definition sample_board :: board where
  "sample_board = \<lparr>b_name = ''H11DSi-NT'', b_chip = ''k10temp'', b_sensor = ''tctl'',
     b_max = 85000, b_line = 1\<rparr>"

lemma parse_sample: "parse_table sample_conf None = Inr [(''H11DSi-NT'', sample_board)]"
  by code_simp

text \<open>
  C37: what the parser accepts means what the file says. A text is accepted, as the table
  \<open>tab\<close>, exactly if no line is too long for the scanner, every line is blank, a comment, a header
  or an entry, no entry stands before the first header, the section names are distinct and not
  empty, every section sets \<open>chip\<close> and \<open>max_celsius\<close>, sets only known keys and each at most
  once, its chip is not empty and its limit a plausible number; and then \<open>tab\<close> holds one board
  per section, in order, with that section's values.
\<close>

theorem parse_meaning:
  "parse_table txt None = Inr tab \<longleftrightarrow> \<not> scan_too_long txt \<and>
    (let items = items_of (scan_lines txt) in
     entries items = [] \<and> Junk \<notin> snd ` set items \<and> sections items \<noteq> []
     \<and> plain_sections (sections items) \<and> (\<forall>(name, line, kvs) \<in> set (sections items). complete_entries kvs)
     \<and> tab = map (\<lambda>s. (fst s, board_of s)) (sections items))"
  by (rule parse_table_iff)

theorem parse_meaning_witness:
  "sections (items_of (scan_lines sample_conf)) \<noteq> [] \<and> plain_sections (sections (items_of (scan_lines sample_conf)))"
  using parse_meaning [of sample_conf] parse_sample unfolding Let_def by blast

text \<open>
  Every accepted table can guard a node: it is not empty, its names are distinct, and each
  board has a non-empty trimmed name, a chip, and a limit from 20 to 150 degrees.
\<close>

theorem accepted_table_sound:
  assumes "parse_table txt read_err = Inr tab"
  shows "tab \<noteq> [] \<and> distinct (map fst tab) \<and> (\<forall>(name, b) \<in> set tab.
    b_name b = name \<and> name \<noteq> [] \<and> trimmed name \<and> b_chip b \<noteq> [] \<and> 20000 \<le> b_max b \<and> b_max b \<le> 150000)"
  using parse_table_sound [OF assms] by (simp add: sound_board_def)

theorem accepted_table_sound_witness: "trimmed ''H11DSi-NT'' \<and> b_max sample_board \<le> 150000"
  using accepted_table_sound [OF parse_sample] by simp

text \<open>
  C38: writing a table and reading it back. Boards with distinct names, printed as sections one
  after the other, are read back with every field as it was; only the line numbers are the
  file's.
\<close>

theorem table_roundtrip:
  assumes "bs \<noteq> []" "distinct (map b_name bs)" "\<forall>b \<in> set bs. printable_board b"
  shows "\<exists>tab. parse_table (print_table bs) None = Inr tab
    \<and> map (\<lambda>(n, b). (n, b\<lparr>b_line := 0\<rparr>)) tab = map (\<lambda>b. (b_name b, b\<lparr>b_line := 0\<rparr>)) bs"
  by (rule parse_print [OF assms])

theorem table_roundtrip_witness:
  "\<exists>tab. parse_table (print_table [sample_board]) None = Inr tab
    \<and> map (\<lambda>(n, b). (n, b\<lparr>b_line := 0\<rparr>)) tab = [(''H11DSi-NT'', sample_board\<lparr>b_line := 0\<rparr>)]"
proof -
  have "trimmed ''H11DSi-NT''" "trimmed ''k10temp''" "trimmed ''tctl''" by code_simp+
  then have "printable_board sample_board"
    by (simp add: printable_board_def printable_def sample_board_def)
  then show ?thesis using table_roundtrip [of "[sample_board]"] by (simp add: sample_board_def)
qed

text \<open>
  C39: limits. Whatever \<open>max_celsius\<close> says, \<open>nan\<close> and infinities included, a limit that is
  accepted lies between 20 and 150 degrees; and a limit written with three decimals in that range
  is accepted as exactly that number of millidegrees, through two roundings of \<open>float64\<close>.
\<close>

theorem threshold_bounds:
  "(parse_threshold s = Inr m \<longrightarrow> 20000 \<le> m \<and> m \<le> 150000) \<and>
   (20000 \<le> k \<and> k \<le> 150000 \<longrightarrow> parse_threshold (show_signed k) = Inr k)"
  using parse_threshold_range parse_threshold_exact by blast

theorem threshold_bounds_witness: "parse_threshold ''85.001'' = Inr 85001"
proof -
  have "show_signed 85001 = ''85.001''" by code_simp
  then show ?thesis using threshold_bounds [of "[]" 0 85001] by simp
qed

text \<open>
  Loading and looking up. If the file at the path loads and a board is found in it, the
  entry found is that board's, complete and plausible; a board the table does not describe is
  an error that lists the boards it does.
\<close>

theorem load_lookup:
  assumes "run_state (load path w) t = (Inr tab, u)"
  shows "case lookup tab name of
      Inr b \<Rightarrow> (name, b) \<in> set tab \<and> sound_board name b
    | Inl (NotInTable n known) \<Rightarrow> name \<notin> fst ` set tab \<and> n = name \<and> known = board_names tab"
proof -
  obtain conf err where p: "parse_table conf err = Inr tab"
    using assms by (auto simp: load_def results split: sum.splits prod.splits)
  show ?thesis
  proof (cases "map_of tab name")
    case None
    then show ?thesis by (simp add: lookup_def map_of_eq_None_iff [symmetric])
  next
    case (Some b)
    then have "(name, b) \<in> set tab" by (rule map_of_SomeD)
    then show ?thesis using parse_table_sound [OF p] Some by (auto simp: lookup_def)
  qed
qed

theorem load_lookup_witness: "sound_board ''H11DSi-NT'' sample_board"
proof -
  have "fs_open (node [] [] []) config_path = Inr (sample_conf, None)" by code_simp
  then have "run_state (load config_path (\<lambda>_. node [] [] [])) 0 = (Inr [(''H11DSi-NT'', sample_board)], 1)"
    by (simp add: load_def parse_sample)
  from load_lookup [OF this, of "''H11DSi-NT''"] show ?thesis by (simp add: lookup_def)
qed

end
