(* ===== verification/Boards_Conf.thy ===== *)
theory Boards_Conf
  imports Config
begin

text \<open>
  \<open>packaging/config/boards.conf\<close>, the table the package installs, line by line.
\<close>

definition boards_conf_lines :: "string list" where
  \<open>boards_conf_lines =
    [''# SPDX-License-Identifier: Apache-2.0'',
     ''#'',
     ''# Which sensor slurm-temperature-check watches on a given mainboard, and how'',
     ''# hot that sensor may get before the node stops running jobs.'',
     ''#'',
     ''# One section per mainboard. The section header is matched against the DMI'',
     ''# board name exactly as the kernel reports it:'',
     ''#'',
     ''#     cat /sys/devices/virtual/dmi/id/board_name'',
     ''#'',
     ''# A node whose board is not listed here refuses to start the guard, which'',
     ''# drains the node: it finishes the jobs it has and is given no more until'',
     ''# someone adds the board and resumes it. Add the board before the node is put'',
     ''# into service.'',
     ''#'',
     ''# Keys:'',
     ''#'',
     ''#   chip         Which hwmon chips to read. Either a full name as printed by'',
     ''#                `slurm-temperature-check --list` ("k10temp-pci-00c3", one'',
     ''#                chip) or a bare driver prefix ("k10temp", every chip of that'',
     ''#                driver). The prefix form watches all sockets of a'',
     ''#                multi-socket node and compares the hottest of them.'',
     ''#'',
     ''#   sensor       Optional. A driver label ("Tctl", matched without regard to'',
     ''#                case) or an attribute name ("temp1"). Omitted, it selects the'',
     ''#                lowest-numbered temperature attribute of each matched chip,'',
     ''#                which is the first reading `sensors` prints for that chip.'',
     ''#'',
     ''#   max_celsius  The limit. A reading strictly above it stops the node.'',
     ''#                Fractions are allowed and the comparison is exact: with a'',
     ''#                limit of 85, a reading of 85.001 C trips.'',
     ''#'',
     ''# Run `slurm-temperature-check --list` on the node to see the chip names,'',
     ''# labels and current readings as this program computes them, and'',
     ''# `slurm-temperature-check --check` to resolve this file against the node'',
     ''# and take one reading without starting the guard.'',
     [],
     ''# --- Supermicro ------------------------------------------------------------'',
     [],
     ''# Dual-socket boards: the driver prefix watches both sockets and compares the'',
     ''# hottest. A full name here would pin one socket and leave the other'',
     ''# unwatched, which is a node that reports "ok" while a CPU cooks.'',
     ''[H11DSi-NT]'',
     ''chip = k10temp'',
     ''sensor = Tctl'',
     ''max_celsius = 85'',
     [],
     ''[H12DSi-N6]'',
     ''chip = k10temp'',
     ''sensor = Tctl'',
     ''max_celsius = 85'',
     [],
     ''[H12DSG-O-CPU]'',
     ''chip = i350bb'',
     ''max_celsius = 75'',
     [],
     ''# --- Xfusion ---------------------------------------------------------------'',
     [],
     ''# The sensor key is deliberately absent. coretemp labels each socket's package'',
     ''# after its own index -- "Package id 0", "Package id 1" -- so no single label'',
     ''# matches both, and naming one would watch one socket. Omitted, the lowest'',
     ''# numbered attribute of each matched chip is selected, which for coretemp is'',
     ''# that socket's package.'',
     ''[BC11SPSCA0]'',
     ''chip = coretemp'',
     ''max_celsius = 90'',
     [],
     ''[BC15MASA]'',
     ''chip = i350bb'',
     ''max_celsius = 75'',
     [],
     ''# --- Gigabyte --------------------------------------------------------------'',
     [],
     ''[MZB3-PE0-000]'',
     ''chip = k10temp'',
     ''sensor = Tctl'',
     ''max_celsius = 78'',
     [],
     ''# --- Dell ------------------------------------------------------------------'',
     [],
     ''# Watched on the DIMM SPD hub rather than the CPU, so the limit is a memory'',
     ''# limit and correspondingly lower. A populated DDR5 slot registers an SPD hub'',
     ''# of its own, so the driver prefix is what watches all of them; a full name'',
     ''# would pin the hub at one address and leave every other DIMM unwatched.'',
     ''[FRANMDCP07]'',
     ''chip = spd5118'',
     ''max_celsius = 60'',
     [],
     ''# --- Verification ----------------------------------------------------------'',
     [],
     ''# No real mainboard reports this name. It exists so the mechanism can be'',
     ''# exercised end to end against a fabricated sysfs tree, which is what the'',
     ''# package's install test does:'',
     ''#'',
     ''#   slurm-temperature-check --check '' @ [CHR 0x5C],
     ''#     --board-name-path=<tree>/board_name --hwmon.path=<tree>/class/hwmon'',
     ''[TESTBOARD]'',
     ''chip = k10temp'',
     ''sensor = Tctl'',
     ''max_celsius = 60'']\<close>

definition boards_conf :: string where
  "boards_conf = concat (map (\<lambda>l. l @ [CHR 0x0A]) boards_conf_lines)"

lemma boards_conf_lines_short:
  "list_all (\<lambda>l. list_all (\<lambda>c. c \<noteq> CHR 0x0A \<and> c \<noteq> CHR 0x0D) l \<and> length l < 100) boards_conf_lines"
  by code_simp

lemma boards_conf_sections:
  "sections (items_of boards_conf_lines) =
    [(''H11DSi-NT'', 43, [(''chip'', ''k10temp''), (''sensor'', ''Tctl''), (''max_celsius'', ''85'')]),
     (''H12DSi-N6'', 48, [(''chip'', ''k10temp''), (''sensor'', ''Tctl''), (''max_celsius'', ''85'')]),
     (''H12DSG-O-CPU'', 53, [(''chip'', ''i350bb''), (''max_celsius'', ''75'')]),
     (''BC11SPSCA0'', 64, [(''chip'', ''coretemp''), (''max_celsius'', ''90'')]),
     (''BC15MASA'', 68, [(''chip'', ''i350bb''), (''max_celsius'', ''75'')]),
     (''MZB3-PE0-000'', 74, [(''chip'', ''k10temp''), (''sensor'', ''Tctl''), (''max_celsius'', ''78'')]),
     (''FRANMDCP07'', 85, [(''chip'', ''spd5118''), (''max_celsius'', ''60'')]),
     (''TESTBOARD'', 97, [(''chip'', ''k10temp''), (''sensor'', ''Tctl''), (''max_celsius'', ''60'')])]"
  by code_simp

lemma boards_conf_shape:
  "entries (items_of boards_conf_lines) = []" "Junk \<notin> snd ` set (items_of boards_conf_lines)"
proof -
  show "entries (items_of boards_conf_lines) = []" by code_simp
  have "list_all (\<lambda>l. classify l \<noteq> Junk) boards_conf_lines" by code_simp
  then show "Junk \<notin> snd ` set (items_of boards_conf_lines)"
    unfolding items_of_def set_map [symmetric] map_snd_enumerate by (auto simp: list_all_iff)
qed

lemma limit_85: "parse_threshold ''85'' = Inr 85000"
  by code_simp

lemma limit_75: "parse_threshold ''75'' = Inr 75000"
  by code_simp

lemma limit_90: "parse_threshold ''90'' = Inr 90000"
  by code_simp

lemma limit_78: "parse_threshold ''78'' = Inr 78000"
  by code_simp

lemma limit_60: "parse_threshold ''60'' = Inr 60000"
  by code_simp

lemmas boards_conf_limits = limit_85 limit_75 limit_90 limit_78 limit_60

lemma boards_conf_scan:
  "scan_lines boards_conf = boards_conf_lines" "\<not> scan_too_long boards_conf"
proof -
  have "CHR 0x0A \<notin> set l \<and> CHR 0x0D \<notin> set l \<and> length l < max_token" if l: "l \<in> set boards_conf_lines" for l
  proof -
    have "list_all (\<lambda>c. c \<noteq> CHR 0x0A \<and> c \<noteq> CHR 0x0D) l \<and> length l < 100"
      using boards_conf_lines_short l unfolding list_all_iff by (rule bspec)
    then show ?thesis by (auto simp: list_all_iff max_token_def)
  qed
  then have "\<forall>l \<in> set boards_conf_lines. CHR 0x0A \<notin> set l \<and> CHR 0x0D \<notin> set l \<and> length l < max_token"
    by (rule ballI)
  then show "scan_lines boards_conf = boards_conf_lines" "\<not> scan_too_long boards_conf"
    unfolding boards_conf_def by (rule scan_lines_concat)+
qed

text \<open>
  The table the package installs is accepted, and means these eight boards: chip and sensor
  references, limits in millidegrees, and the lines the sections start on.
\<close>

theorem shipped_table:
  "\<exists>tab. parse_table boards_conf None = Inr tab
    \<and> map (\<lambda>(n, b). (n, b_chip b, b_sensor b, b_max b, b_line b)) tab =
    [(''H11DSi-NT'', ''k10temp'', ''Tctl'', 85000, 43),
     (''H12DSi-N6'', ''k10temp'', ''Tctl'', 85000, 48),
     (''H12DSG-O-CPU'', ''i350bb'', [], 75000, 53),
     (''BC11SPSCA0'', ''coretemp'', [], 90000, 64),
     (''BC15MASA'', ''i350bb'', [], 75000, 68),
     (''MZB3-PE0-000'', ''k10temp'', ''Tctl'', 78000, 74),
     (''FRANMDCP07'', ''spd5118'', [], 60000, 85),
     (''TESTBOARD'', ''k10temp'', ''Tctl'', 60000, 97)]"
proof -
  let ?ss = "sections (items_of boards_conf_lines)"
  have "plain_sections ?ss" unfolding boards_conf_sections
    by (simp add: plain_sections_def plain_entries_def boards_conf_limits)
  moreover have "\<forall>(name, line, kvs) \<in> set ?ss. complete_entries kvs" unfolding boards_conf_sections
    by (simp add: complete_entries_def)
  moreover have "?ss \<noteq> []" unfolding boards_conf_sections by simp
  ultimately have "parse_table boards_conf None = Inr (map (\<lambda>s. (fst s, board_of s)) ?ss)"
    unfolding parse_table_iff Let_def boards_conf_scan(1)
    using boards_conf_shape boards_conf_scan(2) by blast
  then show ?thesis
    by (simp add: boards_conf_sections board_of_def threshold_of_def boards_conf_limits)
qed

end
