(* ===== verification/Go_Sort.thy ===== *)
theory Go_Sort
  imports Prelude "HOL-Library.Multiset"
begin

text \<open>
  \<open>sort.Slice\<close>. Its documentation promises a permutation in which no element is less
  than one before it, provided \<open>less\<close> is a strict weak order; it does not promise to keep
  equal elements in place. The model takes the sort as an argument, and \<open>slice_sort\<close> is
  that promise. \<open>insertion_sort\<close> is the routine Go runs on up to twelve elements.
\<close>

definition strict_weak :: "('a \<Rightarrow> 'a \<Rightarrow> bool) \<Rightarrow> bool" where
  "strict_weak lt \<longleftrightarrow>
    (\<forall>x. \<not> lt x x) \<and> (\<forall>x y z. lt x y \<longrightarrow> lt y z \<longrightarrow> lt x z)
    \<and> (\<forall>x y z. \<not> lt x y \<longrightarrow> \<not> lt y z \<longrightarrow> \<not> lt x z)"

definition in_order :: "('a \<Rightarrow> 'a \<Rightarrow> bool) \<Rightarrow> 'a list \<Rightarrow> bool" where
  "in_order lt xs \<longleftrightarrow> sorted_wrt (\<lambda>x y. \<not> lt y x) xs"

type_synonym 'a sorter = "('a \<Rightarrow> 'a \<Rightarrow> bool) \<Rightarrow> 'a list \<Rightarrow> 'a list"

locale slice_sort =
  fixes sort_slice :: "'a sorter"
  assumes perm: "mset (sort_slice lt xs) = mset xs"
    and ordered: "strict_weak lt \<Longrightarrow> in_order lt (sort_slice lt xs)"
begin

lemma set_sort_slice [simp]: "set (sort_slice lt xs) = set xs"
  by (rule mset_eq_setD [OF perm])

lemma length_sort_slice [simp]: "length (sort_slice lt xs) = length xs"
  by (rule mset_eq_length [OF perm])

lemma Nil_sort_slice [simp]: "sort_slice lt xs = [] \<longleftrightarrow> xs = []"
  by (metis length_sort_slice length_0_conv)

end

text \<open>
  \<open>insertionSort_func\<close>: each element moves left past those it is less than. The prefix
  that is already sorted is kept last element first.
\<close>

fun sift :: "('a \<Rightarrow> 'a \<Rightarrow> bool) \<Rightarrow> 'a \<Rightarrow> 'a list \<Rightarrow> 'a list" where
  "sift lt x [] = [x]"
| "sift lt x (y # ys) = (if lt x y then y # sift lt x ys else x # y # ys)"

definition insertion_sort :: "'a sorter" where
  "insertion_sort lt xs = rev (foldl (\<lambda>acc x. sift lt x acc) [] xs)"

lemma mset_sift: "mset (sift lt x ys) = add_mset x (mset ys)"
  by (induction ys) auto

lemma mset_insertion_sort: "mset (insertion_sort lt xs) = mset xs"
proof -
  have "mset (foldl (\<lambda>acc x. sift lt x acc) ys xs) = mset ys + mset xs" for ys
    by (induction xs arbitrary: ys) (auto simp: mset_sift)
  then show ?thesis by (simp add: insertion_sort_def)
qed

lemma sift_ordered:
  assumes sw: "strict_weak lt" and "sorted_wrt (\<lambda>a b. \<not> lt a b) ys"
  shows "sorted_wrt (\<lambda>a b. \<not> lt a b) (sift lt x ys)"
  using assms(2)
proof (induction ys)
  case (Cons y ys)
  have set: "set (sift lt x ys) = insert x (set ys)"
    using mset_sift [of lt x ys] by (metis set_mset_add_mset_insert set_mset_mset)
  have asym: "lt x y \<Longrightarrow> \<not> lt y x" and neg: "\<not> lt x y \<Longrightarrow> \<not> lt y z \<Longrightarrow> \<not> lt x z" for z
    using sw unfolding strict_weak_def by blast+
  show ?case using Cons set asym neg by auto
qed simp

interpretation insertion: slice_sort insertion_sort
proof
  fix lt :: "'a \<Rightarrow> 'a \<Rightarrow> bool" and xs
  show "mset (insertion_sort lt xs) = mset xs" by (rule mset_insertion_sort)
  assume sw: "strict_weak lt"
  have "sorted_wrt (\<lambda>a b. \<not> lt a b) ys \<Longrightarrow>
      sorted_wrt (\<lambda>a b. \<not> lt a b) (foldl (\<lambda>acc x. sift lt x acc) ys xs)" for ys
    by (induction xs arbitrary: ys) (auto intro: sift_ordered [OF sw])
  then show "in_order lt (insertion_sort lt xs)"
    by (simp add: in_order_def insertion_sort_def sorted_wrt_rev)
qed

end
