(* ===== verification/Hwmon.thy ===== *)
theory Hwmon
  imports Sysfs Go_Float Go_Sort Sample_Node
begin

text \<open>
  \<open>internal/hwmon/hwmon.go\<close>: temperatures in millidegrees, sensors, the names of chips
  composed from the sysfs tree, the discovery of sensors, and the reading of one.
\<close>

unbundle bit_operations_syntax

section \<open>Data\<close>

text \<open>\<open>MilliCelsius\<close> is an \<open>int64\<close>; no arithmetic is done on it.\<close>

type_synonym milli_celsius = int

definition mc_string :: "milli_celsius \<Rightarrow> string" where
  "mc_string m = format_f3 (f_div (to_f64 (of_int m)) 1000) @ ''C''"

record sensor =
  s_chip :: string
  s_attr :: string
  s_label :: string
  s_index :: int
  s_path :: string

definition sensor_name :: "sensor \<Rightarrow> string" where
  "sensor_name s =
    (if s_label s \<noteq> [] then s_chip s @ ''/'' @ s_label s else s_chip s @ ''/'' @ s_attr s)"

text \<open>The errors of \<open>chipName\<close>, and those of \<open>Sensor.Read\<close> and \<open>confirmChip\<close>.\<close>

datatype chip_error = NameUnreadable io_err | EmptyName

datatype sensor_error =
    ReadFailed string io_err
  | NotInteger string string num_error
  | ConfirmFailed string chip_error
  | ChipReplaced string string string

section \<open>Chip names\<close>

definition split_pair :: "string \<Rightarrow> nat \<Rightarrow> nat \<Rightarrow> (int \<times> int) option" where
  "split_pair s base_a base_b =
    (case cut_any ''-.'' s of
       None \<Rightarrow> None
     | Some (sa, sb) \<Rightarrow>
        (case parse_int base_a 32 sa of
           Inl _ \<Rightarrow> None
         | Inr a \<Rightarrow>
            (case parse_int base_b 32 sb of
               Inl _ \<Rightarrow> None
             | Inr b \<Rightarrow> Some (a, b))))"

definition pci_address :: "string \<Rightarrow> int option" where
  "pci_address name =
    (let parts = split_on (CHR '':'') name in
     if length parts < 2 then None
     else (case parse_int 16 32 (parts ! (length parts - 2)) of
         Inl _ \<Rightarrow> None
       | Inr bus \<Rightarrow>
          (case split_pair (parts ! (length parts - 1)) 16 16 of
             None \<Rightarrow> None
           | Some (slot, fn) \<Rightarrow> Some ((push_bit 8 bus OR push_bit 3 slot) OR fn))))"

text \<open>
  \<open>busSuffix\<close> once the subsystem's name and the device's name are known: the switch over
  the bus.
\<close>

definition isa_address :: "string \<Rightarrow> int" where
  "isa_address dev_name =
    (case after_last (CHR ''.'') dev_name of
       None \<Rightarrow> 0
     | Some tail \<Rightarrow> (case parse_int 0 32 tail of Inl _ \<Rightarrow> 0 | Inr v \<Rightarrow> v))"

definition bus_address :: "string \<Rightarrow> string \<Rightarrow> string option" where
  "bus_address bus dev_name =
    (if bus = ''i2c'' then
       (case split_pair dev_name 10 16 of
          None \<Rightarrow> None
        | Some (b, addr) \<Rightarrow> Some (''-i2c-'' @ itoa b @ ''-'' @ fmt_int 16 2 addr))
     else if bus = ''spi'' then
       (case split_pair (trim_prefix dev_name ''spi'') 10 10 of
          None \<Rightarrow> None
        | Some (b, cs) \<Rightarrow> Some (''-spi-'' @ itoa b @ ''-'' @ fmt_int 16 0 cs))
     else if bus = ''pci'' then
       (case pci_address dev_name of
          None \<Rightarrow> None
        | Some addr \<Rightarrow> Some (''-pci-'' @ fmt_int 16 4 addr))
     else if bus = ''acpi'' then Some ''-acpi-0''
     else if bus = ''platform'' \<or> bus = ''of_node'' then
       Some (''-isa-'' @ fmt_int 16 4 (isa_address dev_name))
     else None)"

definition bus_suffix :: "string \<Rightarrow> world \<Rightarrow> string option io" where
  "bus_suffix dev_path w = do {
     r \<leftarrow> eval_symlinks (path_join dev_path ''subsystem'') w;
     State_Monad.return (case r of
         Inl _ \<Rightarrow> None
       | Inr link \<Rightarrow> bus_address (path_base link) (path_base dev_path))
   }"

definition max_device_links :: nat where
  "max_device_links = 8"

text \<open>The walk up the \<open>device\<close> links: the loop's remaining iterations and the device it is at.\<close>

fun device_walk :: "nat \<Rightarrow> string \<Rightarrow> world \<Rightarrow> string option io" where
  "device_walk 0 dev_path w = State_Monad.return None"
| "device_walk (Suc n) dev_path w = do {
     sfx \<leftarrow> bus_suffix dev_path w;
     (case sfx of
        Some a \<Rightarrow> State_Monad.return (Some a)
      | None \<Rightarrow> do {
          r \<leftarrow> eval_symlinks (path_join dev_path ''device'') w;
          (case r of
             Inl _ \<Rightarrow> State_Monad.return None
           | Inr next_path \<Rightarrow>
               if next_path = dev_path then State_Monad.return None
               else device_walk n next_path w)
        })
   }"

definition chip_name :: "string \<Rightarrow> world \<Rightarrow> (chip_error + string) io" where
  "chip_name dir w =
    try_io (wrap_io NameUnreadable (os_read_file (path_join dir ''name'') w)) (\<lambda>b.
      let pfx = trim_space b in
      if pfx = [] then State_Monad.return (Inl EmptyName)
      else do {
        r \<leftarrow> eval_symlinks (path_join dir ''device'') w;
        (case r of
           Inl _ \<Rightarrow> State_Monad.return (Inr (pfx @ ''-virtual-0''))
         | Inr dev_path \<Rightarrow> do {
             sfx \<leftarrow> device_walk max_device_links dev_path w;
             State_Monad.return (Inr (pfx @ (case sfx of Some a \<Rightarrow> a | None \<Rightarrow> ''-virtual-0'')))
           })
      })"

section \<open>Reading a sensor\<close>

definition confirm_chip :: "sensor \<Rightarrow> world \<Rightarrow> (sensor_error + unit) io" where
  "confirm_chip s w =
    try_io (wrap_io (ConfirmFailed (sensor_name s)) (chip_name (path_dir (s_path s)) w)) (\<lambda>chip.
      State_Monad.return
        (if chip \<noteq> s_chip s then Inl (ChipReplaced (sensor_name s) (path_dir (s_path s)) chip)
         else Inr ()))"

definition sensor_read :: "sensor \<Rightarrow> world \<Rightarrow> (sensor_error + milli_celsius) io" where
  "sensor_read s w =
    try_io (wrap_io (ReadFailed (sensor_name s)) (os_read_file (s_path s) w)) (\<lambda>b.
      (case parse_int 10 64 (trim_space b) of
         Inl e \<Rightarrow> State_Monad.return (Inl (NotInteger (sensor_name s) (trim_space b) e))
       | Inr v \<Rightarrow> try_io (confirm_chip s w) (\<lambda>_. State_Monad.return (Inr v))))"

section \<open>Discovery\<close>

text \<open>\<open>^temp([0-9]+)_input$\<close>: the digits it captures.\<close>

definition temp_attr :: "string \<Rightarrow> string option" where
  "temp_attr name =
    (if has_prefix name ''temp'' then
       (let r = drop 4 name; ds = takeWhile is_digit r in
        if ds \<noteq> [] \<and> dropWhile is_digit r = ''_input'' then Some ds else None)
     else None)"

fun sensors_loop :: "string \<Rightarrow> string \<Rightarrow> string list \<Rightarrow> world \<Rightarrow> sensor list io" where
  "sensors_loop dir chip [] w = State_Monad.return []"
| "sensors_loop dir chip (f # fs) w =
    (case temp_attr f of
       None \<Rightarrow> sensors_loop dir chip fs w
     | Some ds \<Rightarrow>
        (case atoi ds of
           Inl _ \<Rightarrow> sensors_loop dir chip fs w
         | Inr idx \<Rightarrow> do {
             b \<leftarrow> os_read_file (path_join dir (''temp'' @ ds @ ''_label'')) w;
             rest \<leftarrow> sensors_loop dir chip fs w;
             State_Monad.return
               (\<lparr>s_chip = chip, s_attr = ''temp'' @ ds,
                 s_label = (case b of Inl _ \<Rightarrow> [] | Inr txt \<Rightarrow> trim_space txt),
                 s_index = idx, s_path = path_join dir f\<rparr> # rest)
           }))"

definition chip_sensors :: "string \<Rightarrow> string \<Rightarrow> world \<Rightarrow> (io_err + sensor list) io" where
  "chip_sensors dir chip w =
    try_io (os_read_dir dir w) (\<lambda>files. do {
      out \<leftarrow> sensors_loop dir chip files w;
      State_Monad.return (Inr out)
    })"

fun discover_loop :: "string \<Rightarrow> string list \<Rightarrow> world \<Rightarrow> sensor list io" where
  "discover_loop class_dir [] w = State_Monad.return []"
| "discover_loop class_dir (e # es) w = do {
     c \<leftarrow> chip_name (path_join class_dir e) w;
     (case c of
        Inl _ \<Rightarrow> discover_loop class_dir es w
      | Inr chip \<Rightarrow> do {
          r \<leftarrow> chip_sensors (path_join class_dir e) chip w;
          (case r of
             Inl _ \<Rightarrow> discover_loop class_dir es w
           | Inr sensors \<Rightarrow> do {
               rest \<leftarrow> discover_loop class_dir es w;
               State_Monad.return (sensors @ rest)
             })
        })
   }"

definition sensor_less :: "sensor \<Rightarrow> sensor \<Rightarrow> bool" where
  "sensor_less a b =
    (if s_chip a \<noteq> s_chip b then s_chip a < s_chip b else s_index a < s_index b)"

definition discover :: "sensor sorter \<Rightarrow> string \<Rightarrow> world \<Rightarrow> (io_err + sensor list) io" where
  "discover sort_slice class_dir w =
    try_io (wrap_io (\<lambda>e. ''list hwmon devices: '' @ e) (os_read_dir class_dir w)) (\<lambda>entries. do {
      out \<leftarrow> discover_loop class_dir entries w;
      State_Monad.return (Inr (sort_slice sensor_less out))
    })"

section \<open>The operations are made of system calls\<close>

lemma os_op_bus_suffix [intro]: "os_op (bus_suffix p)"
  unfolding bus_suffix_def by (intro os_op_bind os_op_return os_op_os_calls)

lemma os_op_device_walk [intro]: "os_op (device_walk n p)"
proof (induction n arbitrary: p)
  case (Suc n)
  show ?case
    by (rule os_op_eqI [OF device_walk.simps(2)], intro os_op_bind os_op_case_option os_op_case_sum os_op_if os_op_return
        os_op_bus_suffix os_op_os_calls Suc)
qed (rule os_op_eqI [OF device_walk.simps(1)], rule os_op_return)

lemma os_op_chip_name [intro]: "os_op (chip_name dir)"
  unfolding chip_name_def Let_def
  by (intro os_op_try os_op_wrap os_op_bind os_op_case_sum os_op_if os_op_return
      os_op_device_walk os_op_os_calls)

lemma os_op_confirm_chip [intro]: "os_op (confirm_chip s)"
  unfolding confirm_chip_def by (intro os_op_try os_op_wrap os_op_return os_op_chip_name)

lemma os_op_sensor_read [intro]: "os_op (sensor_read s)"
  unfolding sensor_read_def
  by (intro os_op_try os_op_wrap os_op_case_sum os_op_return os_op_confirm_chip os_op_os_calls)

lemma os_op_sensors_loop [intro]: "os_op (sensors_loop dir chip fs)"
proof (induction fs)
  case (Cons f fs)
  show ?case
    by (rule os_op_eqI [OF sensors_loop.simps(2)], intro os_op_bind os_op_case_option os_op_case_sum os_op_return os_op_os_calls Cons)
qed (rule os_op_eqI [OF sensors_loop.simps(1)], rule os_op_return)

lemma os_op_chip_sensors [intro]: "os_op (chip_sensors dir chip)"
  unfolding chip_sensors_def
  by (intro os_op_try os_op_bind os_op_return os_op_sensors_loop os_op_os_calls)

lemma os_op_discover_loop [intro]: "os_op (discover_loop class_dir es)"
proof (induction es)
  case (Cons e es)
  show ?case
    by (rule os_op_eqI [OF discover_loop.simps(2)], intro os_op_bind os_op_case_sum os_op_return os_op_chip_name os_op_chip_sensors Cons)
qed (rule os_op_eqI [OF discover_loop.simps(1)], rule os_op_return)

lemma os_op_discover [intro]: "os_op (discover sort_slice class_dir)"
  unfolding discover_def
  by (intro os_op_try os_op_wrap os_op_bind os_op_return os_op_discover_loop os_op_os_calls)

interpretation chip_name_op: os_op "chip_name dir" for dir
  by (rule os_op_chip_name)

interpretation sensor_read_op: os_op "sensor_read s" for s
  by (rule os_op_sensor_read)

interpretation discover_op: os_op "discover sort_slice class_dir" for sort_slice class_dir
  by (rule os_op_discover)

section \<open>Chip names\<close>

text \<open>
  A composed name is the driver's name, trimmed, and a suffix that starts with a dash.
\<close>

lemma bus_address_dash:
  assumes "bus_address bus dev = Some sfx"
  shows "\<exists>r. sfx = CHR ''-'' # r"
proof -
  have "bus_address bus dev = None \<or> (\<exists>r. bus_address bus dev = Some (CHR ''-'' # r))"
    unfolding bus_address_def by (simp split: option.split prod.split)
  then show ?thesis using assms by auto
qed

lemma bus_suffix_dash:
  "run_state (bus_suffix p w) t = (Some sfx, u) \<Longrightarrow> \<exists>r. sfx = CHR ''-'' # r"
  unfolding bus_suffix_def by (auto split: sum.splits dest: bus_address_dash)

lemma device_walk_dash:
  "run_state (device_walk n p w) t = (Some sfx, u) \<Longrightarrow> \<exists>r. sfx = CHR ''-'' # r"
proof (induction n arbitrary: p t)
  case (Suc n)
  obtain a t' where a: "run_state (bus_suffix p w) t = (a, t')"
    by (cases "run_state (bus_suffix p w) t")
  show ?case
  proof (cases a)
    case None
    then show ?thesis using Suc a
      by (cases "fs_link (w t') (path_join p ''device'')") (auto split: if_split_asm)
  next
    case (Some x)
    then show ?thesis using Suc.prems a bus_suffix_dash by simp
  qed
qed simp

lemma chip_name_shape:
  assumes "run_state (chip_name dir w) t = (Inr chip, u)"
  shows "\<exists>b r. fs_read (w t) (path_join dir ''name'') = Inr b \<and> trim_space b \<noteq> []
    \<and> chip = trim_space b @ CHR ''-'' # r"
proof (cases "fs_read (w t) (path_join dir ''name'')")
  case (Inl e)
  then show ?thesis using assms by (simp add: chip_name_def)
next
  case b: (Inr b)
  have ne: "trim_space b \<noteq> []" using assms b by (auto simp: chip_name_def)
  show ?thesis
  proof (cases "fs_link (w (Suc t)) (path_join dir ''device'')")
    case (Inl e)
    then show ?thesis using assms b ne by (auto simp: chip_name_def Let_def)
  next
    case (Inr dev)
    obtain sfx u' where d: "run_state (device_walk max_device_links dev w) (Suc (Suc t)) = (sfx, u')"
      by (cases "run_state (device_walk max_device_links dev w) (Suc (Suc t))")
    then have "chip = trim_space b @ (case sfx of Some a \<Rightarrow> a | None \<Rightarrow> ''-virtual-0'')"
      using assms b ne Inr by (simp add: chip_name_def Let_def)
    then show ?thesis using b ne d device_walk_dash by (cases sfx) auto
  qed
qed

text \<open>The walk up the device links is bounded, and with it the number of system calls.\<close>

lemma bus_suffix_time: "snd (run_state (bus_suffix p w) t) = Suc t"
  by (simp add: bus_suffix_def)

lemma device_walk_time: "snd (run_state (device_walk n p w) t) \<le> t + 2 * n"
proof (induction n arbitrary: p t)
  case (Suc n)
  obtain r where r: "run_state (bus_suffix p w) t = (r, Suc t)"
    using bus_suffix_time [of p w t] by (metis prod.collapse)
  show ?case
  proof (cases "fs_link (w (Suc t)) (path_join p ''device'')")
    case (Inl e)
    then show ?thesis using r by (simp split: option.split)
  next
    case (Inr q)
    then show ?thesis using r Suc [of q "Suc (Suc t)"] by (auto split: option.split)
  qed
qed simp

lemma chip_name_time: "snd (run_state (chip_name dir w) t) \<le> t + 18"
proof -
  have "snd (run_state (device_walk 8 p w) (Suc (Suc t))) \<le> t + 18" for p
    using device_walk_time [of 8 p w "Suc (Suc t)"] by simp
  then show ?thesis
    unfolding chip_name_def max_device_links_def Let_def
    by (auto simp: wrap_err_def split: sum.split prod.split) (metis snd_conv)
qed

text \<open>PCI names: the address folds bus, slot and function, and tells any two apart.\<close>

definition pci_name :: "string \<Rightarrow> int \<Rightarrow> int \<Rightarrow> int \<Rightarrow> string" where
  "pci_name domain bus slot fn =
    domain @ '':'' @ fmt_int 16 2 bus @ '':'' @ fmt_int 16 2 slot @ ''.'' @ itoa fn"

lemma fold_address:
  fixes bus slot fn :: int
  assumes "0 \<le> bus" "0 \<le> slot" "slot < 32" "0 \<le> fn" "fn < 8"
  shows "(push_bit 8 bus OR push_bit 3 slot) OR fn = bus * 256 + slot * 8 + fn"
proof -
  have fn: "take_bit 3 fn = fn" and slot: "take_bit 5 slot = slot"
    using assms by (simp_all add: take_bit_int_eq_self)
  have "push_bit 8 bus + push_bit 3 slot = push_bit 8 bus OR push_bit 3 slot"
  proof (rule disjunctive_add)
    fix n
    show "\<not> bit (push_bit 8 bus) n \<or> \<not> bit (push_bit 3 slot) n"
      using bit_take_bit_iff [of 5 slot "n - 3"] slot by (auto simp: bit_push_bit_iff)
  qed
  moreover have "(push_bit 8 bus OR push_bit 3 slot) + fn = (push_bit 8 bus OR push_bit 3 slot) OR fn"
  proof (rule disjunctive_add)
    fix n
    show "\<not> bit (push_bit 8 bus OR push_bit 3 slot) n \<or> \<not> bit fn n"
      using bit_take_bit_iff [of 3 fn n] fn by (auto simp: bit_push_bit_iff bit_or_iff)
  qed
  ultimately show ?thesis by (simp add: push_bit_eq_mult)
qed

lemma fmt_int_chars:
  assumes "0 \<le> n" "2 \<le> base" "base \<le> 16" "c \<in> set (fmt_int base w n)"
  shows "\<exists>d < 16. c = digit_char d"
proof -
  have "\<exists>d < 16. c = digit_char d" if "c \<in> set (digits base k)" for k
    using that assms(2,3)
  proof (induction base k rule: digits.induct)
    case (1 base k)
    have m: "k mod base < 16" using 1 by (auto intro: less_le_trans [OF mod_less_divisor])
    show ?case
    proof (cases "k < base")
      case True
      then have "digits base k = [digit_char k]" using 1 by (subst digits.simps) simp
      then show ?thesis using 1 True by (auto intro: exI [of _ k])
    next
      case False
      then have "digits base k = digits base (k div base) @ [digit_char (k mod base)]"
        using 1 by (subst digits.simps) simp
      then show ?thesis using 1 False m by auto
    qed
  qed
  then show ?thesis using assms(1,4) digit_char_0
    by (auto simp: fmt_int_def zero_pad_def) (metis digit_char_0 zero_less_numeral)
qed

lemma hex_char_plain:
  assumes "d < 16"
  shows "digit_char d \<noteq> CHR '':'' \<and> digit_char d \<noteq> CHR ''.'' \<and> digit_char d \<noteq> CHR ''-''"
proof -
  have "byte (digit_char d) \<in> {48..57} \<union> {97..102}"
    using assms byte_digit_char [of d] by auto
  moreover have "byte (CHR '':'') = 58" "byte (CHR ''.'') = 46" "byte (CHR ''-'') = 45"
    by (simp_all add: byte_def)
  ultimately show ?thesis by auto
qed

lemma fmt_int_plain:
  assumes "0 \<le> n" "2 \<le> base" "base \<le> 16"
  shows "CHR '':'' \<notin> set (fmt_int base w n) \<and> CHR ''.'' \<notin> set (fmt_int base w n)
    \<and> CHR ''-'' \<notin> set (fmt_int base w n)"
  using fmt_int_chars [OF assms] hex_char_plain by metis

lemma split_pair_dot:
  assumes "0 \<le> a" "a < 2 ^ 31" "0 \<le> b" "b < 2 ^ 31"
    and "2 \<le> base_a" "base_a \<le> 16" "2 \<le> base_b" "base_b \<le> 16" "sep \<in> {CHR ''.'', CHR ''-''}"
  shows "split_pair (fmt_int base_a w a @ sep # fmt_int base_b v b) base_a base_b = Some (a, b)"
proof -
  have "set (fmt_int base_a w a) \<inter> set ''-.'' = {}"
    using fmt_int_plain [of a base_a w] assms by auto
  then have "cut_any ''-.'' (fmt_int base_a w a @ sep # fmt_int base_b v b)
      = Some (fmt_int base_a w a, fmt_int base_b v b)"
    using assms(9) by (intro cut_any_append) auto
  then show ?thesis using assms by (simp add: split_pair_def parse_int_fmt_int)
qed

lemma pci_address_name:
  assumes "CHR '':'' \<notin> set domain"
    and "0 \<le> bus" "bus < 256" "0 \<le> slot" "slot < 32" "0 \<le> fn" "fn < 8"
  shows "pci_address (pci_name domain bus slot fn) = Some (bus * 256 + slot * 8 + fn)"
proof -
  let ?b = "fmt_int 16 2 bus" and ?sf = "fmt_int 16 2 slot @ CHR ''.'' # itoa fn"
  have c: "CHR '':'' \<notin> set ?b" "CHR '':'' \<notin> set ?sf"
    using fmt_int_plain [of bus 16 2] fmt_int_plain [of slot 16 2] fmt_int_plain [of fn 10 0] assms
    by (auto simp: itoa_def)
  have parts: "split_on (CHR '':'') (pci_name domain bus slot fn) = [domain, ?b, ?sf]"
    using split_on_append [OF assms(1)] split_on_append [OF c(1)] split_on_single [OF c(2)]
    by (simp add: pci_name_def)
  have "itoa fn = fmt_int 16 0 fn"
  proof -
    have "nat fn < 10" using assms by simp
    then have "digits 10 (nat fn) = [digit_char (nat fn)]" "digits 16 (nat fn) = [digit_char (nat fn)]"
      by (subst digits.simps, simp)+
    then show ?thesis using assms by (simp add: itoa_def fmt_int_def)
  qed
  then have "split_pair ?sf 16 16 = Some (slot, fn)"
    using assms by (auto intro: split_pair_dot)
  moreover have "parse_int 16 32 ?b = Inr bus"
    using assms by (intro parse_int_fmt_int) auto
  ultimately show ?thesis
    using fold_address [OF assms(2,4,5,6,7)] by (simp add: pci_address_def parts)
qed

lemma bus_address_pci:
  assumes "CHR '':'' \<notin> set domain"
    and "0 \<le> bus" "bus < 256" "0 \<le> slot" "slot < 32" "0 \<le> fn" "fn < 8"
  shows "bus_address ''pci'' (pci_name domain bus slot fn)
    = Some (''-pci-'' @ fmt_int 16 4 (bus * 256 + slot * 8 + fn))"
  using pci_address_name [OF assms] by (simp add: bus_address_def)

lemma pci_fold_inject:
  fixes bus :: int
  assumes "0 \<le> slot" "slot < 32" "0 \<le> fn" "fn < 8" "0 \<le> slot'" "slot' < 32" "0 \<le> fn'" "fn' < 8"
    and "bus * 256 + slot * 8 + fn = bus' * 256 + slot' * 8 + fn'"
  shows "bus = bus' \<and> slot = slot' \<and> fn = fn'"
proof -
  have parts: "(b * 256 + s * 8 + f) div 256 = b \<and> (b * 256 + s * 8 + f) mod 256 div 8 = s
      \<and> (b * 256 + s * 8 + f) mod 8 = f" if "0 \<le> s" "s < 32" "0 \<le> f" "f < 8" for b s f :: int
  proof -
    have "0 \<le> s * 8 + f" "s * 8 + f < 256" using that by linarith+
    then have "(b * 256 + (s * 8 + f)) div 256 = b" "(b * 256 + (s * 8 + f)) mod 256 = s * 8 + f"
      by simp_all
    moreover have "(s * 8 + f) div 8 = s" using that by simp
    moreover have "b * 256 + s * 8 + f = f + 8 * (b * 32 + s)" by simp
    then have "(b * 256 + s * 8 + f) mod 8 = f" using that by (simp only: mod_mult_self2) simp
    ultimately show ?thesis by (simp add: add.assoc)
  qed
  show ?thesis
    using parts [OF assms(1-4), of bus] parts [OF assms(5-8), of bus'] unfolding assms(9) by simp
qed

lemma bus_address_i2c:
  assumes "0 \<le> bus" "bus < 2 ^ 31" "0 \<le> addr" "addr < 2 ^ 31"
  shows "bus_address ''i2c'' (itoa bus @ ''-'' @ fmt_int 16 4 addr)
    = Some (''-i2c-'' @ itoa bus @ ''-'' @ fmt_int 16 2 addr)"
  using split_pair_dot [of bus addr 10 16 "CHR ''-''" 0 4] assms
  by (simp add: bus_address_def itoa_def)

section \<open>Readings\<close>

text \<open>
  Whatever changes between the calls: a reading is the integer that was in the sensor's file,
  and the device found in the sensor's directory afterwards is the chip the sensor was
  resolved against.
\<close>

lemma sensor_read_Inr:
  assumes "run_state (sensor_read s w) t = (Inr v, u)"
  obtains b where "fs_read (w t) (s_path s) = Inr b" "parse_int 10 64 (trim_space b) = Inr v"
    "run_state (chip_name (path_dir (s_path s)) w) (Suc t) = (Inr (s_chip s), u)"
  using assms unfolding sensor_read_def confirm_chip_def
  by (auto simp: results split: sum.splits prod.splits if_splits)

lemma sensor_read_in_i64:
  "run_state (sensor_read s w) t = (Inr v, u) \<Longrightarrow> in_i64 v"
  by (elim sensor_read_Inr) (drule parse_int_range, simp add: in_i64_def)

lemma sensor_read_replaced:
  assumes "steady w fs (Suc t)" and "snap (chip_name (path_dir (s_path s))) fs \<noteq> Inr (s_chip s)"
  shows "\<exists>e. fst (run_state (sensor_read s w) t) = Inl e"
proof (cases "run_state (sensor_read s w) t")
  case (Pair r u)
  show ?thesis
  proof (cases r)
    case (Inr v)
    with Pair obtain "run_state (chip_name (path_dir (s_path s)) w) (Suc t) = (Inr (s_chip s), u)"
      by (metis sensor_read_Inr)
    then show ?thesis
      using chip_name_op.snapshot_run [OF assms(1)] assms(2) by metis
  qed (simp add: Pair)
qed

text \<open>On a snapshot that still holds the chip, the reading is the file's integer.\<close>

lemma snap_confirm_chip:
  "snap (confirm_chip s) fs =
    (case snap (chip_name (path_dir (s_path s))) fs of
       Inl e \<Rightarrow> Inl (ConfirmFailed (sensor_name s) e)
     | Inr chip \<Rightarrow>
        if chip \<noteq> s_chip s then Inl (ChipReplaced (sensor_name s) (path_dir (s_path s)) chip)
        else Inr ())"
  unfolding confirm_chip_def
  by (simp add: snap_try snap_wrap os_op_wrap os_op_chip_name os_op_return split: sum.split)

lemma snap_sensor_read:
  "snap (sensor_read s) fs =
    (case fs_read fs (s_path s) of
       Inl e \<Rightarrow> Inl (ReadFailed (sensor_name s) e)
     | Inr b \<Rightarrow>
        (case parse_int 10 64 (trim_space b) of
           Inl e \<Rightarrow> Inl (NotInteger (sensor_name s) (trim_space b) e)
         | Inr v \<Rightarrow> and_then (snap (confirm_chip s) fs) (\<lambda>_. Inr v)))"
proof -
  have op: "os_op (\<lambda>w. case parse_int 10 64 (trim_space b) of
       Inl e \<Rightarrow> State_Monad.return (Inl (NotInteger (sensor_name s) (trim_space b) e))
     | Inr v \<Rightarrow> try_io (confirm_chip s w) (\<lambda>_. State_Monad.return (Inr v)))" for b
    by (intro os_op_case_sum os_op_try os_op_return os_op_confirm_chip)
  show ?thesis unfolding sensor_read_def
    by (subst snap_try [OF os_op_wrap [OF os_op_os_calls(2)] op])
      (simp add: snap_wrap os_op_os_calls snap_try os_op_confirm_chip os_op_return
        and_then_def split: sum.split)
qed

section \<open>Discovery\<close>

lemma temp_attr_Some:
  assumes "temp_attr f = Some ds"
  shows "f = ''temp'' @ ds @ ''_input''" "ds \<noteq> []" "\<forall>c \<in> set ds. is_digit c"
proof -
  have p: "has_prefix f ''temp''" and ds: "ds = takeWhile is_digit (drop 4 f)"
    and r: "dropWhile is_digit (drop 4 f) = ''_input''"
    using assms by (auto simp: temp_attr_def Let_def split: if_splits)
  then have "drop 4 f = ds @ ''_input''" by (metis takeWhile_dropWhile_id)
  then show "f = ''temp'' @ ds @ ''_input''"
    using p by (auto simp: has_prefix_def prefix_def)
  show "ds \<noteq> []" using assms by (auto simp: temp_attr_def Let_def split: if_splits)
  show "\<forall>c \<in> set ds. is_digit c" unfolding ds by (auto dest: set_takeWhileD)
qed

lemma temp_attr_input:
  assumes "ds \<noteq> []" "\<forall>c \<in> set ds. is_digit c"
  shows "temp_attr (''temp'' @ ds @ ''_input'') = Some ds"
proof -
  have "\<not> is_digit (CHR ''_'')" by (simp add: is_digit_def byte_def)
  then have "takeWhile is_digit (ds @ ''_input'') = ds" "dropWhile is_digit (ds @ ''_input'') = ''_input''"
    using assms(2) takeWhile_append_stop [of ds is_digit] dropWhile_append_stop [of ds is_digit]
    by blast+
  then show ?thesis using assms(1) by (simp add: temp_attr_def has_prefix_def)
qed

lemma temp_attr_plain: "temp_attr f = Some ds \<Longrightarrow> plain_name f"
proof -
  assume a: "temp_attr f = Some ds"
  have "CHR ''/'' \<notin> set ds"
    using temp_attr_Some(3) [OF a] by (auto simp: is_digit_def byte_def)
  then show ?thesis unfolding temp_attr_Some(1) [OF a] by (simp add: plain_name_def)
qed

text \<open>What every discovered sensor is, whatever changed while it was discovered.\<close>

definition sensor_of :: "string \<Rightarrow> string \<Rightarrow> string \<Rightarrow> sensor \<Rightarrow> bool" where
  "sensor_of dir chip f s \<longleftrightarrow>
    (\<exists>ds. temp_attr f = Some ds \<and> atoi ds = Inr (s_index s) \<and> s_attr s = ''temp'' @ ds
      \<and> trimmed (s_label s) \<and> s_chip s = chip \<and> s_path s = path_join dir f)"

lemma sensors_loop_sound:
  assumes "run_state (sensors_loop dir chip fs w) t = (out, u)" "s \<in> set out"
  shows "\<exists>f \<in> set fs. sensor_of dir chip f s"
  using assms
proof (induction fs arbitrary: t out u)
  case (Cons f fs)
  show ?case
  proof (cases "temp_attr f")
    case None
    then show ?thesis using Cons by auto
  next
    case ds: (Some ds)
    show ?thesis
    proof (cases "atoi ds")
      case (Inl e)
      then show ?thesis using Cons ds by auto
    next
      case (Inr idx)
      obtain rest u' where r: "run_state (sensors_loop dir chip fs w) (Suc t) = (rest, u')"
        by (cases "run_state (sensors_loop dir chip fs w) (Suc t)")
      from Cons.prems ds Inr r have "s \<in> set rest \<or>
          (s_chip s = chip \<and> s_attr s = ''temp'' @ ds \<and> s_index s = idx \<and> s_path s = path_join dir f
           \<and> trimmed (s_label s))"
        by (auto split: sum.split)
      then show ?thesis
      proof
        assume "s \<in> set rest"
        then show ?thesis using Cons.IH [OF r] by auto
      next
        assume "s_chip s = chip \<and> s_attr s = ''temp'' @ ds \<and> s_index s = idx
          \<and> s_path s = path_join dir f \<and> trimmed (s_label s)"
        then show ?thesis using ds Inr by (auto simp: sensor_of_def)
      qed
    qed
  qed
qed simp

lemma discover_loop_sound:
  assumes "run_state (discover_loop class_dir es w) t = (out, u)" "s \<in> set out"
  shows "\<exists>e \<in> set es. \<exists>chip f. sensor_of (path_join class_dir e) chip f s"
  using assms
proof (induction es arbitrary: t out u)
  case (Cons e es)
  obtain c t1 where c: "run_state (chip_name (path_join class_dir e) w) t = (c, t1)"
    by (cases "run_state (chip_name (path_join class_dir e) w) t")
  show ?case
  proof (cases c)
    case (Inl err)
    then show ?thesis using Cons c by auto
  next
    case (Inr chip)
    obtain r t2 where r: "run_state (chip_sensors (path_join class_dir e) chip w) t1 = (r, t2)"
      by (cases "run_state (chip_sensors (path_join class_dir e) chip w) t1")
    show ?thesis
    proof (cases r)
      case (Inl err)
      then show ?thesis using Cons c r Inr by auto
    next
      case ss: (Inr ss)
      obtain rest t3 where l: "run_state (discover_loop class_dir es w) t2 = (rest, t3)"
        by (cases "run_state (discover_loop class_dir es w) t2")
      then have "s \<in> set ss \<or> s \<in> set rest" using Cons.prems c r Inr ss by auto
      moreover have "\<exists>f. sensor_of (path_join class_dir e) chip f s" if "s \<in> set ss"
        using r ss that sensors_loop_sound [of "path_join class_dir e" chip _ w]
        by (fastforce simp: chip_sensors_def split: sum.splits prod.splits)
      ultimately show ?thesis using Cons.IH [OF l] by auto
    qed
  qed
qed simp

lemma discover_Inr:
  assumes "run_state (discover sort_slice class_dir w) t = (Inr out, u)"
  obtains es ss where "fs_dir (w t) class_dir = Inr es" "out = sort_slice sensor_less ss"
    "run_state (discover_loop class_dir es w) (Suc t) = (ss, u)"
proof (cases "fs_dir (w t) class_dir")
  case (Inl e)
  then show ?thesis using assms by (simp add: discover_def)
next
  case (Inr es)
  obtain ss u' where r: "run_state (discover_loop class_dir es w) (Suc t) = (ss, u')"
    by (cases "run_state (discover_loop class_dir es w) (Suc t)")
  then show ?thesis using assms Inr by (auto simp: discover_def intro: that)
qed

lemma strict_weak_sensor_less: "strict_weak sensor_less"
  unfolding strict_weak_def sensor_less_def by auto

text \<open>
  On a snapshot: the sensors of one device, and of the class, as a list comprehension over the
  directory listings.
\<close>

definition sensor_at :: "fs \<Rightarrow> string \<Rightarrow> string \<Rightarrow> string \<Rightarrow> sensor option" where
  "sensor_at st dir chip f =
    (case temp_attr f of
       None \<Rightarrow> None
     | Some ds \<Rightarrow>
        (case atoi ds of
           Inl _ \<Rightarrow> None
         | Inr idx \<Rightarrow> Some
            \<lparr>s_chip = chip, s_attr = ''temp'' @ ds,
             s_label = (case fs_read st (path_join dir (''temp'' @ ds @ ''_label'')) of
                Inl _ \<Rightarrow> [] | Inr txt \<Rightarrow> trim_space txt),
             s_index = idx, s_path = path_join dir f\<rparr>))"

definition device_sensors :: "fs \<Rightarrow> string \<Rightarrow> sensor list" where
  "device_sensors st dir =
    (case snap (chip_name dir) st of
       Inl _ \<Rightarrow> []
     | Inr chip \<Rightarrow>
        (case fs_dir st dir of
           Inl _ \<Rightarrow> []
         | Inr files \<Rightarrow> List.map_filter (sensor_at st dir chip) files))"

lemma snap_sensors_loop:
  "snap (sensors_loop dir chip fs) st = List.map_filter (sensor_at st dir chip) fs"
proof (induction fs)
  case Nil
  have "sensors_loop dir chip [] = (\<lambda>w. State_Monad.return [])" by (rule ext) simp
  then show ?case by (simp add: map_filter_simps)
next
  case (Cons f fs)
  show ?case
  proof (cases "sensor_at st dir chip f")
    case None
    then have "sensors_loop dir chip (f # fs) = sensors_loop dir chip fs"
      by (intro ext) (auto simp: sensor_at_def split: option.splits sum.splits)
    then show ?thesis using Cons None by (simp add: map_filter_simps)
  next
    case (Some s)
    then obtain ds idx where ds: "temp_attr f = Some ds" "atoi ds = Inr idx"
      by (auto simp: sensor_at_def split: option.splits sum.splits)
    let ?mk = "\<lambda>b. \<lparr>s_chip = chip, s_attr = ''temp'' @ ds,
                 s_label = (case b of Inl _ \<Rightarrow> [] | Inr txt \<Rightarrow> trim_space txt),
                 s_index = idx, s_path = path_join dir f\<rparr>"
    have eq: "sensors_loop dir chip (f # fs) = (\<lambda>w. do {
        b \<leftarrow> os_read_file (path_join dir (''temp'' @ ds @ ''_label'')) w;
        rest \<leftarrow> sensors_loop dir chip fs w;
        State_Monad.return (?mk b # rest) })"
      using ds by (intro ext) simp
    have op: "os_op (\<lambda>w. State_Monad.bind (sensors_loop dir chip fs w)
        (\<lambda>rest. State_Monad.return (?mk b # rest)))" for b
      by (intro os_op_bind os_op_return os_op_sensors_loop)
    have "snap (sensors_loop dir chip (f # fs)) st
        = ?mk (fs_read st (path_join dir (''temp'' @ ds @ ''_label'')))
          # snap (sensors_loop dir chip fs) st"
      unfolding eq
      by (subst snap_bind [OF os_op_os_calls(2) op])
        (simp add: snap_bind [OF os_op_sensors_loop os_op_return])
    moreover have "sensor_at st dir chip f
        = Some (?mk (fs_read st (path_join dir (''temp'' @ ds @ ''_label''))))"
      using ds by (simp add: sensor_at_def)
    ultimately show ?thesis by (simp only: map_filter_simps option.case Cons)
  qed
qed

lemma snap_chip_sensors:
  "snap (chip_sensors dir chip) st =
    (case fs_dir st dir of
       Inl e \<Rightarrow> Inl e | Inr files \<Rightarrow> Inr (List.map_filter (sensor_at st dir chip) files))"
proof -
  have op: "os_op (\<lambda>w. State_Monad.bind (sensors_loop dir chip files w)
      (\<lambda>out. State_Monad.return (Inr out)))" for files
    by (intro os_op_bind os_op_return os_op_sensors_loop)
  show ?thesis unfolding chip_sensors_def
    by (subst snap_try [OF os_op_os_calls(4) op])
      (simp add: snap_bind [OF os_op_sensors_loop os_op_return] snap_sensors_loop split: sum.split)
qed

lemma snap_discover_loop:
  "snap (discover_loop class_dir es) st
    = concat (map (\<lambda>e. device_sensors st (path_join class_dir e)) es)"
proof (induction es)
  case Nil
  have "discover_loop class_dir [] = (\<lambda>w. State_Monad.return [])" by (rule ext) simp
  then show ?case by simp
next
  case (Cons e es)
  let ?d = "path_join class_dir e"
  have op: "os_op (\<lambda>w. case r of
       Inl _ \<Rightarrow> discover_loop class_dir es w
     | Inr sensors \<Rightarrow> do {
         rest \<leftarrow> discover_loop class_dir es w;
         State_Monad.return (sensors @ rest) })" for r :: "io_err + sensor list"
    by (intro os_op_case_sum os_op_bind os_op_return os_op_discover_loop)
  have op2: "os_op (\<lambda>w. case c of
       Inl _ \<Rightarrow> discover_loop class_dir es w
     | Inr chip \<Rightarrow> do {
         r \<leftarrow> chip_sensors ?d chip w;
         (case r of
            Inl _ \<Rightarrow> discover_loop class_dir es w
          | Inr sensors \<Rightarrow> do {
              rest \<leftarrow> discover_loop class_dir es w;
              State_Monad.return (sensors @ rest) }) })" for c :: "chip_error + string"
    by (intro os_op_case_sum os_op_bind os_op_return os_op_discover_loop os_op_chip_sensors)
  have eq: "discover_loop class_dir (e # es) = (\<lambda>w. State_Monad.bind (chip_name ?d w)
      (\<lambda>c. case c of
       Inl _ \<Rightarrow> discover_loop class_dir es w
     | Inr chip \<Rightarrow> do {
         r \<leftarrow> chip_sensors ?d chip w;
         (case r of
            Inl _ \<Rightarrow> discover_loop class_dir es w
          | Inr sensors \<Rightarrow> do {
              rest \<leftarrow> discover_loop class_dir es w;
              State_Monad.return (sensors @ rest) }) }))"
    by (rule ext) simp
  show ?case unfolding eq
    by (subst snap_bind [OF os_op_chip_name op2])
      (auto simp: Cons device_sensors_def snap_bind [OF os_op_chip_sensors op] snap_chip_sensors
        snap_bind [OF os_op_discover_loop os_op_return] split: sum.split)
qed

lemma snap_discover:
  "snap (discover sort_slice class_dir) st =
    (case fs_dir st class_dir of
       Inl e \<Rightarrow> Inl (''list hwmon devices: '' @ e)
     | Inr es \<Rightarrow> Inr (sort_slice sensor_less
         (concat (map (\<lambda>e. device_sensors st (path_join class_dir e)) es))))"
proof -
  have op: "os_op (\<lambda>w. State_Monad.bind (discover_loop class_dir es w)
      (\<lambda>out. State_Monad.return (Inr (sort_slice sensor_less out))))" for es
    by (intro os_op_bind os_op_return os_op_discover_loop)
  show ?thesis unfolding discover_def
    by (subst snap_try [OF os_op_wrap [OF os_op_os_calls(4)] op])
      (simp add: snap_wrap os_op_os_calls snap_bind [OF os_op_discover_loop os_op_return]
        snap_discover_loop split: sum.split)
qed

lemma path_dir_entry:
  assumes "plain_name f" "class_dir \<noteq> []"
  shows "path_dir (path_join (path_join class_dir e) f) = path_join class_dir e"
proof -
  have "path_join class_dir e \<noteq> []"
    using assms(2) render_nonempty [OF norm_props] by (simp add: path_join_def clean_def)
  then show ?thesis
    using path_dir_join [OF assms(1), of "path_join class_dir e"] assms(2)
    by (simp add: path_join_def)
qed

lemma sensor_at_Some:
  assumes "sensor_at st dir chip f = Some s"
  shows "sensor_of dir chip f s"
  using assms by (auto simp: sensor_at_def sensor_of_def split: option.splits sum.splits)

lemma device_sensors_in:
  "s \<in> set (device_sensors st dir) \<longleftrightarrow>
    (\<exists>chip files f. snap (chip_name dir) st = Inr chip \<and> fs_dir st dir = Inr files
      \<and> f \<in> set files \<and> sensor_at st dir chip f = Some s)"
  by (cases "snap (chip_name dir) st"; cases "fs_dir st dir")
    (auto simp: device_sensors_def in_map_filter)

section \<open>A sample node\<close>

definition sample :: fs where
  "sample = node ''45000'' ''46500'' []"

definition sample_sensors :: "sensor list" where
  "sample_sensors =
    [\<lparr>s_chip = ''k10temp-pci-00c3'', s_attr = ''temp1'', s_label = ''Tctl'', s_index = 1,
      s_path = ''/sys/class/hwmon/hwmon0/temp1_input''\<rparr>,
     \<lparr>s_chip = ''k10temp-pci-00c3'', s_attr = ''temp3'', s_label = ''Tccd1'', s_index = 3,
      s_path = ''/sys/class/hwmon/hwmon0/temp3_input''\<rparr>,
     \<lparr>s_chip = ''k10temp-pci-00cb'', s_attr = ''temp1'', s_label = ''Tctl'', s_index = 1,
      s_path = ''/sys/class/hwmon/hwmon1/temp1_input''\<rparr>]"

lemma discover_sample:
  "run_state (discover insertion_sort class_path (\<lambda>_. sample)) 0 = (Inr sample_sensors, 12)"
  by code_simp

section \<open>Properties\<close>

text \<open>
  C27: whatever changes in the tree while it is scanned, every sensor \<open>Discover\<close> returns
  stands for a file \<open>temp<N>_input\<close> of the directory of one of the listed devices: its
  attribute, its number and its path are that file's, its label is trimmed, and the directory
  of its path is the device's. The list is sorted by chip and then by number.
\<close>

theorem discover_sound:
  assumes srt: "slice_sort sort_slice" and dir: "class_dir \<noteq> []"
    and run: "run_state (discover sort_slice class_dir w) t = (Inr out, u)"
  shows "in_order sensor_less out \<and>
    (\<forall>s \<in> set out. \<exists>es e ds. fs_dir (w t) class_dir = Inr es \<and> e \<in> set es
      \<and> ds \<noteq> [] \<and> (\<forall>c \<in> set ds. is_digit c) \<and> atoi ds = Inr (s_index s)
      \<and> s_attr s = ''temp'' @ ds \<and> trimmed (s_label s)
      \<and> s_path s = path_join (path_join class_dir e) (s_attr s @ ''_input'')
      \<and> path_dir (s_path s) = path_join class_dir e)"
proof -
  obtain es ss where es: "fs_dir (w t) class_dir = Inr es" and out: "out = sort_slice sensor_less ss"
    and loop: "run_state (discover_loop class_dir es w) (Suc t) = (ss, u)"
    using discover_Inr [OF run] .
  have "in_order sensor_less out"
    unfolding out by (rule slice_sort.ordered [OF srt strict_weak_sensor_less])
  moreover have "\<exists>es e ds. fs_dir (w t) class_dir = Inr es \<and> e \<in> set es
      \<and> ds \<noteq> [] \<and> (\<forall>c \<in> set ds. is_digit c) \<and> atoi ds = Inr (s_index s)
      \<and> s_attr s = ''temp'' @ ds \<and> trimmed (s_label s)
      \<and> s_path s = path_join (path_join class_dir e) (s_attr s @ ''_input'')
      \<and> path_dir (s_path s) = path_join class_dir e" if "s \<in> set out" for s
  proof -
    have "s \<in> set ss" using that unfolding out slice_sort.set_sort_slice [OF srt] .
    then obtain e chip f where e: "e \<in> set es" and "sensor_of (path_join class_dir e) chip f s"
      using discover_loop_sound [OF loop] by blast
    then obtain ds where ds: "temp_attr f = Some ds" "atoi ds = Inr (s_index s)"
      "s_attr s = ''temp'' @ ds" "trimmed (s_label s)" "s_path s = path_join (path_join class_dir e) f"
      by (auto simp: sensor_of_def)
    have "f = s_attr s @ ''_input''" using temp_attr_Some(1) [OF ds(1)] ds(3) by simp
    moreover have "path_dir (s_path s) = path_join class_dir e"
      using path_dir_entry [OF temp_attr_plain [OF ds(1)] dir] ds(5) by simp
    ultimately show ?thesis using es e ds temp_attr_Some(2,3) [OF ds(1)] by blast
  qed
  ultimately show ?thesis by blast
qed

theorem discover_sound_witness:
  "in_order sensor_less sample_sensors
    \<and> (\<exists>es. fs_dir sample class_path = Inr es \<and> es \<noteq> [])"
proof -
  have "class_path \<noteq> []" by (simp add: class_path_def)
  note s = discover_sound [OF insertion.slice_sort_axioms this discover_sample]
  then have "\<exists>es e. fs_dir sample class_path = Inr es \<and> e \<in> set es"
    by (auto simp: sample_sensors_def)
  then show ?thesis using s by auto
qed

text \<open>
  C28: discovery is complete. On a tree that does not change meanwhile, every
  \<open>temp<N>_input\<close> file of every listed device whose chip can be named is among the sensors
  found, under the chip's name and with the trimmed label of its label file.
\<close>

theorem discover_complete:
  assumes srt: "slice_sort sort_slice" and st: "steady w st t"
    and run: "run_state (discover sort_slice class_dir w) t = (Inr out, u)"
    and listed: "fs_dir st class_dir = Inr es" "e \<in> set es"
    and chip: "snap (chip_name (path_join class_dir e)) st = Inr chip"
    and files: "fs_dir st (path_join class_dir e) = Inr files"
      "''temp'' @ ds @ ''_input'' \<in> set files"
    and ds: "ds \<noteq> []" "\<forall>c \<in> set ds. is_digit c" "atoi ds = Inr n"
  shows "\<lparr>s_chip = chip, s_attr = ''temp'' @ ds,
      s_label = (case fs_read st (path_join (path_join class_dir e) (''temp'' @ ds @ ''_label'')) of
         Inl _ \<Rightarrow> [] | Inr txt \<Rightarrow> trim_space txt),
      s_index = n, s_path = path_join (path_join class_dir e) (''temp'' @ ds @ ''_input'')\<rparr> \<in> set out"
    (is "?s \<in> set out")
proof -
  have "Inr out = snap (discover sort_slice class_dir) st"
    using discover_op.snapshot_run [OF st run] .
  then have "set out = set (concat (map (\<lambda>e. device_sensors st (path_join class_dir e)) es))"
    using slice_sort.set_sort_slice [OF srt] by (simp add: snap_discover listed)
  moreover have "sensor_at st (path_join class_dir e) chip (''temp'' @ ds @ ''_input'') = Some ?s"
    using temp_attr_input [OF ds(1,2)] ds(3) by (simp add: sensor_at_def)
  then have "?s \<in> set (device_sensors st (path_join class_dir e))"
    using chip files device_sensors_in by blast
  ultimately show ?thesis using listed(2) by auto
qed

theorem discover_complete_witness:
  "\<lparr>s_chip = ''k10temp-pci-00cb'', s_attr = ''temp'' @ ''1'',
      s_label = (case fs_read sample (path_join (path_join class_path ''hwmon1'') (''temp'' @ ''1'' @ ''_label'')) of
         Inl _ \<Rightarrow> [] | Inr txt \<Rightarrow> trim_space txt),
      s_index = 1, s_path = path_join (path_join class_path ''hwmon1'') (''temp'' @ ''1'' @ ''_input'')\<rparr>
    \<in> set sample_sensors"
proof (rule discover_complete [OF insertion.slice_sort_axioms steady_const discover_sample])
  show "fs_dir sample class_path = Inr [''hwmon0'', ''hwmon1'']" by code_simp
  show "snap (chip_name (path_join class_path ''hwmon1'')) sample = Inr ''k10temp-pci-00cb''" by code_simp
  show "fs_dir sample (path_join class_path ''hwmon1'')
      = Inr [''device'', ''name'', ''temp1_input'', ''temp1_label'']" by code_simp
  show "atoi ''1'' = Inr 1" by code_simp
qed (simp_all add: is_digit_def byte_def)

text \<open>
  C29: discovery and reading agree. If the tree does not change from the moment discovery
  starts, reading a discovered sensor at any later time reports what its file holds: the
  check that the device is still the one resolved never fails on an unchanged node.
\<close>

theorem discovered_sensor_reads:
  assumes srt: "slice_sort sort_slice" and dir: "class_dir \<noteq> []" and st: "steady w st t"
    and run: "run_state (discover sort_slice class_dir w) t = (Inr out, u)"
    and s: "s \<in> set out" and later: "t \<le> t'"
  shows "fst (run_state (sensor_read s w) t') =
    (case fs_read st (s_path s) of
       Inl e \<Rightarrow> Inl (ReadFailed (sensor_name s) e)
     | Inr b \<Rightarrow> wrap_err (NotInteger (sensor_name s) (trim_space b)) (parse_int 10 64 (trim_space b)))"
proof -
  have "Inr out = snap (discover sort_slice class_dir) st"
    using discover_op.snapshot_run [OF st run] .
  then obtain es e where "s \<in> set (device_sensors st (path_join class_dir e))"
    using s slice_sort.set_sort_slice [OF srt] by (auto simp: snap_discover split: sum.splits)
  then obtain chip f where c: "snap (chip_name (path_join class_dir e)) st = Inr chip"
    and f: "sensor_of (path_join class_dir e) chip f s"
    using device_sensors_in sensor_at_Some by blast
  then have "path_dir (s_path s) = path_join class_dir e" "s_chip s = chip"
    using path_dir_entry [OF temp_attr_plain dir] by (auto simp: sensor_of_def)
  then have "snap (confirm_chip s) st = Inr ()" using c by (simp add: snap_confirm_chip)
  then show ?thesis
    using sensor_read_op.snapshot [OF steady_later [OF st later]]
    by (simp add: snap_sensor_read split: sum.split)
qed

theorem discovered_sensor_reads_witness:
  "fst (run_state (sensor_read (sample_sensors ! 2) (\<lambda>_. sample)) 42) = Inr 46500"
proof -
  have "class_path \<noteq> []" by (simp add: class_path_def)
  note r = discovered_sensor_reads
    [OF insertion.slice_sort_axioms this steady_const discover_sample, of "sample_sensors ! 2" 42]
  have "sample_sensors ! 2 \<in> set sample_sensors" by (simp add: sample_sensors_def)
  moreover have "fs_read sample (s_path (sample_sensors ! 2)) = Inr (''46500'' @ [newline])" by code_simp
  moreover have "parse_int 10 64 (trim_space (''46500'' @ [newline])) = Inr 46500" by code_simp
  ultimately show ?thesis using r by simp
qed

text \<open>
  C31: a reading is confirmed. Whatever changes between the calls, a reading that
  \<open>Sensor.Read\<close> returns is the integer that was in the sensor's file, it fits an
  \<open>int64\<close>, and the device found in the file's directory after the file was read is the chip
  the sensor was resolved against.
\<close>

theorem reading_confirmed:
  assumes "run_state (sensor_read s w) t = (Inr v, u)"
  shows "in_i64 v \<and> (\<exists>b. fs_read (w t) (s_path s) = Inr b \<and> parse_int 10 64 (trim_space b) = Inr v)
    \<and> run_state (chip_name (path_dir (s_path s)) w) (Suc t) = (Inr (s_chip s), u)"
  using sensor_read_Inr [OF assms] sensor_read_in_i64 [OF assms] by blast

theorem reading_confirmed_witness:
  "in_i64 45000 \<and> run_state (chip_name (path_dir (s_path (hd sample_sensors))) (\<lambda>_. sample)) 1
    = (Inr ''k10temp-pci-00c3'', 4)"
proof -
  have "run_state (sensor_read (hd sample_sensors) (\<lambda>_. sample)) 0 = (Inr 45000, 4)" by code_simp
  from reading_confirmed [OF this] show ?thesis by (simp add: sample_sensors_def)
qed

text \<open>
  A device that took the place of the resolved one is never reported as it. If the
  directory of a sensor holds another chip, or none, from the moment after its file is read,
  the reading fails.
\<close>

theorem replaced_device_fails:
  assumes "steady w st (Suc t)" and "snap (chip_name (path_dir (s_path s))) st \<noteq> Inr (s_chip s)"
  shows "\<exists>e. fst (run_state (sensor_read s w) t) = Inl e"
  by (rule sensor_read_replaced [OF assms])

theorem replaced_device_fails_witness:
  "\<exists>e. fst (run_state (sensor_read ((hd sample_sensors)\<lparr>s_chip := ''nvme-pci-0100''\<rparr>)
     (\<lambda>_. sample)) 7) = Inl e"
proof (rule replaced_device_fails [OF steady_const])
  have "snap (chip_name (path_dir (s_path ((hd sample_sensors)\<lparr>s_chip := ''nvme-pci-0100''\<rparr>)))) sample
      = Inr ''k10temp-pci-00c3''" by code_simp
  then show "snap (chip_name (path_dir (s_path ((hd sample_sensors)\<lparr>s_chip := ''nvme-pci-0100''\<rparr>)))) sample
      \<noteq> Inr (s_chip ((hd sample_sensors)\<lparr>s_chip := ''nvme-pci-0100''\<rparr>))" by simp
qed

text \<open>
  PCI addresses. The suffix composed for a PCI device shows bus, slot and function in
  one hexadecimal number; two devices get the same one exactly if they agree on all three,
  whatever their PCI domains are.
\<close>

theorem pci_suffix_identifies:
  assumes "CHR '':'' \<notin> set domain" "CHR '':'' \<notin> set domain'"
    and "0 \<le> bus" "bus < 256" "0 \<le> slot" "slot < 32" "0 \<le> fn" "fn < 8"
    and "0 \<le> bus'" "bus' < 256" "0 \<le> slot'" "slot' < 32" "0 \<le> fn'" "fn' < 8"
  shows "bus_address ''pci'' (pci_name domain bus slot fn)
      = Some (''-pci-'' @ fmt_int 16 4 (bus * 256 + slot * 8 + fn))
    \<and> (bus_address ''pci'' (pci_name domain bus slot fn) = bus_address ''pci'' (pci_name domain' bus' slot' fn')
       \<longleftrightarrow> bus = bus' \<and> slot = slot' \<and> fn = fn')"
proof -
  have inj: "fmt_int 16 4 (bus * 256 + slot * 8 + fn) = fmt_int 16 4 (bus' * 256 + slot' * 8 + fn')
      \<Longrightarrow> bus = bus' \<and> slot = slot' \<and> fn = fn'"
    using assms by (intro pci_fold_inject [of slot fn slot' fn']
      fmt_int_inject [of 16 "bus * 256 + slot * 8 + fn"]) (simp_all add: in_i64_def)
  show ?thesis
    using bus_address_pci [OF assms(1,3-8)] bus_address_pci [OF assms(2,9-14)] inj by auto
qed

theorem pci_suffix_identifies_witness:
  "bus_address ''pci'' (pci_name ''0000'' 0 24 3) = Some (''-pci-'' @ fmt_int 16 4 195)"
  using pci_suffix_identifies [of "''0000''" "''0001''" 0 24 3 0 25 3] by simp

text \<open>
  Temperatures print exactly. A number of millidegrees below 2 to the 24th prints, through
  \<open>float64\<close>, as its own decimal with three places: no log line or status rounds a reading.
\<close>

theorem mc_string_exact:
  assumes "\<bar>m\<bar> < 2 ^ 24"
  shows "mc_string m = show_signed m @ ''C''"
  using format_f3_exact [OF assms] by (metis mc_string_def)

theorem mc_string_exact_witness: "mc_string 85001 = ''85.001C'' \<and> mc_string (-500) = ''-0.500C''"
proof -
  have "show_signed 85001 = ''85.001''" "show_signed (-500) = ''-0.500''" by code_simp+
  then show ?thesis using mc_string_exact [of 85001] mc_string_exact [of "-500"] by simp
qed

end
