(* ===== verification/Chip_Names.thy ===== *)
theory Chip_Names
  imports Hwmon
begin

text \<open>
  What the name of a chip says, stated over the tree instead of the walk through it: the driver's name
  and the address of the first device up the chain of \<open>device\<close> links that sits on a bus.
\<close>

section \<open>Addresses\<close>

text \<open>Where a device sits: its place on the bus, and what the kernel and libsensors call it.\<close>

datatype address =
    Pci string int int int
  | I2c int int
  | Spi int int
  | Isa string int
  | IsaUnnumbered string
  | Acpi string

fun known_as :: "address \<Rightarrow> string" where
  "known_as (Pci domain bus slot fn) = pci_name domain bus slot fn"
| "known_as (I2c bus addr) = itoa bus @ ''-'' @ fmt_int 16 4 addr"
| "known_as (Spi bus cs) = ''spi'' @ itoa bus @ ''.'' @ itoa cs"
| "known_as (Isa driver n) = driver @ ''.'' @ itoa n"
| "known_as (IsaUnnumbered name) = name"
| "known_as (Acpi name) = name"

fun libsensors :: "address \<Rightarrow> string" where
  "libsensors (Pci domain bus slot fn) = ''-pci-'' @ fmt_int 16 4 (bus * 256 + slot * 8 + fn)"
| "libsensors (I2c bus addr) = ''-i2c-'' @ itoa bus @ ''-'' @ fmt_int 16 2 addr"
| "libsensors (Spi bus cs) = ''-spi-'' @ itoa bus @ ''-'' @ fmt_int 16 0 cs"
| "libsensors (Isa driver n) = ''-isa-'' @ fmt_int 16 4 n"
| "libsensors (IsaUnnumbered name) = ''-isa-0000''"
| "libsensors (Acpi name) = ''-acpi-0''"

fun of_bus :: "string \<Rightarrow> address \<Rightarrow> bool" where
  "of_bus b (Pci domain bus slot fn) \<longleftrightarrow> b = ''pci'' \<and> CHR '':'' \<notin> set domain
    \<and> 0 \<le> bus \<and> bus < 256 \<and> 0 \<le> slot \<and> slot < 32 \<and> 0 \<le> fn \<and> fn < 8"
| "of_bus b (I2c bus addr) \<longleftrightarrow> b = ''i2c'' \<and> 0 \<le> bus \<and> bus < 2 ^ 31 \<and> 0 \<le> addr \<and> addr < 2 ^ 31"
| "of_bus b (Spi bus cs) \<longleftrightarrow> b = ''spi'' \<and> 0 \<le> bus \<and> bus < 2 ^ 31 \<and> 0 \<le> cs \<and> cs < 2 ^ 31"
| "of_bus b (Isa driver n) \<longleftrightarrow> b \<in> {''platform'', ''of_node''} \<and> 0 \<le> n \<and> n < 2 ^ 31"
| "of_bus b (IsaUnnumbered name) \<longleftrightarrow> b \<in> {''platform'', ''of_node''} \<and> CHR ''.'' \<notin> set name"
| "of_bus b (Acpi name) \<longleftrightarrow> b = ''acpi''"

section \<open>The switch over the bus\<close>

lemma itoa_digits: "0 \<le> n \<Longrightarrow> itoa n = zero_pad 0 (digits 10 (nat n))"
  by (simp add: itoa_def fmt_int_def)

lemma parse_int_base0:
  assumes "0 \<le> n" "n < 2 ^ 31"
  shows "parse_int 0 32 (itoa n) = Inr n"
proof (cases "n = 0")
  case True
  have "parse_int 0 32 (itoa 0) = Inr 0" by code_simp
  then show ?thesis using True by simp
next
  case False
  let ?s = "digits 10 (nat n)"
  have s: "itoa n = ?s" "?s \<noteq> []" using assms(1) itoa_digits by (simp_all add: zero_pad_def digits_length_pos)
  from False assms(1) have "0 < nat n" by simp
  from hd_digits_nonzero [OF this] obtain d where d0: "0 < d" "d < 10" "hd ?s = digit_char d" by blast
  have nz: "?s ! 0 \<noteq> CHR ''0''"
    unfolding hd_conv_nth [OF s(2), symmetric] d0(3) by (rule digit_char_nonzero [OF d0(1,2)])
  have "nat n \<le> 2 ^ 32 - 1" using assms by simp
  then have "uint_loop 10 True (2 ^ 32 - 1) ?s 0 False = Inr (nat n, False)" by (intro uint_loop_digits) simp_all
  then have u: "parse_uint 0 32 ?s = Inr (nat n)" using s(2) nz by (simp add: parse_uint_def base_prefix_def)
  have d: "drop_sign ?s = ?s" "hd ?s \<noteq> CHR ''-''" using drop_sign_pad [of 10 0 "nat n"] by (simp_all add: zero_pad_def)
  show ?thesis using u d s assms by (simp add: parse_int_def)
qed

lemma itoa_plain: "0 \<le> n \<Longrightarrow> CHR ''.'' \<notin> set (itoa n)"
  using fmt_int_plain [of n 10 0] by (simp add: itoa_def)

lemma bus_address_libsensors:
  assumes "of_bus b a"
  shows "bus_address b (known_as a) = Some (libsensors a)"
proof (cases a)
  case (Pci domain bus slot fn)
  then show ?thesis using assms by (simp add: bus_address_pci)
next
  case (I2c bus addr)
  then show ?thesis using assms bus_address_i2c [of bus addr] by simp
next
  case (Spi bus cs)
  have "split_pair (itoa bus @ ''.'' @ itoa cs) 10 10 = Some (bus, cs)"
    using split_pair_dot [of bus cs 10 10 "CHR ''.''" 0 0] assms Spi by (simp add: itoa_def)
  then show ?thesis using assms Spi by (simp add: bus_address_def trim_prefix_def has_prefix_def)
next
  case (Isa driver n)
  have "after_last (CHR ''.'') (driver @ CHR ''.'' # itoa n) = Some (itoa n)"
    using assms Isa by (intro after_last_append itoa_plain) simp
  then have "isa_address (known_as a) = n"
    using assms Isa parse_int_base0 by (simp add: isa_address_def)
  then show ?thesis using assms Isa by (auto simp: bus_address_def)
next
  case (IsaUnnumbered name)
  then have "isa_address (known_as a) = 0" using assms by (simp add: isa_address_def after_last_def)
  moreover have "fmt_int 16 4 0 = ''0000''" by code_simp
  ultimately show ?thesis using assms IsaUnnumbered by (auto simp: bus_address_def)
next
  case (Acpi name)
  then show ?thesis using assms by (simp add: bus_address_def)
qed

section \<open>The chain of devices\<close>

definition sits_on :: "fs \<Rightarrow> string \<Rightarrow> address \<Rightarrow> bool" where
  "sits_on st dev a \<longleftrightarrow> (\<exists>link. fs_link st (path_join dev ''subsystem'') = Inr link
    \<and> of_bus (path_base link) a \<and> path_base dev = known_as a)"

definition off_bus :: "fs \<Rightarrow> string \<Rightarrow> bool" where
  "off_bus st dev \<longleftrightarrow> (\<forall>link. fs_link st (path_join dev ''subsystem'') = Inr link
    \<longrightarrow> path_base link \<notin> {''i2c'', ''spi'', ''pci'', ''acpi'', ''platform'', ''of_node''})"

text \<open>Up the \<open>device\<close> links from a device, looking at so many of them: the first one that is on a bus.\<close>

inductive addressed :: "fs \<Rightarrow> nat \<Rightarrow> string \<Rightarrow> address option \<Rightarrow> bool" for st where
  here: "addressed st (Suc n) dev (Some a)" if "sits_on st dev a"
| up: "addressed st (Suc n) dev a" if "off_bus st dev" "fs_link st (path_join dev ''device'') = Inr dev'"
    "dev' \<noteq> dev" "addressed st n dev' a"
| top: "addressed st (Suc n) dev None" if "off_bus st dev" "fs_link st (path_join dev ''device'') \<in> range Inl \<union> {Inr dev}"
| too_far: "addressed st 0 dev None"

lemma run_bus_suffix:
  "sits_on st dev a \<Longrightarrow> run_state (bus_suffix dev w) t = (Some (libsensors a), Suc t)"
  "off_bus st dev \<Longrightarrow> run_state (bus_suffix dev w) t = (None, Suc t)" if "w t = st"
  using that
  by (auto simp: bus_suffix_def sits_on_def bus_address_libsensors)
    (auto simp: off_bus_def bus_address_def split: sum.split)

lemma device_walk_addressed:
  assumes "addressed st n dev a" "steady w st t"
  shows "fst (run_state (device_walk n dev w) t) = map_option libsensors a"
  using assms
proof (induction arbitrary: t rule: addressed.induct)
  case (here dev a n)
  have "w t = st" using here.prems by (rule steady_now)
  then show ?case using run_bus_suffix(1) [of w t st dev a] here.hyps by simp
next
  case (up dev dev' n a)
  have w: "w t = st" "w (Suc t) = st" "steady w st (Suc (Suc t))" using up.prems by (simp_all add: steady_def)
  then show ?case using up run_bus_suffix(2) [of w t st dev] by (simp split: option.split)
next
  case (top dev n)
  have w: "w t = st" "w (Suc t) = st" using top.prems by (simp_all add: steady_def)
  then show ?case using top run_bus_suffix(2) [of w t st dev] by (auto split: option.split)
qed simp

text \<open>
  C32: what a chip is called. On a tree that does not change meanwhile, the name is the driver's,
  trimmed, with the address of the first device on a bus among the eight that the \<open>device\<close> links lead
  up to, as libsensors writes it: bus, slot and function of a PCI device folded into one number in
  hexadecimal, bus and address of an I2C device, bus and chip select of an SPI device, the number of a
  platform device; and \<open>-virtual-0\<close> if there is none or no device at all. A driver without a name has
  no chip. And however the tree changes, also with links that go round in circles, composing the name
  takes at most eighteen system calls.
\<close>

theorem chip_name_composed:
  assumes "steady w st t"
  shows "snd (run_state (chip_name dir v) t') \<le> t' + 18
    \<and> (fs_read st (path_join dir ''name'') = Inr b \<and> trim_space b \<noteq> [] \<longrightarrow>
        (\<forall>dev a. fs_link st (path_join dir ''device'') = Inr dev \<and> addressed st 8 dev a \<longrightarrow>
          fst (run_state (chip_name dir w) t)
            = Inr (trim_space b @ (case a of None \<Rightarrow> ''-virtual-0'' | Some addr \<Rightarrow> libsensors addr)))
        \<and> (fs_link st (path_join dir ''device'') \<in> range Inl \<longrightarrow>
          fst (run_state (chip_name dir w) t) = Inr (trim_space b @ ''-virtual-0'')))
    \<and> (fs_read st (path_join dir ''name'') = Inr b \<and> trim_space b = [] \<longrightarrow>
        fst (run_state (chip_name dir w) t) = Inl EmptyName)
    \<and> (fs_read st (path_join dir ''name'') = Inl e \<longrightarrow> fst (run_state (chip_name dir w) t) = Inl (NameUnreadable e))"
proof (intro conjI allI impI)
  have w: "w t = st" "w (Suc t) = st" "steady w st (Suc (Suc t))" using assms by (simp_all add: steady_def)
  show "snd (run_state (chip_name dir v) t') \<le> t' + 18" by (rule chip_name_time)
  show "fst (run_state (chip_name dir w) t)
      = Inr (trim_space b @ (case a of None \<Rightarrow> ''-virtual-0'' | Some addr \<Rightarrow> libsensors addr))"
    if "fs_read st (path_join dir ''name'') = Inr b \<and> trim_space b \<noteq> []"
      "fs_link st (path_join dir ''device'') = Inr dev \<and> addressed st 8 dev a" for dev a
  proof -
    obtain sfx u where "run_state (device_walk 8 dev w) (Suc (Suc t)) = (sfx, u)" by (metis prod.collapse)
    moreover from this have "sfx = map_option libsensors a"
      using device_walk_addressed [of st 8 dev a w "Suc (Suc t)"] w(3) that(2) by simp
    ultimately show ?thesis using that w by (cases a) (simp_all add: chip_name_def Let_def max_device_links_def)
  qed
qed (use assms in \<open>auto simp: chip_name_def Let_def steady_def\<close>)

theorem chip_name_composed_witness:
  "fst (run_state (chip_name ''/sys/class/hwmon/hwmon0'' (\<lambda>_. sample)) 3) = Inr (''k10temp'' @ ''-pci-'' @ fmt_int 16 4 195)"
proof -
  let ?dir = "''/sys/class/hwmon/hwmon0''" and ?dev = "''/sys/devices/0000:00:18.3''"
  have n: "fs_read sample (path_join ?dir ''name'') = Inr (''k10temp'' @ [newline])"
    and d: "fs_link sample (path_join ?dir ''device'') = Inr ?dev"
    and s: "fs_link sample (path_join ?dev ''subsystem'') = Inr ''/sys/bus/pci''"
    and b: "path_base ''/sys/bus/pci'' = ''pci''" "path_base ?dev = known_as (Pci ''0000'' 0 24 3)"
    and t: "trim_space (''k10temp'' @ [newline]) = ''k10temp''"
    by (code_simp, code_simp, code_simp, code_simp, code_simp, code_simp)
  have "sits_on sample ?dev (Pci ''0000'' 0 24 3)" unfolding sits_on_def using s b by simp
  then have "addressed sample (Suc 7) ?dev (Some (Pci ''0000'' 0 24 3))" by (rule addressed.here)
  then have "addressed sample 8 ?dev (Some (Pci ''0000'' 0 24 3))" by simp
  from chip_name_composed [OF steady_const, where dir = ?dir and st = sample and t = 3 and b = "''k10temp'' @ [newline]"] this n d t
  show ?thesis by auto
qed

end
