(* ===== verification/Go_Flag.thy ===== *)
theory Go_Flag
  imports Go_Float
begin

text \<open>
  The part of Go's \<open>flag\<close> package and of \<open>time.ParseDuration\<close> that turns command line
  arguments into options: the grammar of one argument, and the values of boolean, integer and
  duration flags.
\<close>

section \<open>Durations\<close>

definition digit_num :: "char \<Rightarrow> nat" where
  "digit_num c = byte c - 48"

text \<open>The digits in front: at most \<open>1 << 63\<close>, else an overflow.\<close>

fun leading_int :: "nat \<Rightarrow> string \<Rightarrow> (nat \<times> string) option" where
  "leading_int x [] = Some (x, [])"
| "leading_int x (c # s) =
    (if is_digit c then
       (if x > 2 ^ 63 div 10 then None
        else let y = x * 10 + digit_num c in
          if y > 2 ^ 63 then None else leading_int y s)
     else Some (x, c # s))"

text \<open>The digits of a fraction and the power of ten under them; what does not fit is dropped.\<close>

fun leading_fraction :: "nat \<Rightarrow> nat \<Rightarrow> bool \<Rightarrow> string \<Rightarrow> nat \<times> nat \<times> string" where
  "leading_fraction x scale overflow [] = (x, scale, [])"
| "leading_fraction x scale overflow (c # s) =
    (if is_digit c then
       (if overflow then leading_fraction x scale True s
        else if x > (2 ^ 63 - 1) div 10 then leading_fraction x scale True s
        else let y = x * 10 + digit_num c in
          if y > 2 ^ 63 then leading_fraction x scale True s
          else leading_fraction y (scale * 10) False s)
     else (x, scale, c # s))"

definition duration_unit :: "string \<Rightarrow> nat option" where
  "duration_unit u = map_of
    [(''ns'', 1), (''us'', 1000), ([CHR 0xC2, CHR 0xB5, CHR ''s''], 1000),
     ([CHR 0xCE, CHR 0xBC, CHR ''s''], 1000), (''ms'', 1000000), (''s'', 1000000000),
     (''m'', 60000000000), (''h'', 3600000000000)] u"

definition unit_part :: "string \<Rightarrow> string" where
  "unit_part s = takeWhile (\<lambda>c. c \<noteq> CHR ''.'' \<and> \<not> is_digit c) s"

text \<open>One number with its unit: the nanoseconds, and what is left of the text.\<close>

definition duration_part :: "string \<Rightarrow> (nat \<times> string) option" where
  "duration_part s =
    (if s = [] \<or> \<not> (hd s = CHR ''.'' \<or> is_digit (hd s)) then None
     else (case leading_int 0 s of
         None \<Rightarrow> None
       | Some (v, s1) \<Rightarrow>
          let pre = (length s1 \<noteq> length s);
              dot = (s1 \<noteq> [] \<and> hd s1 = CHR ''.'');
              (f, scale, s2) = (if dot then leading_fraction 0 1 False (tl s1) else (0, 1, s1));
              post = (dot \<and> length s2 \<noteq> length (tl s1));
              u = unit_part s2 in
          if \<not> pre \<and> \<not> post then None
          else if u = [] then None
          else (case duration_unit u of
              None \<Rightarrow> None
            | Some unit \<Rightarrow>
                if v > 2 ^ 63 div unit then None
                else let
                    frac = (if f > 0 then
                        nat (to_int64 (f_mul (to_f64 (of_nat f)) (f_div (to_f64 (of_nat unit)) (of_nat scale))))
                      else 0);
                    total = v * unit + frac in
                  if total > 2 ^ 63 then None else Some (total, drop (length u) s2))))"

lemma leading_int_length: "leading_int x s = Some (v, r) \<Longrightarrow> length r \<le> length s"
  by (induction x s rule: leading_int.induct) (auto simp: Let_def split: if_splits)

lemma leading_fraction_length: "leading_fraction x sc ov s = (f, scale, r) \<Longrightarrow> length r \<le> length s"
  by (induction x sc ov s rule: leading_fraction.induct) (auto simp: Let_def split: if_splits)

lemma duration_part_length:
  assumes "duration_part s = Some (d, r)"
  shows "length r < length s"
proof -
  obtain v s1 where l: "leading_int 0 s = Some (v, s1)"
    using assms by (auto simp: duration_part_def split: if_splits option.splits)
  have s1: "length s1 \<le> length s" by (rule leading_int_length [OF l])
  obtain f scale s2 where f: "(if s1 \<noteq> [] \<and> hd s1 = CHR ''.'' then leading_fraction 0 1 False (tl s1) else (0, 1, s1))
      = (f, scale, s2)" by (metis prod_cases3)
  have s2: "length s2 \<le> length s1"
    using f leading_fraction_length [of 0 1 False "tl s1"] by (auto split: if_splits)
  have r: "unit_part s2 \<noteq> []" "r = drop (length (unit_part s2)) s2"
    using assms l f unfolding duration_part_def Let_def
    by (simp_all split: if_split_asm option.split_asm)
  have "length (unit_part s2) \<le> length s2" unfolding unit_part_def by (rule length_takeWhile_le)
  then show ?thesis using r s1 s2 by (cases "unit_part s2") simp_all
qed

function duration_loop :: "nat \<Rightarrow> string \<Rightarrow> nat option" where
  "duration_loop d s =
    (if s = [] then Some d
     else (case duration_part s of
         None \<Rightarrow> None
       | Some (v, r) \<Rightarrow>
          let d' = (d + v) mod 2 ^ 64 in
          if d' > 2 ^ 63 then None else duration_loop d' r))"
  by pat_completeness auto
termination
  by (relation "measure (\<lambda>(d, s). length s)") (auto dest: duration_part_length)

declare duration_loop.simps [simp del]

definition parse_duration :: "string \<Rightarrow> int option" where
  "parse_duration s =
    (let r = drop_sign s; neg = (s \<noteq> [] \<and> hd s = CHR ''-'') in
     if r = ''0'' then Some 0
     else if r = [] then None
     else (case duration_loop 0 r of
         None \<Rightarrow> None
       | Some d \<Rightarrow>
           if neg then Some (i64 (- int d))
           else if d > 2 ^ 63 - 1 then None else Some (int d)))"

lemma duration_loop_bound: "d \<le> 2 ^ 63 \<Longrightarrow> duration_loop d s = Some v \<Longrightarrow> v \<le> 2 ^ 63"
  by (induction d s rule: duration_loop.induct, subst (asm) (2) duration_loop.simps)
    (auto simp: Let_def split: if_splits option.splits)

lemma parse_duration_i64: "parse_duration s = Some d \<Longrightarrow> in_i64 d"
  by (auto simp: parse_duration_def Let_def in_i64_def split: if_splits option.splits)
    (use i64_in_i64 in \<open>simp_all add: in_i64_def\<close>)

section \<open>Other values\<close>

definition parse_bool :: "string \<Rightarrow> bool option" where
  "parse_bool s =
    (if s \<in> set [''1'', ''t'', ''T'', ''true'', ''TRUE'', ''True''] then Some True
     else if s \<in> set [''0'', ''f'', ''F'', ''false'', ''FALSE'', ''False''] then Some False
     else None)"

section \<open>The grammar of one argument\<close>

datatype flag_arg = NonFlag | Terminator | BadSyntax | FlagArg string "string option"

definition split_flag :: "string \<Rightarrow> flag_arg" where
  "split_flag s =
    (if length s < 2 \<or> hd s \<noteq> CHR ''-'' then NonFlag
     else if s = ''--'' then Terminator
     else let name = (if s ! 1 = CHR ''-'' then drop 2 s else drop 1 s) in
       if name = [] \<or> hd name = CHR ''-'' \<or> hd name = CHR ''='' then BadSyntax
       else (case cut (CHR ''='') name of
           None \<Rightarrow> FlagArg name None
         | Some (n, v) \<Rightarrow> FlagArg n (Some v)))"

end
