(* ===== verification/Go_Quote.thy ===== *)
theory Go_Quote
  imports Go_Numbers
begin

text \<open>
  \<open>strconv.Quote\<close>, the verb \<open>%q\<close> of \<open>fmt\<close>: what diagnostics show of the text they are
  about. Which code points beyond ASCII are printable is data of the Unicode standard, the
  argument \<open>ip\<close>.
\<close>

definition printable_rune :: "(nat \<Rightarrow> bool) \<Rightarrow> nat \<Rightarrow> bool" where
  "printable_rune ip r = (if r < 0x80 then 0x20 \<le> r \<and> r \<le> 0x7E else ip r)"

definition hex_digits :: "nat \<Rightarrow> nat \<Rightarrow> string" where
  "hex_digits w n = zero_pad w (digits 16 n)"

text \<open>\<open>appendEscapedRune\<close>; \<open>bs\<close> are the bytes the code point was decoded from.\<close>

definition escape_rune :: "(nat \<Rightarrow> bool) \<Rightarrow> nat \<Rightarrow> string \<Rightarrow> string" where
  "escape_rune ip r bs =
    (if r = 34 \<or> r = 92 then CHR 0x5C # bs
     else if printable_rune ip r then bs
     else if r = 7 then [CHR 0x5C, CHR ''a'']
     else if r = 8 then [CHR 0x5C, CHR ''b'']
     else if r = 12 then [CHR 0x5C, CHR ''f'']
     else if r = 10 then [CHR 0x5C, CHR ''n'']
     else if r = 13 then [CHR 0x5C, CHR ''r'']
     else if r = 9 then [CHR 0x5C, CHR ''t'']
     else if r = 11 then [CHR 0x5C, CHR ''v'']
     else if r < 0x20 \<or> r = 0x7F then CHR 0x5C # CHR ''x'' # hex_digits 2 r
     else if r < 0x10000 then CHR 0x5C # CHR ''u'' # hex_digits 4 r
     else CHR 0x5C # CHR ''U'' # hex_digits 8 r)"

function quote_loop :: "(nat \<Rightarrow> bool) \<Rightarrow> string \<Rightarrow> string" where
  "quote_loop ip s =
    (if s = [] then []
     else
       let r = fst (decode_rune s); n = snd (decode_rune s) in
       (if n = 1 \<and> r = rune_error then CHR 0x5C # CHR ''x'' # hex_digits 2 (byte (hd s))
        else escape_rune ip r (take n s))
       @ quote_loop ip (drop n s))"
  by pat_completeness auto
termination
  by (relation "measure (\<lambda>(ip, s). length s)") (auto simp: decode_rune_size)

declare quote_loop.simps [simp del]

definition quote :: "(nat \<Rightarrow> bool) \<Rightarrow> string \<Rightarrow> string" where
  "quote ip s = CHR 0x22 # quote_loop ip s @ [CHR 0x22]"

section \<open>No control characters\<close>

text \<open>
  A quoted text is one line: the bytes of a control character are always escaped. A multi-byte
  encoding has no byte below 0x80.
\<close>

definition no_control :: "string \<Rightarrow> bool" where
  "no_control s \<longleftrightarrow> (\<forall>c \<in> set s. 0x20 \<le> byte c)"

lemma no_control_append [simp]: "no_control (a @ b) \<longleftrightarrow> no_control a \<and> no_control b"
  by (auto simp: no_control_def)

lemma no_control_Cons [simp]: "no_control (c # s) \<longleftrightarrow> 0x20 \<le> byte c \<and> no_control s"
  by (auto simp: no_control_def)

lemma no_control_Nil [simp]: "no_control []"
  by (simp add: no_control_def)

lemma no_control_newline: "no_control s \<Longrightarrow> CHR 0x0A \<notin> set s"
  by (auto simp: no_control_def byte_def)

lemma no_control_digits: "2 \<le> b \<Longrightarrow> b \<le> 36 \<Longrightarrow> no_control (digits b n)"
proof (induction b n rule: digits.induct)
  case (1 b n)
  have d: "d < 36 \<Longrightarrow> 0x20 \<le> byte (digit_char d)" for d
    by (simp add: byte_digit_char)
  have m: "n mod b < 36" using 1(2,3) by (auto intro: less_le_trans [OF mod_less_divisor])
  show ?case
  proof (cases "n < b")
    case True
    then show ?thesis using 1(2,3) d [of n] by (subst digits.simps) simp
  next
    case False
    then show ?thesis using 1 d [OF m] by (subst digits.simps) simp
  qed
qed

lemma no_control_hex: "no_control (hex_digits w n)"
  using no_control_digits [of 16 n] by (auto simp: hex_digits_def zero_pad_def no_control_def byte_def)

lemma decode_rune_bytes:
  assumes "s \<noteq> []" "decode_rune s = (r, n)"
  shows "if n = 1 then r = rune_error \<or> r = byte (hd s) \<and> r < 0x80
    else \<forall>c \<in> set (take n s). 0x80 \<le> byte c"
proof (cases "byte (s ! 0) < 0x80")
  case True
  then show ?thesis using assms by (auto simp: decode_rune_def hd_conv_nth)
next
  case False
  have t: "\<forall>c \<in> set (take n s). 0x80 \<le> byte c"
    if "\<forall>i < n. 0x80 \<le> byte (s ! i)" for n
    using that by (auto simp: in_set_conv_nth)
  define second where "second = cont (if byte (s ! 0) = 0xE0 then 0xA0 else if byte (s ! 0) = 0xF0 then 0x90 else 0x80)
      (if byte (s ! 0) = 0xED then 0x9F else if byte (s ! 0) = 0xF4 then 0x8F else 0xBF) s 1"
  have s1: "second \<Longrightarrow> 0x80 \<le> byte (s ! 1)"
    unfolding second_def cont_def by (simp split: if_split_asm)
  have s23: "cont 0x80 0xBF s i \<Longrightarrow> 0x80 \<le> byte (s ! i)" for i
    by (simp add: cont_def)
  consider "r = rune_error" "n = 1" | "n = 2" "second"
    | "n = 3" "second" "cont 0x80 0xBF s 2"
    | "n = 4" "second" "cont 0x80 0xBF s 2" "cont 0x80 0xBF s 3"
    using assms(2) False unfolding decode_rune_def Let_def second_def [symmetric]
    by (simp split: if_split_asm)
  then show ?thesis
  proof cases
    case 2
    then have "\<forall>i < 2. 0x80 \<le> byte (s ! i)" using False s1 by (simp add: less_Suc_eq numeral_2_eq_2)
    then show ?thesis using t 2(1) by simp
  next
    case 3
    then have "\<forall>i < 3. 0x80 \<le> byte (s ! i)"
      using False s1 s23 by (auto simp: less_Suc_eq numeral_3_eq_3 numeral_2_eq_2)
    then show ?thesis using t 3(1) by simp
  next
    case 4
    have "\<forall>i < 4. 0x80 \<le> byte (s ! i)"
    proof (intro allI impI)
      fix i :: nat assume "i < 4"
      then consider "i = 0" | "i = 1" | "i = 2" | "i = 3" by linarith
      then show "0x80 \<le> byte (s ! i)"
        by cases (use False s1 s23 4 in simp_all)
    qed
    then show ?thesis using t 4(1) by simp
  qed simp
qed

lemma no_control_escape:
  assumes "r < 0x20 \<or> no_control bs" "r = 34 \<or> r = 92 \<longrightarrow> no_control bs"
  shows "no_control (escape_rune ip r bs)"
  using assms no_control_hex unfolding escape_rune_def printable_rune_def by (auto simp: byte_def)

lemma no_control_quote_loop: "no_control (quote_loop ip s)"
proof (induction ip s rule: quote_loop.induct)
  case (1 ip s)
  show ?case
  proof (cases "s = []")
    case False
    obtain r n where d: "decode_rune s = (r, n)" by (cases "decode_rune s")
    have e: "no_control (escape_rune ip r (take n s))" if "\<not> (n = 1 \<and> r = rune_error)"
    proof (cases "n = 1")
      case True
      then have "r = byte (hd s)" "take n s = [hd s]"
        using decode_rune_bytes [OF False d] that False by (simp, cases s) simp_all
      then show ?thesis by (intro no_control_escape) auto
    next
      case n: False
      then have "\<forall>c \<in> set (take n s). 0x80 \<le> byte c" using decode_rune_bytes [OF False d] by simp
      then have "no_control (take n s)" by (force simp: no_control_def)
      then show ?thesis by (intro no_control_escape) simp_all
    qed
    have "no_control (quote_loop ip (drop n s))" using 1 False d by simp
    then show ?thesis using e False d no_control_hex
      by (subst quote_loop.simps) (simp add: Let_def byte_def)
  qed (simp add: quote_loop.simps)
qed

lemma no_control_quote: "no_control (quote ip s)"
  using no_control_quote_loop by (simp add: quote_def byte_def)

end
