(* ===== verification/Guard.thy ===== *)
theory Guard
  imports Hwmon
begin

text \<open>
  \<open>internal/guard/guard.go\<close>: one check of the node, the loop around it, what it logs, and
  the two places a reading comes from.
\<close>

section \<open>Sources\<close>

text \<open>The interface \<open>Source\<close>: its two methods.\<close>

datatype read_error =
    NoSensors
  | SensorFailed sensor_error
  | FileUnreadable string io_err
  | NotTemperature string string

record source =
  src_name :: string
  src_read :: "world \<Rightarrow> (read_error + milli_celsius) io"

text \<open>The contract of an implementation: system calls, and readings that fit their type.\<close>

locale reading_source =
  fixes src :: source
  assumes read_op: "os_op (src_read src)"
    and read_i64: "run_state (src_read src w) t = (Inr v, u) \<Longrightarrow> in_i64 v"
begin

lemma snap_i64: "snap (src_read src) s = Inr v \<Longrightarrow> in_i64 v"
  using read_i64 os_op.steady_run [OF read_op steady_const [of s 0]] by metis

end

section \<open>The hwmon sensors\<close>

text \<open>\<open>Sensors.Read\<close>: the loop over the sensors with their index and the hottest so far.\<close>

fun hottest_loop :: "nat \<Rightarrow> milli_celsius \<Rightarrow> sensor list \<Rightarrow> world \<Rightarrow> (read_error + milli_celsius) io" where
  "hottest_loop i hottest [] w = State_Monad.return (Inr hottest)"
| "hottest_loop i hottest (s # ss) w =
    try_io (wrap_io SensorFailed (sensor_read s w)) (\<lambda>v.
      hottest_loop (i + 1) (if i = 0 \<or> v > hottest then v else hottest) ss w)"

definition sensors_read :: "sensor list \<Rightarrow> world \<Rightarrow> (read_error + milli_celsius) io" where
  "sensors_read ss w = (if ss = [] then State_Monad.return (Inl NoSensors) else hottest_loop 0 0 ss w)"

definition sensors_name :: "sensor list \<Rightarrow> string" where
  "sensors_name ss = join ''+'' (map sensor_name ss)"

definition new_sensors :: "sensor list \<Rightarrow> source" where
  "new_sensors ss = \<lparr>src_name = sensors_name ss, src_read = sensors_read ss\<rparr>"

section \<open>The override file\<close>

definition min_reading_celsius :: rat where
  "min_reading_celsius = - 27315 / 100"

definition max_reading_celsius :: rat where
  "max_reading_celsius = 10000"

definition is_inf :: "f64 \<Rightarrow> bool" where
  "is_inf v = (case v of Inf _ \<Rightarrow> True | _ \<Rightarrow> False)"

definition file_temperature :: "string \<Rightarrow> string \<Rightarrow> read_error + milli_celsius" where
  "file_temperature path s =
    (case parse_float s of
       Inl _ \<Rightarrow> Inl (NotTemperature path s)
     | Inr v \<Rightarrow>
        if v = NaN \<or> is_inf v \<or> f_less v (to_f64 min_reading_celsius) \<or> f_less (to_f64 max_reading_celsius) v
        then Inl (NotTemperature path s)
        else Inr (to_int64 (math_round (f_mul v (Fin 1000)))))"

definition file_read :: "string \<Rightarrow> world \<Rightarrow> (read_error + milli_celsius) io" where
  "file_read path w =
    try_io (wrap_io (FileUnreadable path) (os_read_file path w)) (\<lambda>b.
      State_Monad.return (file_temperature path (trim_space b)))"

definition file_source :: "string \<Rightarrow> source" where
  "file_source path = \<lparr>src_name = path, src_read = file_read path\<rparr>"

section \<open>The guard\<close>

datatype verdict = Ok | Disabled | Tolerated | Trip

definition verdict_string :: "verdict \<Rightarrow> string" where
  "verdict_string v = (case v of Ok \<Rightarrow> ''ok'' | Disabled \<Rightarrow> ''disabled''
     | Tolerated \<Rightarrow> ''tolerated'' | Trip \<Rightarrow> ''trip'')"

text \<open>
  \<open>Guard\<close> without its logger and its observer: what it logs is part of what \<open>report\<close>
  returns, and the observer is called by the loop with each result.
\<close>

record guard =
  g_board :: string
  g_max :: milli_celsius
  g_sensors :: source
  g_disable_path :: string
  g_override_path :: string
  g_interval :: int
  g_read_retries :: int
  g_failures :: int
  g_last_verdict :: verdict
  g_last_source :: string
  g_started :: bool

datatype reason = Unread read_error | OverLimit milli_celsius milli_celsius string

record result =
  r_verdict :: verdict
  r_reading :: milli_celsius
  r_has_reading :: bool
  r_source :: string
  r_err :: "reason option"

definition present :: "string \<Rightarrow> world \<Rightarrow> bool io" where
  "present path w = (if path = [] then State_Monad.return False else os_stat path w)"

text \<open>\<open>Check\<close> once the source has been read, and \<open>Check\<close>.\<close>

definition judge :: "guard \<Rightarrow> string \<Rightarrow> read_error + milli_celsius \<Rightarrow> guard \<times> result" where
  "judge g name r =
    (case r of
       Inl e \<Rightarrow>
         let g' = g\<lparr>g_failures := i64 (g_failures g + 1)\<rparr> in
         if g_failures g' \<le> g_read_retries g'
         then (g', \<lparr>r_verdict = Tolerated, r_reading = 0, r_has_reading = False, r_source = name,
                r_err = Some (Unread e)\<rparr>)
         else (g', \<lparr>r_verdict = Trip, r_reading = 0, r_has_reading = False, r_source = name,
                r_err = Some (Unread e)\<rparr>)
     | Inr v \<Rightarrow>
         let g' = g\<lparr>g_failures := 0\<rparr> in
         if v > g_max g
         then (g', \<lparr>r_verdict = Trip, r_reading = v, r_has_reading = True, r_source = name,
                r_err = Some (OverLimit v (g_max g) (g_board g))\<rparr>)
         else (g', \<lparr>r_verdict = Ok, r_reading = v, r_has_reading = True, r_source = name,
                r_err = None\<rparr>))"

definition check :: "guard \<Rightarrow> world \<Rightarrow> (guard \<times> result) io" where
  "check g w = do {
     disabled \<leftarrow> present (g_disable_path g) w;
     if disabled then
       State_Monad.return
         (g\<lparr>g_failures := 0\<rparr>,
          \<lparr>r_verdict = Disabled, r_reading = 0, r_has_reading = False,
           r_source = g_disable_path g, r_err = None\<rparr>)
     else do {
       overridden \<leftarrow> present (g_override_path g) w;
       let src = (if overridden then file_source (g_override_path g) else g_sensors g);
       r \<leftarrow> src_read src w;
       State_Monad.return (judge g (src_name src) r)
     }
   }"

section \<open>What a pass logs\<close>

datatype level = Debug | Info | Warn | Error

text \<open>The messages with the attributes that distinguish them.\<close>

datatype message =
    Armed string milli_celsius string int int
  | AskedToStop string
  | Tripped string string "reason option"
  | ReadingFailed string int int "reason option"
  | Suspended string
  | StillOk milli_celsius string
  | OverrideRead milli_celsius string string milli_celsius
  | Resumed milli_celsius string milli_celsius

type_synonym log_line = "level \<times> message"

definition report :: "guard \<Rightarrow> result \<Rightarrow> guard \<times> log_line list" where
  "report g res =
    (let unchanged = g_started g \<and> r_verdict res = g_last_verdict g \<and> r_source res = g_last_source g;
         lines = (case r_verdict res of
             Trip \<Rightarrow> [(Error, Tripped (g_board g) (r_source res) (r_err res))]
           | Tolerated \<Rightarrow>
               [(Warn, ReadingFailed (r_source res) (g_failures g) (g_read_retries g) (r_err res))]
           | Disabled \<Rightarrow> if unchanged then [] else [(Warn, Suspended (r_source res))]
           | Ok \<Rightarrow>
               if unchanged then [(Debug, StillOk (r_reading res) (r_source res))]
               else if g_override_path g \<noteq> [] \<and> r_source res = g_override_path g then
                 [(Warn, OverrideRead (r_reading res) (r_source res) (src_name (g_sensors g)) (g_max g))]
               else [(Info, Resumed (r_reading res) (r_source res) (g_max g))])
     in (g\<lparr>g_last_verdict := r_verdict res, g_last_source := r_source res, g_started := True\<rparr>, lines))"

section \<open>The loop\<close>

text \<open>
  What ends a pass's wait: the ticker, or the cancelled context. The waits of a run are a list,
  as long as the run is looked at; a run that has neither tripped nor been stopped by its end is
  still \<open>Running\<close>. A pass is recorded with its result, which is what the observer is called
  with, and the lines it logged.
\<close>

datatype wait = Tick | Cancel

datatype outcome = Running | Stopped | GuardTripped "reason option"

type_synonym pass = "result \<times> log_line list"

fun run_loop :: "guard \<Rightarrow> wait list \<Rightarrow> world \<Rightarrow> (outcome \<times> pass list \<times> guard) io" where
  "run_loop g waits w = do {
     (g1, res) \<leftarrow> check g w;
     let (g2, lines) = report g1 res;
     if r_verdict res = Trip then
       State_Monad.return (GuardTripped (r_err res), [(res, lines)], g2)
     else
       (case waits of
          [] \<Rightarrow> State_Monad.return (Running, [(res, lines)], g2)
        | Cancel # _ \<Rightarrow> State_Monad.return (Stopped, [(res, lines)], g2)
        | Tick # waits' \<Rightarrow> do {
            (out, passes, g3) \<leftarrow> run_loop g2 waits' w;
            State_Monad.return (out, (res, lines) # passes, g3)
          })
   }"

declare run_loop.simps [simp del]

definition armed_line :: "guard \<Rightarrow> log_line" where
  "armed_line g = (Info, Armed (g_board g) (g_max g) (src_name (g_sensors g)) (g_interval g) (g_read_retries g))"

definition stop_lines :: "guard \<Rightarrow> outcome \<Rightarrow> log_line list" where
  "stop_lines g out = (if out = Stopped then [(Info, AskedToStop (g_board g))] else [])"

definition run_guard :: "guard \<Rightarrow> wait list \<Rightarrow> world \<Rightarrow> (outcome \<times> log_line list \<times> pass list \<times> guard) io" where
  "run_guard g waits w = do {
     (out, passes, g') \<leftarrow> run_loop g waits w;
     State_Monad.return (out, armed_line g # concat (map snd passes) @ stop_lines g' out, passes, g')
   }"

section \<open>The sources keep their contract\<close>

lemma os_op_hottest_loop [intro]: "os_op (hottest_loop i h ss)"
proof (induction ss arbitrary: i h)
  case (Cons s ss)
  show ?case
    by (rule os_op_eqI [OF hottest_loop.simps(2)], intro os_op_try os_op_wrap os_op_sensor_read Cons)
qed (rule os_op_eqI [OF hottest_loop.simps(1)], rule os_op_return)

lemma os_op_sensors_read [intro]: "os_op (sensors_read ss)"
  unfolding sensors_read_def by (intro os_op_if os_op_return os_op_hottest_loop)

lemma os_op_file_read [intro]: "os_op (file_read path)"
  unfolding file_read_def by (intro os_op_try os_op_wrap os_op_return os_op_os_calls)

lemma os_op_present [intro]: "os_op (present path)"
  unfolding present_def by (intro os_op_if os_op_return os_op_os_calls)

lemma run_present:
  "run_state (present path w) t = (if path = [] then (False, t) else (fs_stat (w t) path, Suc t))"
  by (simp add: present_def)

text \<open>The hottest of the sensors, each read at an instant of the pass.\<close>

abbreviation read_during :: "world \<Rightarrow> nat \<Rightarrow> nat \<Rightarrow> sensor \<Rightarrow> milli_celsius \<Rightarrow> bool" where
  "read_during w t u s v \<equiv> \<exists>t' u'. t \<le> t' \<and> u' \<le> u \<and> run_state (sensor_read s w) t' = (Inr v, u')"

lemma read_during_widen:
  "read_during w t1 u1 s v \<Longrightarrow> t \<le> t1 \<Longrightarrow> u1 \<le> u \<Longrightarrow> read_during w t u s v"
  by (meson order_trans)

lemma hottest_loop_Inr:
  assumes "run_state (hottest_loop i h ss w) t = (Inr v, u)"
  shows "\<exists>vs. list_all2 (read_during w t u) ss vs
    \<and> v = (if i \<noteq> 0 then Max (insert h (set vs)) else if vs = [] then h else Max (set vs))"
  using assms
proof (induction ss arbitrary: i h t)
  case Nil
  then show ?case by (intro exI [of _ "[]"]) simp
next
  case (Cons s ss)
  obtain x t1 where r: "run_state (sensor_read s w) t = (Inr x, t1)"
    and l: "run_state (hottest_loop (i + 1) (if i = 0 \<or> x > h then x else h) ss w) t1 = (Inr v, u)"
    using Cons.prems unfolding hottest_loop.simps try_io_Inr wrap_io_Inr by blast
  obtain vs where vs: "list_all2 (read_during w t1 u) ss vs"
    "v = Max (insert (if i = 0 \<or> x > h then x else h) (set vs))"
    using Cons.IH [OF l] by (simp only: add_is_0 one_neq_zero simp_thms if_True) blast
  have t: "t \<le> t1" by (rule os_op.forward_run [OF os_op_sensor_read r])
  have u: "t1 \<le> u"
    by (rule os_op.forward_run [OF os_op_hottest_loop [of "i + 1" "if i = 0 \<or> x > h then x else h" ss]], rule l)
  have "list_all2 (read_during w t u) ss vs"
    by (rule list.rel_mono_strong [OF vs(1)]) (erule read_during_widen [OF _ t order_refl])
  moreover have "read_during w t u s x" using r t u by blast
  moreover have "Max (insert (if i = 0 \<or> x > h then x else h) (set vs))
      = (if i \<noteq> 0 then Max (insert h (set (x # vs))) else Max (set (x # vs)))"
  proof (cases "i = 0 \<or> vs = []")
    case False
    then have "Max (insert h (set (x # vs))) = max h (max x (Max (set vs)))" by simp
    then show ?thesis using False by (simp add: max_def)
  qed (auto simp: max_def)
  ultimately show ?case using vs(2) by (intro exI [of _ "x # vs"]) simp
qed

lemma sensors_read_Inr:
  assumes "run_state (sensors_read ss w) t = (Inr v, u)"
  shows "ss \<noteq> [] \<and> (\<exists>vs. list_all2 (read_during w t u) ss vs \<and> v = Max (set vs))"
proof -
  have ne: "ss \<noteq> []" using assms by (auto simp: sensors_read_def)
  then have "run_state (hottest_loop 0 0 ss w) t = (Inr v, u)" using assms by (simp add: sensors_read_def)
  then obtain vs where "list_all2 (read_during w t u) ss vs" "v = (if vs = [] then 0 else Max (set vs))"
    using hottest_loop_Inr [of 0 0 ss w t v u] by auto
  then show ?thesis using ne by (intro conjI exI [of _ vs]) auto
qed

interpretation hwmon_source: reading_source "new_sensors ss" for ss
proof (rule reading_source.intro)
  show "os_op (src_read (new_sensors ss))" by (simp add: new_sensors_def os_op_sensors_read)
next
  fix w t v u assume "run_state (src_read (new_sensors ss) w) t = (Inr v, u)"
  then have r: "run_state (sensors_read ss w) t = (Inr v, u)" by (simp add: new_sensors_def)
  obtain vs where ne: "ss \<noteq> []" and vs: "list_all2 (read_during w t u) ss vs" and v: "v = Max (set vs)"
    using sensors_read_Inr [OF r] by blast
  then have "vs \<noteq> []" by auto
  then have "v \<in> set vs" unfolding v by (intro Max_in) simp_all
  then obtain i where i: "i < length vs" "vs ! i = v" by (auto simp: in_set_conv_nth)
  have "read_during w t u (ss ! i) (vs ! i)" by (rule list_all2_nthD2 [OF vs i(1)])
  then show "in_i64 v" unfolding i(2) using sensor_read_in_i64 by blast
qed


text \<open>What the override file may say.\<close>

lemma min_reading: obtains b where "to_f64 min_reading_celsius = Fin b" "- 274 < b"
proof -
  have e: "min_reading_celsius = of_int (- 273150) / 1000" by (simp add: min_reading_celsius_def)
  have "\<bar>- 273150 :: int\<bar> < 2 ^ 24" by simp
  then obtain v w where v: "to_f64 (of_int (- 273150) / 1000) = Fin v" by (rule milli_exact)
  have "to_f64 (- 273.5) = Fin (- 273.5)" by code_simp
  then have "- 273.5 \<le> v" using to_f64_mono [OF _ v, of "- 273.5" "- 273.5"] by simp
  then show thesis using that v e by simp
qed

lemma max_reading: "to_f64 max_reading_celsius = Fin 10000"
  using to_f64_int [of 10000] by (simp add: max_reading_celsius_def)

lemma file_temperature_cases:
  assumes "file_temperature path s = Inr v"
  obtains x b where "parse_float s = Inr (Fin x)" "to_f64 min_reading_celsius = Fin b" "b \<le> x" "x \<le> 10000"
    "v = to_int64 (math_round (f_mul (Fin x) (Fin 1000)))"
proof -
  obtain b where b: "to_f64 min_reading_celsius = Fin b" by (rule min_reading)
  obtain f where f: "parse_float s = Inr f" "f \<noteq> NaN" "\<not> is_inf f" "\<not> f_less f (Fin b)" "\<not> f_less (Fin 10000) f"
    and v: "v = to_int64 (math_round (f_mul f (Fin 1000)))"
    using assms by (auto simp: file_temperature_def max_reading b split: sum.splits if_splits)
  then obtain x where "f = Fin x" by (cases f) (auto simp: is_inf_def)
  then show thesis using that b f v by (simp add: f_less_def)
qed

lemma file_temperature_bounds:
  assumes "file_temperature path s = Inr v"
  shows "- 273150 \<le> v \<and> v \<le> 10000000"
proof -
  obtain x b where x: "to_f64 min_reading_celsius = Fin b" "b \<le> x" "x \<le> 10000"
    and v: "v = to_int64 (math_round (f_mul (Fin x) (Fin 1000)))"
    by (rule file_temperature_cases [OF assms])
  have "\<bar>- 273150 :: int\<bar> < 2 ^ 24" by simp
  then obtain c d where c: "to_f64 (of_int (- 273150) / 1000) = Fin c" and d: "to_f64 (c * 1000) = Fin d"
    "round_half_away d = - 273150" by (rule milli_exact)
  have "(of_int (- 273150) / 1000 :: rat) = min_reading_celsius" by (simp add: min_reading_celsius_def)
  then have cb: "c = b" using c x(1) by simp
  have "- 274 < b" using min_reading x(1) by (metis f64.inject(2))
  then have "\<bar>x * 1000\<bar> < 2 powi 24" using x(2,3) by (simp add: abs_less_iff)
  then obtain w where w: "to_f64 (x * 1000) = Fin w" by (rule to_f64_Fin) simp_all
  have lo: "d \<le> w" using to_f64_mono [OF d(1) w] cb x(2) by simp
  have "to_f64 10000000 = Fin 10000000" using to_f64_int [of 10000000] by simp
  then have hi: "w \<le> 10000000" using to_f64_mono [OF w, of 10000000 10000000] x(3) by simp
  have mono: "round_half_away p \<le> round_half_away q" if "p \<le> q" for p q
    using that unfolding round_half_away_def by (auto intro: floor_mono) linarith+
  have r10: "round_half_away 10000000 = 10000000" by code_simp
  have "- 273150 \<le> round_half_away w" "round_half_away w \<le> 10000000"
    using mono [OF lo] mono [OF hi] d(2) r10 by simp_all
  then show ?thesis using v w by (simp add: f_mul_def math_round_def to_int64_def trunc_def in_i64_def)
qed

lemma file_temperature_exact:
  assumes "- 273150 \<le> m" "m \<le> 10000000"
  shows "file_temperature path (show_signed m) = Inr m"
proof -
  have "\<bar>m\<bar> < 2 ^ 24" using assms by simp
  then obtain v w where v: "to_f64 (of_int m / 1000) = Fin v" and w: "to_f64 (v * 1000) = Fin w"
    and r: "round_half_away w = m" by (rule milli_exact)
  obtain b where b: "to_f64 min_reading_celsius = Fin b" by (rule min_reading)
  have "min_reading_celsius \<le> of_int m / 1000" "of_int m / 1000 \<le> max_reading_celsius"
    using assms by (simp_all add: min_reading_celsius_def max_reading_celsius_def)
  then have "b \<le> v" "v \<le> 10000" using to_f64_mono [OF b v] to_f64_mono [OF v max_reading] by simp_all
  moreover have "to_int64 (math_round (Fin w)) = m"
    using assms by (simp add: math_round_def to_int64_def r trunc_def in_i64_def)
  ultimately show ?thesis
    using parse_float_show_signed [OF v] w
    by (simp add: file_temperature_def is_inf_def f_less_def f_mul_def b max_reading)
qed

lemma run_file_read:
  "run_state (file_read path w) t =
    ((case fs_read (w t) path of
        Inl e \<Rightarrow> Inl (FileUnreadable path e)
      | Inr b \<Rightarrow> file_temperature path (trim_space b)), Suc t)"
  by (simp add: file_read_def split: sum.split)

interpretation override_source: reading_source "file_source path" for path
proof (rule reading_source.intro)
  show "os_op (src_read (file_source path))" by (simp add: file_source_def os_op_file_read)
next
  fix w t v u assume "run_state (src_read (file_source path) w) t = (Inr v, u)"
  then obtain b where "file_temperature path (trim_space b) = Inr v"
    by (auto simp: file_source_def run_file_read split: sum.splits)
  then show "in_i64 v" by (drule_tac file_temperature_bounds) (simp add: in_i64_def)
qed

section \<open>One pass\<close>

definition absent :: "string \<Rightarrow> world \<Rightarrow> nat \<Rightarrow> bool" where
  "absent path w t \<longleftrightarrow> path = [] \<or> \<not> fs_stat (w t) path"

lemma run_present_absent:
  "run_state (present path w) t = (\<not> absent path w t, if path = [] then t else Suc t)"
  by (simp add: run_present absent_def)

lemma run_check:
  "run_state (check g w) t =
    (let t1 = (if g_disable_path g = [] then t else Suc t);
         t2 = (if g_override_path g = [] then t1 else Suc t1);
         src = (if absent (g_override_path g) w t1 then g_sensors g else file_source (g_override_path g)) in
     if \<not> absent (g_disable_path g) w t then
       ((g\<lparr>g_failures := 0\<rparr>,
         \<lparr>r_verdict = Disabled, r_reading = 0, r_has_reading = False,
          r_source = g_disable_path g, r_err = None\<rparr>), t1)
     else (case run_state (src_read src w) t2 of (r, u) \<Rightarrow> (judge g (src_name src) r, u)))"
  by (simp add: check_def run_present_absent Let_def)

lemma check_cases:
  assumes "run_state (check g w) t = ((g', res), u)"
  obtains
    (disabled) "\<not> absent (g_disable_path g) w t" "g' = g\<lparr>g_failures := 0\<rparr>"
      "res = \<lparr>r_verdict = Disabled, r_reading = 0, r_has_reading = False,
          r_source = g_disable_path g, r_err = None\<rparr>"
  | (override) t1 r where "absent (g_disable_path g) w t" "t \<le> t1" "\<not> absent (g_override_path g) w t1"
      "run_state (file_read (g_override_path g) w) (Suc t1) = (r, u)"
      "judge g (g_override_path g) r = (g', res)"
  | (sensors) t1 t2 r where "absent (g_disable_path g) w t" "t \<le> t1" "absent (g_override_path g) w t1" "t1 \<le> t2"
      "run_state (src_read (g_sensors g) w) t2 = (r, u)"
      "judge g (src_name (g_sensors g)) r = (g', res)"
proof -
  define t1 where "t1 = (if g_disable_path g = [] then t else Suc t)"
  define t2 where "t2 = (if g_override_path g = [] then t1 else Suc t1)"
  have t: "t \<le> t1" "t1 \<le> t2" by (simp_all add: t1_def t2_def)
  show thesis
  proof (cases "absent (g_disable_path g) w t")
    case False
    then show thesis using assms disabled unfolding run_check Let_def by simp
  next
    case dis: True
    show thesis
    proof (cases "absent (g_override_path g) w t1")
      case True
      obtain r u' where r: "run_state (src_read (g_sensors g) w) t2 = (r, u')"
        by (cases "run_state (src_read (g_sensors g) w) t2")
      have "judge g (src_name (g_sensors g)) r = (g', res)" "u' = u"
        using assms dis True r unfolding run_check t1_def t2_def Let_def by simp_all
      then show thesis using sensors [OF dis t(1) True t(2)] r by simp
    next
      case False
      then have t2: "t2 = Suc t1" by (simp add: t2_def absent_def)
      obtain r u' where r: "run_state (file_read (g_override_path g) w) t2 = (r, u')"
        by (cases "run_state (file_read (g_override_path g) w) t2")
      have "judge g (g_override_path g) r = (g', res)" "u' = u"
        using assms dis False r unfolding run_check t1_def t2_def Let_def by (simp_all add: file_source_def)
      then show thesis using override [OF dis t(1) False] r t2 by simp
    qed
  qed
qed

lemma os_op_check [intro]:
  assumes "os_op (src_read (g_sensors g))"
  shows "os_op (check g)"
proof -
  have "os_op (src_read (if b then file_source (g_override_path g) else g_sensors g))" for b
    using assms override_source.read_op by simp
  then show ?thesis
    unfolding check_def Let_def
    by (intro os_op_bind os_op_present os_op_if os_op_return)
qed

text \<open>What a pass saw, and the verdict the specification gives: by the history, without a counter.\<close>

datatype observation = Suspension | Failure | Reading milli_celsius

definition obs_of :: "result \<Rightarrow> observation" where
  "obs_of res = (if r_verdict res = Disabled then Suspension
     else if r_has_reading res then Reading (r_reading res) else Failure)"

definition trailing_failures :: "observation list \<Rightarrow> nat" where
  "trailing_failures past = length (takeWhile (\<lambda>ob. ob = Failure) (rev past))"

definition spec_verdict :: "int \<Rightarrow> milli_celsius \<Rightarrow> observation list \<Rightarrow> observation \<Rightarrow> verdict" where
  "spec_verdict retries limit past ob =
    (case ob of
       Suspension \<Rightarrow> Disabled
     | Reading v \<Rightarrow> if v > limit then Trip else Ok
     | Failure \<Rightarrow> if int (trailing_failures past) < retries then Tolerated else Trip)"

lemma trailing_failures_snoc [simp]:
  "trailing_failures (past @ [ob]) = (if ob = Failure then Suc (trailing_failures past) else 0)"
  by (simp add: trailing_failures_def)

lemma trailing_failures_Nil [simp]: "trailing_failures [] = 0"
  by (simp add: trailing_failures_def)

text \<open>The counter is the number of failures since the last pass that did not fail.\<close>

definition budget :: "guard \<Rightarrow> observation list \<Rightarrow> bool" where
  "budget g past \<longleftrightarrow> 0 \<le> g_read_retries g \<and> g_read_retries g < 2 ^ 63 - 1
    \<and> g_failures g = int (trailing_failures past) \<and> g_failures g \<le> g_read_retries g"

lemma judge_step:
  assumes "budget g past" "judge g name r = (g', res)"
  shows "r_verdict res = spec_verdict (g_read_retries g) (g_max g) past (obs_of res)"
    "r_verdict res \<noteq> Disabled"
    "g' = g\<lparr>g_failures := int (trailing_failures (past @ [obs_of res]))\<rparr>"
    "r_verdict res \<noteq> Trip \<Longrightarrow> budget g' (past @ [obs_of res])"
    "r_source res = name"
proof -
  have "i64 (g_failures g + 1) = g_failures g + 1"
    using assms(1) by (intro i64_id) (simp add: budget_def in_i64_def)
  then have "r_verdict res = spec_verdict (g_read_retries g) (g_max g) past (obs_of res)
      \<and> r_verdict res \<noteq> Disabled \<and> g' = g\<lparr>g_failures := int (trailing_failures (past @ [obs_of res]))\<rparr>
      \<and> (r_verdict res \<noteq> Trip \<longrightarrow> budget g' (past @ [obs_of res])) \<and> r_source res = name"
    using assms by (cases r)
      (auto simp: judge_def Let_def obs_of_def spec_verdict_def budget_def split: if_splits)
  then show "r_verdict res = spec_verdict (g_read_retries g) (g_max g) past (obs_of res)"
    "r_verdict res \<noteq> Disabled"
    "g' = g\<lparr>g_failures := int (trailing_failures (past @ [obs_of res]))\<rparr>"
    "r_verdict res \<noteq> Trip \<Longrightarrow> budget g' (past @ [obs_of res])"
    "r_source res = name"
    by blast+
qed

lemma check_step:
  assumes "budget g past" "run_state (check g w) t = ((g', res), u)"
  shows "r_verdict res = spec_verdict (g_read_retries g) (g_max g) past (obs_of res)"
    "g' = g\<lparr>g_failures := int (trailing_failures (past @ [obs_of res]))\<rparr>"
    "r_verdict res \<noteq> Trip \<Longrightarrow> budget g' (past @ [obs_of res])"
proof -
  let ?goal = "r_verdict res = spec_verdict (g_read_retries g) (g_max g) past (obs_of res)
    \<and> g' = g\<lparr>g_failures := int (trailing_failures (past @ [obs_of res]))\<rparr>
    \<and> (r_verdict res \<noteq> Trip \<longrightarrow> budget g' (past @ [obs_of res]))"
  from assms(2) have ?goal
  proof (cases rule: check_cases)
    case disabled
    then have "obs_of res = Suspension" by (simp add: obs_of_def)
    then show ?thesis using disabled assms(1) by (simp add: spec_verdict_def budget_def)
  next
    case (override t1 r)
    then show ?thesis using judge_step(1,3,4) [OF assms(1)] by blast
  next
    case (sensors t1 t2 r)
    then show ?thesis using judge_step(1,3,4) [OF assms(1)] by blast
  qed
  then show "r_verdict res = spec_verdict (g_read_retries g) (g_max g) past (obs_of res)"
    "g' = g\<lparr>g_failures := int (trailing_failures (past @ [obs_of res]))\<rparr>"
    "r_verdict res \<noteq> Trip \<Longrightarrow> budget g' (past @ [obs_of res])"
    by blast+
qed

section \<open>Runs\<close>

text \<open>
  The passes a guard can make, as a relation: no pass follows one that tripped. What the loop
  returns is such a run, so that invariants are proved by induction over it.
\<close>

inductive guard_run :: "world \<Rightarrow> guard \<Rightarrow> nat \<Rightarrow> pass list \<Rightarrow> guard \<Rightarrow> nat \<Rightarrow> bool"
  for w g0 t0 where
  start: "guard_run w g0 t0 [] g0 t0"
| pass: "guard_run w g0 t0 (ps @ [(res, lines)]) g2 u"
    if "guard_run w g0 t0 ps g t" "ps = [] \<or> r_verdict (fst (last ps)) \<noteq> Trip"
      "run_state (check g w) t = ((g1, res), u)" "report g1 res = (g2, lines)"

inductive_cases guard_run_NilE: "guard_run w g0 t0 [] g t"

lemma guard_run_append:
  assumes "guard_run w g t qs g' t'" "guard_run w g0 t0 ps g t"
    and "ps = [] \<or> r_verdict (fst (last ps)) \<noteq> Trip"
  shows "guard_run w g0 t0 (ps @ qs) g' t'"
  using assms
proof (induction rule: guard_run.induct)
  case (pass qs g' t' g1 res u g2 lines)
  have "guard_run w g0 t0 ((ps @ qs) @ [(res, lines)]) g2 u"
    using pass by (intro guard_run.pass [of w g0 t0 "ps @ qs" g' t' g1 res u g2 lines])
      (auto simp: last_append)
  then show ?case by simp
qed simp

text \<open>Only the last pass of a run can have tripped, and the clock does not run backwards.\<close>

lemma guard_run_trips_last:
  assumes "guard_run w g0 t0 ps g t" "k < length ps - 1"
  shows "r_verdict (fst (ps ! k)) \<noteq> Trip"
  using assms
proof (induction rule: guard_run.induct)
  case (pass ps g t g1 res u g2 lines)
  then consider "k < length ps - 1" | "k = length ps - 1" "ps \<noteq> []" by fastforce
  then show ?case
    by cases (use pass.IH pass.hyps(2) in \<open>auto simp: nth_append last_conv_nth\<close>)
qed simp

lemma run_loop_step:
  "run_state (run_loop g waits w) t =
    (case run_state (check g w) t of ((g1, res), u) \<Rightarrow>
      (case report g1 res of (g2, lines) \<Rightarrow>
        if r_verdict res = Trip then ((GuardTripped (r_err res), [(res, lines)], g2), u)
        else (case waits of
            [] \<Rightarrow> ((Running, [(res, lines)], g2), u)
          | Cancel # _ \<Rightarrow> ((Stopped, [(res, lines)], g2), u)
          | Tick # waits' \<Rightarrow>
              (case run_state (run_loop g2 waits' w) u of ((out, ps, g3), v) \<Rightarrow>
                ((out, (res, lines) # ps, g3), v)))))"
  by (subst run_loop.simps) (auto simp: Let_def split: prod.split list.split wait.split)

definition outcome_ok :: "wait list \<Rightarrow> outcome \<Rightarrow> pass list \<Rightarrow> bool" where
  "outcome_ok waits out ps \<longleftrightarrow> ps \<noteq> [] \<and> take (length ps - 1) waits = replicate (length ps - 1) Tick \<and>
    (case out of
       Running \<Rightarrow> length ps = length waits + 1 \<and> r_verdict (fst (last ps)) \<noteq> Trip
     | Stopped \<Rightarrow> length ps \<le> length waits \<and> waits ! (length ps - 1) = Cancel
         \<and> r_verdict (fst (last ps)) \<noteq> Trip
     | GuardTripped why \<Rightarrow> r_verdict (fst (last ps)) = Trip \<and> why = r_err (fst (last ps)))"

lemma run_loop_run:
  assumes "run_state (run_loop g waits w) t = ((out, ps, g'), u)"
  shows "guard_run w g t ps g' u \<and> outcome_ok waits out ps"
  using assms
proof (induction waits arbitrary: g t out ps)
  case Nil
  obtain g1 res u1 where c: "run_state (check g w) t = ((g1, res), u1)" by (metis prod.collapse)
  obtain g2 lines where r: "report g1 res = (g2, lines)" by (cases "report g1 res")
  have "guard_run w g t [(res, lines)] g2 u1" using guard_run.pass [OF guard_run.start _ c r] by simp
  then show ?case using Nil c r by (auto simp: run_loop_step [of g] outcome_ok_def split: if_splits)
next
  case (Cons wt waits)
  obtain g1 res u1 where c: "run_state (check g w) t = ((g1, res), u1)" by (metis prod.collapse)
  obtain g2 lines where r: "report g1 res = (g2, lines)" by (cases "report g1 res")
  have one: "guard_run w g t [(res, lines)] g2 u1" using guard_run.pass [OF guard_run.start _ c r] by simp
  show ?case
  proof (cases "r_verdict res \<noteq> Trip \<and> wt = Tick")
    case True
    obtain qs where l: "run_state (run_loop g2 waits w) u1 = ((out, qs, g'), u)" and ps: "ps = (res, lines) # qs"
      using Cons.prems c r True by (auto simp: run_loop_step [of g] split: prod.splits)
    have ih: "guard_run w g2 u1 qs g' u" "outcome_ok waits out qs" using Cons.IH [OF l] by blast+
    have "guard_run w g t ([(res, lines)] @ qs) g' u"
      using guard_run_append [OF ih(1) one] True by simp
    moreover have "outcome_ok (wt # waits) out ps"
      using ih(2) True ps by (cases qs) (auto simp: outcome_ok_def split: outcome.splits)
    ultimately show ?thesis using ps by simp
  next
    case False
    then show ?thesis using Cons.prems c r one
      by (cases wt) (auto simp: run_loop_step [of g] outcome_ok_def split: if_splits)
  qed
qed

section \<open>Invariants of a run\<close>

definition observations :: "pass list \<Rightarrow> observation list" where
  "observations ps = map (obs_of \<circ> fst) ps"

lemma observations_simps [simp]:
  "observations [] = []" "observations (ps @ [p]) = observations ps @ [obs_of (fst p)]"
  "length (observations ps) = length ps"
  by (simp_all add: observations_def)

definition fresh :: "guard \<Rightarrow> bool" where
  "fresh g \<longleftrightarrow> g_failures g = 0 \<and> \<not> g_started g \<and> 0 \<le> g_read_retries g \<and> g_read_retries g < 2 ^ 63 - 1"

lemma fresh_budget: "fresh g \<Longrightarrow> budget g []"
  by (simp add: fresh_def budget_def)

lemma report_guard:
  assumes "report g res = (g', lines)"
  shows "g' = g\<lparr>g_last_verdict := r_verdict res, g_last_source := r_source res, g_started := True\<rparr>"
  using assms by (simp add: report_def Let_def)

definition tripped :: "pass list \<Rightarrow> bool" where
  "tripped ps \<longleftrightarrow> ps \<noteq> [] \<and> r_verdict (fst (last ps)) = Trip"

text \<open>Nothing but the counter and the log's memory ever changes, and the counter counts.\<close>

lemma guard_run_budget:
  assumes "guard_run w g0 t0 ps g t" "fresh g0"
  shows "(\<not> tripped ps \<longrightarrow> budget g (observations ps))
    \<and> (\<exists>n v src st. g = g0\<lparr>g_failures := n, g_last_verdict := v, g_last_source := src, g_started := st\<rparr>)"
  using assms
proof (induction rule: guard_run.induct)
  case start
  have "g0 = g0\<lparr>g_failures := g_failures g0, g_last_verdict := g_last_verdict g0,
      g_last_source := g_last_source g0, g_started := g_started g0\<rparr>" by simp
  then show ?case using start fresh_budget by (metis observations_simps(1))
next
  case (pass ps g t g1 res u g2 lines)
  then have b: "budget g (observations ps)" and
    "\<exists>n v src st. g = g0\<lparr>g_failures := n, g_last_verdict := v, g_last_source := src, g_started := st\<rparr>"
    by (auto simp: tripped_def)
  then obtain n v src st
    where g: "g = g0\<lparr>g_failures := n, g_last_verdict := v, g_last_source := src, g_started := st\<rparr>" by blast
  note st = check_step [OF b pass.hyps(3)] and g2 = report_guard [OF pass.hyps(4)]
  have "budget g2 (observations (ps @ [(res, lines)]))" if "r_verdict res \<noteq> Trip"
    using st(3) [OF that] unfolding g2 by (simp add: budget_def)
  moreover have "g2 = g0\<lparr>g_failures := g_failures g1, g_last_verdict := r_verdict res,
      g_last_source := r_source res, g_started := True\<rparr>"
    unfolding g2 st(2) g by simp
  ultimately show ?case by (auto simp: tripped_def)
qed

lemma guard_run_verdicts:
  assumes "guard_run w g0 t0 ps g t" "fresh g0" "k < length ps"
  shows "r_verdict (fst (ps ! k))
    = spec_verdict (g_read_retries g0) (g_max g0) (take k (observations ps)) (observations ps ! k)"
  using assms
proof (induction rule: guard_run.induct)
  case (pass ps g t g1 res u g2 lines)
  show ?case
  proof (cases "k < length ps")
    case True
    then show ?thesis using pass by (simp add: nth_append observations_def)
  next
    case False
    then have k: "k = length ps" using pass.prems(2) by simp
    have "budget g (observations ps)" "g_read_retries g = g_read_retries g0" "g_max g = g_max g0"
      using guard_run_budget [OF pass.hyps(1) pass.prems(1)] pass.hyps(2) by (auto simp: tripped_def)
    then show ?thesis using check_step(1) [of g "observations ps"] pass.hyps(3) k
      by (simp add: nth_append)
  qed
qed simp

lemma trailing_failures_ge:
  "n \<le> trailing_failures xs \<longleftrightarrow>
    n \<le> length xs \<and> (\<forall>j. length xs - n \<le> j \<and> j < length xs \<longrightarrow> xs ! j = Failure)"
proof (induction xs arbitrary: n rule: rev_induct)
  case (snoc x xs)
  show ?case
  proof (cases n)
    case (Suc m)
    show ?thesis
    proof (cases "x = Failure")
      case True
      then show ?thesis using snoc [of m] Suc by (auto simp: nth_append less_Suc_eq)
    next
      case False
      then show ?thesis using Suc by (auto intro: exI [of _ "length xs"])
    qed
  qed auto
qed simp

lemma run_guard_loop:
  assumes "run_state (run_guard g waits w) t = ((out, logs, ps, g'), u)"
  shows "run_state (run_loop g waits w) t = ((out, ps, g'), u)"
    "logs = armed_line g # concat (map snd ps) @ stop_lines g' out"
  using assms by (auto simp: run_guard_def split: prod.splits)

lemmas run_guard_run = run_guard_loop(1) [THEN run_loop_run]

text \<open>The sensors on a snapshot.\<close>

lemma snap_hottest_loop:
  assumes "\<forall>s \<in> set ss. snap (sensor_read s) st = Inr (f s)"
  shows "snap (hottest_loop i h ss) st
    = Inr (if i \<noteq> 0 then Max (insert h (f ` set ss)) else if ss = [] then h else Max (f ` set ss))"
  using assms
proof (induction ss arbitrary: i h)
  case Nil
  have "hottest_loop i h [] = (\<lambda>w. State_Monad.return (Inr h))" by (rule ext) simp
  then show ?case by simp
next
  case (Cons s ss)
  have op: "os_op (\<lambda>w. hottest_loop (i + 1) (if i = 0 \<or> v > h then v else h) ss w)" for v
    by (rule os_op_hottest_loop)
  have eq: "hottest_loop i h (s # ss) = (\<lambda>w. try_io (wrap_io SensorFailed (sensor_read s w)) (\<lambda>v.
      hottest_loop (i + 1) (if i = 0 \<or> v > h then v else h) ss w))"
    by (rule ext) simp
  have "snap (hottest_loop i h (s # ss)) st
      = snap (hottest_loop (i + 1) (if i = 0 \<or> f s > h then f s else h) ss) st"
    unfolding eq by (subst snap_try [OF os_op_wrap [OF os_op_sensor_read] op])
      (use Cons.prems in \<open>simp add: snap_wrap os_op_sensor_read\<close>)
  also have "\<dots> = Inr (Max (insert (if i = 0 \<or> f s > h then f s else h) (f ` set ss)))"
    using Cons.IH Cons.prems by simp
  also have "Max (insert (if i = 0 \<or> f s > h then f s else h) (f ` set ss))
      = (if i \<noteq> 0 then Max (insert h (f ` set (s # ss))) else Max (f ` set (s # ss)))"
  proof (cases "i = 0 \<or> ss = []")
    case False
    then have "Max (insert h (f ` set (s # ss))) = max h (max (f s) (Max (f ` set ss)))" by simp
    then show ?thesis using False by (simp add: max_def)
  qed (auto simp: max_def)
  finally show ?case by simp
qed

lemma snap_sensors_read:
  assumes "\<forall>s \<in> set ss. snap (sensor_read s) st = Inr (f s)" "ss \<noteq> []"
  shows "snap (sensors_read ss) st = Inr (Max (f ` set ss))"
proof -
  have "sensors_read ss = hottest_loop 0 0 ss" using assms(2) by (intro ext) (simp add: sensors_read_def)
  then show ?thesis using snap_hottest_loop [OF assms(1), of 0 0] assms(2) by simp
qed

section \<open>A sample guard\<close>

definition sample_guard :: guard where
  "sample_guard =
    \<lparr>g_board = ''H11DSi-NT'', g_max = 85000, g_sensors = new_sensors [sample_sensors ! 0, sample_sensors ! 2],
     g_disable_path = disable_path, g_override_path = override_path, g_interval = 10000000000,
     g_read_retries = 2, g_failures = 0, g_last_verdict = Ok, g_last_source = [], g_started = False\<rparr>"

lemma fresh_sample: "fresh sample_guard"
  by (simp add: fresh_def sample_guard_def)

definition verdicts_of :: "(outcome \<times> log_line list \<times> pass list \<times> guard) \<times> nat \<Rightarrow> verdict list" where
  "verdicts_of r = (case r of ((out, logs, ps, g'), u) \<Rightarrow> map (\<lambda>p. r_verdict (fst p)) ps)"

text \<open>Cool for two passes, then the second socket at 86 degrees; and a first socket that cannot be read.\<close>

definition heating :: world where
  "heating t = (if t < 20 then node ''45000'' ''46500'' [] else node ''45000'' ''86000'' [])"

definition broken :: world where
  "broken t = node ''n/a'' ''46500'' []"

lemma sample_runs:
  "verdicts_of (run_state (run_guard sample_guard [Tick, Tick, Tick] heating) 0) = [Ok, Ok, Trip]"
  "verdicts_of (run_state (run_guard sample_guard [Tick, Tick, Tick] broken) 0) = [Tolerated, Tolerated, Trip]"
  "verdicts_of (run_state (run_guard sample_guard [Tick, Cancel] heating) 0) = [Ok, Ok]"
  by (code_simp, code_simp, code_simp)

end
