(* ===== verification/Options.thy ===== *)
theory Options
  imports Go_Flag Go_Quote Guard
begin

text \<open>
  The command line of \<open>cmd/slurm-temperature-check/main.go\<close>: the flags with their defaults,
  how the arguments become options, what the usage shows, and the logger the options ask for.
\<close>

section \<open>Flags\<close>

record options =
  o_config_path :: string
  o_hwmon_path :: string
  o_board_path :: string
  o_disable_path :: string
  o_override_path :: string
  o_interval :: int
  o_read_retries :: int
  o_log_level :: string
  o_log_format :: string
  o_list :: bool
  o_check :: bool
  o_show_version :: bool

definition default_config_path :: string where
  "default_config_path = ''/etc/slurm-temperature-check/boards.conf''"

definition default_class_dir :: string where
  "default_class_dir = ''/sys/class/hwmon''"

definition default_board_path :: string where
  "default_board_path = ''/sys/devices/virtual/dmi/id/board_name''"

definition second :: int where
  "second = 1000000000"

definition default_options :: options where
  "default_options =
    \<lparr>o_config_path = default_config_path, o_hwmon_path = default_class_dir,
     o_board_path = default_board_path,
     o_disable_path = ''/etc/slurm-temperature-check/disable'',
     o_override_path = ''/run/slurm-temperature-check/override'',
     o_interval = 10 * second, o_read_retries = 2, o_log_level = ''info'', o_log_format = ''text'',
     o_list = False, o_check = False, o_show_version = False\<rparr>"

text \<open>A flag with the kind of its value, its usage and the text of its default.\<close>

datatype flag_kind = StringFlag | BoolFlag | IntFlag | DurationFlag

definition flags :: "(string \<times> flag_kind \<times> string \<times> string) list" where
  "flags =
    [(''config'', StringFlag, ''board table'', default_config_path),
     (''hwmon.path'', StringFlag, ''sysfs hwmon class directory'', default_class_dir),
     (''board-name-path'', StringFlag, ''sysfs file holding the DMI board name'', default_board_path),
     (''disable-file'', StringFlag, ''while this file exists, checking is suspended'',
      ''/etc/slurm-temperature-check/disable''),
     (''override-file'', StringFlag, ''while this file exists, it is read in place of the sensors'',
      ''/run/slurm-temperature-check/override''),
     (''interval'', DurationFlag, ''delay between checks'', ''10s''),
     (''read-retries'', IntFlag, ''consecutive failed readings tolerated before tripping'', ''2''),
     (''log.level'', StringFlag, ''debug, info, warn or error'', ''info''),
     (''log.format'', StringFlag, ''text or json'', ''text''),
     (''list'', BoolFlag, ''print the node's temperature sensors and exit'', ''false''),
     (''check'', BoolFlag,
      ''resolve the configuration against this node, take one reading and exit'', ''false''),
     (''version'', BoolFlag, ''print the version and exit'', ''false'')]"

text \<open>
  The text of the error of \<open>flag.Value.Set\<close>, and storing the value. The names are the ones of
  the table.
\<close>

definition set_string :: "string \<Rightarrow> string \<Rightarrow> options \<Rightarrow> options" where
  "set_string name v opts =
    (if name = ''config'' then opts\<lparr>o_config_path := v\<rparr>
     else if name = ''hwmon.path'' then opts\<lparr>o_hwmon_path := v\<rparr>
     else if name = ''board-name-path'' then opts\<lparr>o_board_path := v\<rparr>
     else if name = ''disable-file'' then opts\<lparr>o_disable_path := v\<rparr>
     else if name = ''override-file'' then opts\<lparr>o_override_path := v\<rparr>
     else if name = ''log.level'' then opts\<lparr>o_log_level := v\<rparr>
     else opts\<lparr>o_log_format := v\<rparr>)"

definition set_bool :: "string \<Rightarrow> bool \<Rightarrow> options \<Rightarrow> options" where
  "set_bool name b opts =
    (if name = ''list'' then opts\<lparr>o_list := b\<rparr>
     else if name = ''check'' then opts\<lparr>o_check := b\<rparr>
     else opts\<lparr>o_show_version := b\<rparr>)"

definition set_flag :: "string \<Rightarrow> flag_kind \<Rightarrow> string \<Rightarrow> options \<Rightarrow> string + options" where
  "set_flag name kind v opts = (case kind of
     StringFlag \<Rightarrow> Inr (set_string name v opts)
   | BoolFlag \<Rightarrow> (case parse_bool v of
        None \<Rightarrow> Inl ''parse error'' | Some b \<Rightarrow> Inr (set_bool name b opts))
   | IntFlag \<Rightarrow> (case parse_int 0 64 v of
        Inl Syntax \<Rightarrow> Inl ''parse error''
      | Inl Range \<Rightarrow> Inl ''value out of range''
      | Inr n \<Rightarrow> Inr (opts\<lparr>o_read_retries := n\<rparr>))
   | DurationFlag \<Rightarrow> (case parse_duration v of
        None \<Rightarrow> Inl ''parse error'' | Some d \<Rightarrow> Inr (opts\<lparr>o_interval := d\<rparr>)))"

section \<open>Parsing\<close>

datatype flag_error =
    HelpRequested
  | BadFlag string
  | NotDefined string
  | BadBool string string string
  | NeedsArgument string
  | BadValue string string string

text \<open>
  \<open>FlagSet.Parse\<close>: flags are taken from the front until the first argument that is none; what
  is left are the positional arguments. A flag that is not boolean takes its value from behind its
  \<open>=\<close> or, without one, from the next argument.
\<close>

fun parse_args :: "options \<Rightarrow> string list \<Rightarrow> flag_error + options \<times> string list" where
  "parse_args opts [] = Inr (opts, [])"
| "parse_args opts (s # args) =
    (case split_flag s of
       NonFlag \<Rightarrow> Inr (opts, s # args)
     | Terminator \<Rightarrow> Inr (opts, args)
     | BadSyntax \<Rightarrow> Inl (BadFlag s)
     | FlagArg name val \<Rightarrow>
        (case map_of flags name of
           None \<Rightarrow> if name = ''help'' \<or> name = ''h'' then Inl HelpRequested else Inl (NotDefined name)
         | Some (kind, _) \<Rightarrow>
            if kind = BoolFlag then
              (let v = (case val of None \<Rightarrow> ''true'' | Some v \<Rightarrow> v) in
               case set_flag name kind v opts of
                 Inl e \<Rightarrow> Inl (BadBool v name e)
               | Inr opts' \<Rightarrow> parse_args opts' args)
            else (case val of
               Some v \<Rightarrow> (case set_flag name kind v opts of
                   Inl e \<Rightarrow> Inl (BadValue v name e)
                 | Inr opts' \<Rightarrow> parse_args opts' args)
             | None \<Rightarrow> (case args of
                 [] \<Rightarrow> Inl (NeedsArgument name)
               | v # rest \<Rightarrow> (case set_flag name kind v opts of
                   Inl e \<Rightarrow> Inl (BadValue v name e)
                 | Inr opts' \<Rightarrow> parse_args opts' rest)))))"

declare parse_args.simps(2) [simp del]

definition flag_error_text :: "(nat \<Rightarrow> bool) \<Rightarrow> flag_error \<Rightarrow> string" where
  "flag_error_text ip e = (case e of
     HelpRequested \<Rightarrow> ''flag: help requested''
   | BadFlag s \<Rightarrow> ''bad flag syntax: '' @ s
   | NotDefined name \<Rightarrow> ''flag provided but not defined: -'' @ name
   | BadBool v name err \<Rightarrow>
       ''invalid boolean value '' @ quote ip v @ '' for -'' @ name @ '': '' @ err
   | NeedsArgument name \<Rightarrow> ''flag needs an argument: -'' @ name
   | BadValue v name err \<Rightarrow>
       ''invalid value '' @ quote ip v @ '' for flag -'' @ name @ '': '' @ err)"

section \<open>Usage\<close>

text \<open>
  One line of \<open>PrintDefaults\<close>. No usage names its value in back quotes, none has more than one
  line and no flag has a name of one letter.
\<close>

definition kind_name :: "flag_kind \<Rightarrow> string" where
  "kind_name k = (case k of
     StringFlag \<Rightarrow> ''string'' | BoolFlag \<Rightarrow> [] | IntFlag \<Rightarrow> ''int'' | DurationFlag \<Rightarrow> ''duration'')"

definition zero_text :: "flag_kind \<Rightarrow> string" where
  "zero_text k = (case k of
     StringFlag \<Rightarrow> [] | BoolFlag \<Rightarrow> ''false'' | IntFlag \<Rightarrow> ''0'' | DurationFlag \<Rightarrow> ''0s'')"

definition flag_usage :: "(nat \<Rightarrow> bool) \<Rightarrow> string \<times> flag_kind \<times> string \<times> string \<Rightarrow> string" where
  "flag_usage ip f = (case f of (name, kind, use, def) \<Rightarrow>
     ''  -'' @ name @ (if kind_name kind = [] then [] else '' '' @ kind_name kind)
     @ [newline] @ ''    '' @ [CHR 0x09] @ use
     @ (if def = zero_text kind then []
        else if kind = StringFlag then '' (default '' @ quote ip def @ '')''
        else '' (default '' @ def @ '')'')
     @ [newline])"

definition usage :: "(nat \<Rightarrow> bool) \<Rightarrow> string" where
  "usage ip =
     ''Usage: slurm-temperature-check [flags]'' @ [newline, newline]
     @ ''Exits 0 when asked to stop, 1 when the node must stop running jobs,'' @ [newline]
     @ ''2 when it cannot arm at all.'' @ [newline, newline] @ ''Flags:'' @ [newline]
     @ concat (map (flag_usage ip) (sort_key fst flags))"

section \<open>The logger\<close>

datatype log_format = TextFormat | JsonFormat

datatype logger_error = UnknownLevel string | UnknownFormat string

definition new_logger :: "string \<Rightarrow> string \<Rightarrow> logger_error + level \<times> log_format" where
  "new_logger lvl format =
    and_then
      (if lower_is lvl ''debug'' then Inr Debug
       else if lower_is lvl ''info'' then Inr Info
       else if lower_is lvl ''warn'' \<or> lower_is lvl ''warning'' then Inr Warn
       else if lower_is lvl ''error'' then Inr Error
       else Inl (UnknownLevel lvl)) (\<lambda>l.
     if lower_is format ''text'' then Inr (l, TextFormat)
     else if lower_is format ''json'' then Inr (l, JsonFormat)
     else Inl (UnknownFormat format))"

definition logger_error_text :: "(nat \<Rightarrow> bool) \<Rightarrow> logger_error \<Rightarrow> string" where
  "logger_error_text ip e = (case e of
     UnknownLevel s \<Rightarrow> ''unknown log level '' @ quote ip s
   | UnknownFormat s \<Rightarrow> ''unknown log format '' @ quote ip s)"

text \<open>Levels are ordered by severity; the handler drops what is below its level.\<close>

definition severity :: "level \<Rightarrow> int" where
  "severity l = (case l of Debug \<Rightarrow> - 4 | Info \<Rightarrow> 0 | Warn \<Rightarrow> 4 | Error \<Rightarrow> 8)"

instantiation level :: linorder
begin

definition less_eq_level :: "level \<Rightarrow> level \<Rightarrow> bool" where
  "less_eq_level l m \<longleftrightarrow> severity l \<le> severity m"

definition less_level :: "level \<Rightarrow> level \<Rightarrow> bool" where
  "less_level l m \<longleftrightarrow> severity l < severity m"

instance
  by standard (auto simp: less_eq_level_def less_level_def severity_def split: level.splits)

end

definition emitted :: "level \<Rightarrow> (level \<times> 'a) list \<Rightarrow> (level \<times> 'a) list" where
  "emitted lvl lines = filter (\<lambda>(l, _). lvl \<le> l) lines"

end
