(* ===== verification/Select.thy ===== *)
theory Select
  imports Hwmon Go_Unicode
begin

text \<open>
  \<open>internal/hwmon/match.go\<close>: which of the discovered sensors a board entry's references
  mean. \<open>strings.EqualFold\<close> takes the table of \<open>unicode.SimpleFold\<close>, which is data
  of the Unicode standard, as the argument \<open>sf\<close>.
\<close>

section \<open>Selection\<close>

datatype select_error =
    NoChipConfigured
  | NoChipMatches string
  | NoSuchSensor string string string

definition describe :: "sensor list \<Rightarrow> string" where
  "describe sensors = join '', '' (map (\<lambda>s.
     if s_label s \<noteq> [] then s_attr s @ '' ('' @ s_label s @ '')'' else s_attr s) sensors)"

definition chip_matches :: "string \<Rightarrow> sensor \<Rightarrow> bool" where
  "chip_matches chip_ref s \<longleftrightarrow> s_chip s = chip_ref \<or> has_prefix (s_chip s) (chip_ref @ ''-'')"

definition sensor_matches :: "(nat \<Rightarrow> nat) \<Rightarrow> string \<Rightarrow> sensor \<Rightarrow> bool" where
  "sensor_matches sf sensor_ref s \<longleftrightarrow> equal_fold sf (s_label s) sensor_ref \<or> s_attr s = sensor_ref"

text \<open>The loop of the empty reference, with the device directories seen so far.\<close>

fun first_per_device :: "string list \<Rightarrow> sensor list \<Rightarrow> sensor list" where
  "first_per_device seen [] = []"
| "first_per_device seen (s # ss) =
    (let dev = path_dir (s_path s) in
     if dev \<in> set seen then first_per_device seen ss
     else s # first_per_device (dev # seen) ss)"

definition select :: "(nat \<Rightarrow> nat) \<Rightarrow> sensor list \<Rightarrow> string \<Rightarrow> string \<Rightarrow> select_error + sensor list" where
  "select sf sensors chip_ref sensor_ref =
    (if chip_ref = [] then Inl NoChipConfigured
     else let on_chip = filter (chip_matches chip_ref) sensors in
       if on_chip = [] then Inl (NoChipMatches chip_ref)
       else if sensor_ref = [] then Inr (first_per_device [] on_chip)
       else let out = filter (sensor_matches sf sensor_ref) on_chip in
         if out = [] then Inl (NoSuchSensor chip_ref sensor_ref (describe on_chip))
         else Inr out)"

section \<open>The loop of the empty reference\<close>

abbreviation device :: "sensor \<Rightarrow> string" where
  "device s \<equiv> path_dir (s_path s)"

lemma subseq_first_per_device: "subseq (first_per_device seen ss) ss"
  by (induction seen ss rule: first_per_device.induct) (auto simp: Let_def)

lemma set_first_per_device: "set (first_per_device seen ss) \<subseteq> set ss"
  by (induction seen ss rule: first_per_device.induct) (auto simp: Let_def)

lemma first_per_device_devices:
  "distinct (map device (first_per_device seen ss))
    \<and> device ` set (first_per_device seen ss) = device ` set ss - set seen"
  by (induction seen ss rule: first_per_device.induct) (auto simp: Let_def)

lemma first_per_device_first:
  assumes "s \<in> set (first_per_device seen ss)"
  shows "\<exists>pre post. ss = pre @ s # post \<and> device s \<notin> device ` set pre"
  using assms
proof (induction seen ss rule: first_per_device.induct)
  case (2 seen a ss)
  show ?case
  proof (cases "device a \<in> set seen")
    case True
    then obtain pre post where p: "ss = pre @ s # post" "device s \<notin> device ` set pre"
      using 2 by (auto simp: Let_def)
    have "device s \<notin> set seen"
      using 2(3) True first_per_device_devices [of seen ss] by (auto simp: Let_def)
    then have "device s \<noteq> device a" using True by auto
    then have "a # ss = (a # pre) @ s # post \<and> device s \<notin> device ` set (a # pre)" using p by simp
    then show ?thesis by blast
  next
    case False
    then consider "s = a" | "s \<in> set (first_per_device (device a # seen) ss)"
      using 2 by (auto simp: Let_def)
    then show ?thesis
    proof cases
      case 1
      then show ?thesis by (intro exI [of _ "[]"] exI [of _ ss]) simp
    next
      case s: 2
      then obtain pre post where p: "ss = pre @ s # post" "device s \<notin> device ` set pre"
        using 2 False by auto
      have "device s \<noteq> device a"
        using s first_per_device_devices [of "device a # seen" ss] by auto
      then have "a # ss = (a # pre) @ s # post \<and> device s \<notin> device ` set (a # pre)" using p by simp
      then show ?thesis by blast
    qed
  qed
qed simp

section \<open>Shape of the result\<close>

lemma select_cases:
  assumes "select sf sensors chip_ref sensor_ref = Inr out"
  shows "chip_ref \<noteq> [] \<and> filter (chip_matches chip_ref) sensors \<noteq> [] \<and>
    (if sensor_ref = [] then out = first_per_device [] (filter (chip_matches chip_ref) sensors)
     else out = filter (\<lambda>s. chip_matches chip_ref s \<and> sensor_matches sf sensor_ref s) sensors \<and> out \<noteq> [])"
  using assms unfolding select_def Let_def
  by (auto split: if_splits simp: filter_empty_conv)

lemma select_Inr:
  assumes "select sf sensors chip_ref sensor_ref = Inr out"
  shows "out \<noteq> [] \<and> subseq out sensors \<and> (\<forall>s \<in> set out. s \<in> set sensors \<and> chip_matches chip_ref s)"
proof -
  let ?c = "filter (chip_matches chip_ref) sensors"
  have c: "?c \<noteq> []" using select_cases [OF assms] by blast
  show ?thesis
  proof (cases "sensor_ref = []")
    case True
    then have out: "out = first_per_device [] ?c" using select_cases [OF assms] by simp
    have "out \<noteq> []" using c first_per_device_devices [of "[]" ?c] out by auto
    moreover have "subseq out sensors"
      unfolding out by (rule subseq_order.order_trans [OF subseq_first_per_device subseq_filter_left])
    moreover have "set out \<subseteq> set ?c" unfolding out by (rule set_first_per_device)
    ultimately show ?thesis by auto
  next
    case False
    then show ?thesis using select_cases [OF assms] by (auto simp: subseq_filter_left)
  qed
qed

section \<open>Devices of a discovered list\<close>

text \<open>
  Two sensors found in one directory carry one chip name: it is composed once per device.
\<close>

lemma path_join_plain_inject:
  assumes "plain_name a" "plain_name b" "d \<noteq> []" "path_join d a = path_join d b"
  shows "a = b"
proof -
  have "elements (path_join d n) = normal (rooted d) (elements d) @ [n]" if "plain_name n" for n
    unfolding path_join_plain [OF that assms(3)]
    using norm_props [of "rooted d" d] that by (intro elements_render) (auto simp: plain_name_def)
  then show ?thesis using assms by (metis last_snoc)
qed

lemma chip_sensors_chip:
  assumes "run_state (chip_sensors dir chip w) t = (Inr ss, u)" "s \<in> set ss"
  shows "\<exists>f. sensor_of dir chip f s"
proof (cases "fs_dir (w t) dir")
  case (Inl e)
  then show ?thesis using assms by (simp add: chip_sensors_def)
next
  case (Inr files)
  then have "fst (run_state (sensors_loop dir chip files w) (Suc t)) = ss"
    using assms by (auto simp: chip_sensors_def split: prod.splits)
  then show ?thesis
    using sensors_loop_sound [of dir chip files w "Suc t" ss] assms(2) by (metis prod.collapse)
qed

lemma discover_loop_same_chip:
  assumes "run_state (discover_loop class_dir es w) t = (out, u)" and "class_dir \<noteq> []"
    and "distinct es" "\<forall>e \<in> set es. plain_name e" and "a \<in> set out" "b \<in> set out" "device a = device b"
  shows "s_chip a = s_chip b"
  using assms
proof (induction es arbitrary: t out u)
  case (Cons e es)
  obtain c t1 where c: "run_state (chip_name (path_join class_dir e) w) t = (c, t1)"
    by (cases "run_state (chip_name (path_join class_dir e) w) t")
  show ?case
  proof (cases c)
    case (Inl err)
    then show ?thesis using Cons c by auto
  next
    case (Inr chip)
    obtain r t2 where r: "run_state (chip_sensors (path_join class_dir e) chip w) t1 = (r, t2)"
      by (cases "run_state (chip_sensors (path_join class_dir e) chip w) t1")
    show ?thesis
    proof (cases r)
      case (Inl err)
      then show ?thesis using Cons c r Inr by auto
    next
      case ss: (Inr ss)
      obtain rest t3 where l: "run_state (discover_loop class_dir es w) t2 = (rest, t3)"
        by (cases "run_state (discover_loop class_dir es w) t2")
      have out: "out = ss @ rest" using Cons.prems(1) c r Inr ss l by simp
      have here: "device s = path_join class_dir e \<and> s_chip s = chip" if "s \<in> set ss" for s
        using chip_sensors_chip [OF r [unfolded ss] that] path_dir_entry [OF temp_attr_plain Cons.prems(2)]
        by (auto simp: sensor_of_def)
      have there: "device s \<noteq> path_join class_dir e" if rest: "s \<in> set rest" for s
      proof -
        obtain e' chip' f where e': "e' \<in> set es" "sensor_of (path_join class_dir e') chip' f s"
          using discover_loop_sound [OF l rest] by blast
        then have "device s = path_join class_dir e'"
          using path_dir_entry [OF temp_attr_plain Cons.prems(2)] by (auto simp: sensor_of_def)
        moreover have "e' \<noteq> e" using e'(1) Cons.prems(3) by auto
        ultimately show ?thesis
          using path_join_plain_inject [of e' e class_dir] Cons.prems(2,4) e'(1) by auto
      qed
      show ?thesis
        using Cons.prems(5-7) here there Cons.IH [OF l Cons.prems(2)] Cons.prems(3,4)
        unfolding out by (auto; metis)
    qed
  qed
qed simp

section \<open>Properties\<close>

definition sample_selected :: "sensor list" where
  "sample_selected = [sample_sensors ! 0, sample_sensors ! 2]"

lemma select_sample:
  "select (\<lambda>r. r) sample_sensors ''k10temp'' ''tctl'' = Inr sample_selected"
  "select (\<lambda>r. r) sample_sensors ''k10temp'' [] = Inr sample_selected"
  "select (\<lambda>r. r) sample_sensors ''k10temp-pci-00c3'' ''temp1'' = Inr [hd sample_sensors]"
  by code_simp+

text \<open>
  C33: what \<open>Select\<close> returns is never empty, keeps discovery order, and holds only sensors of
  chips the reference names, in full or by the driver prefix in front of a dash.
\<close>

theorem select_sound:
  assumes "select sf sensors chip_ref sensor_ref = Inr out"
  shows "out \<noteq> [] \<and> subseq out sensors \<and>
    (\<forall>s \<in> set out. s \<in> set sensors
      \<and> (s_chip s = chip_ref \<or> (\<exists>rest. s_chip s = chip_ref @ ''-'' @ rest)))"
  using select_Inr [OF assms] by (auto simp: chip_matches_def has_prefix_def prefix_def)

theorem select_sound_witness:
  "subseq [hd sample_sensors] sample_sensors"
  using select_sound [OF select_sample(3)] by blast

text \<open>
  C34: nothing selected is an error, and only that. \<open>Select\<close> fails exactly if no chip is
  configured, no sensor sits on a matching chip, or none of those on one carries the sensor
  reference, and the error tells which.
\<close>

theorem select_error_iff:
  "select sf sensors chip_ref sensor_ref = Inl e \<longleftrightarrow>
    (chip_ref = [] \<and> e = NoChipConfigured) \<or>
    (chip_ref \<noteq> [] \<and> (\<forall>s \<in> set sensors. \<not> chip_matches chip_ref s) \<and> e = NoChipMatches chip_ref) \<or>
    (chip_ref \<noteq> [] \<and> (\<exists>s \<in> set sensors. chip_matches chip_ref s) \<and> sensor_ref \<noteq> []
      \<and> (\<forall>s \<in> set sensors. \<not> (chip_matches chip_ref s \<and> sensor_matches sf sensor_ref s))
      \<and> e = NoSuchSensor chip_ref sensor_ref (describe (filter (chip_matches chip_ref) sensors)))"
  unfolding select_def Let_def by (auto simp: filter_empty_conv)

theorem select_error_iff_witness:
  "select (\<lambda>r. r) sample_sensors ''k10temp'' ''Tdie''
    = Inl (NoSuchSensor ''k10temp'' ''Tdie'' ''temp1 (Tctl), temp3 (Tccd1), temp1 (Tctl)'')"
proof -
  have d: "describe (filter (chip_matches ''k10temp'') sample_sensors) = ''temp1 (Tctl), temp3 (Tccd1), temp1 (Tctl)''"
    and m: "\<not> list_ex (\<lambda>s. chip_matches ''k10temp'' s \<and> sensor_matches (\<lambda>r. r) ''Tdie'' s) sample_sensors"
    and c: "list_ex (chip_matches ''k10temp'') sample_sensors" by code_simp+
  show ?thesis
    unfolding select_error_iff using d m c by (auto simp: list_ex_iff)
qed

text \<open>
  C35: with a sensor reference, the selected sensors are exactly those on matching chips whose
  label equals the reference without regard to case, or whose attribute is the reference. For
  text in ASCII that is equality of the labels with the letters lowered.
\<close>

theorem select_by_reference:
  assumes "select sf sensors chip_ref sensor_ref = Inr out" "sensor_ref \<noteq> []"
    and "ascii sensor_ref" "\<forall>s \<in> set sensors. ascii (s_label s)"
  shows "out = filter (\<lambda>s. chip_matches chip_ref s \<and>
      (map (ascii_lower \<circ> byte) (s_label s) = map (ascii_lower \<circ> byte) sensor_ref
        \<or> s_attr s = sensor_ref)) sensors"
  using select_cases [OF assms(1)] assms(2-4) equal_fold_ascii
  by (auto simp: sensor_matches_def intro!: filter_cong)

theorem select_by_reference_witness:
  "sample_selected = filter (\<lambda>s. chip_matches ''k10temp'' s \<and>
      (map (ascii_lower \<circ> byte) (s_label s) = map (ascii_lower \<circ> byte) ''tctl''
        \<or> s_attr s = ''tctl'')) sample_sensors"
  by (rule select_by_reference [OF select_sample(1)])
    (simp_all add: ascii_def byte_def sample_sensors_def)

text \<open>
  C36: without a sensor reference, every device with a matching chip is watched, by exactly one
  of its sensors: the first of the device in discovery order. Devices are told apart by their
  directory, so that two devices that compose to one chip name are both watched.
\<close>

theorem select_one_per_device:
  assumes "select sf sensors chip_ref [] = Inr out"
  shows "distinct (map device out)
    \<and> set (map device out) = device ` {s \<in> set sensors. chip_matches chip_ref s}
    \<and> (\<forall>s \<in> set out. \<exists>pre post. filter (chip_matches chip_ref) sensors = pre @ s # post
         \<and> device s \<notin> device ` set pre)"
proof -
  have out: "out = first_per_device [] (filter (chip_matches chip_ref) sensors)"
    using select_cases [OF assms] by simp
  show ?thesis
    unfolding out using first_per_device_devices [of "[]"] first_per_device_first by auto
qed

theorem select_one_per_device_witness:
  "distinct (map device sample_selected)
    \<and> set (map device sample_selected) = device ` {s \<in> set sample_sensors. chip_matches ''k10temp'' s}"
  using select_one_per_device [OF select_sample(2)] by blast

text \<open>
  Discovery and selection together. On sensors \<open>Discover\<close> returned, whatever changed
  while it ran, the sensor selected for a device by the empty reference carries the lowest
  number of all the device's sensors. The entries of a directory are taken to be distinct
  plain names.
\<close>

theorem select_lowest:
  assumes srt: "slice_sort sort_slice" and dir: "class_dir \<noteq> []"
    and run: "run_state (discover sort_slice class_dir w) t = (Inr sensors, u)"
    and names: "fs_dir (w t) class_dir = Inr es" "distinct es" "\<forall>e \<in> set es. plain_name e"
    and sel: "select sf sensors chip_ref [] = Inr out"
    and s: "s \<in> set out" and s': "s' \<in> set sensors" "device s' = device s"
  shows "s_index s \<le> s_index s'"
proof -
  obtain ss where ss: "run_state (discover_loop class_dir es w) (Suc t) = (ss, u)"
    and sensors: "sensors = sort_slice sensor_less ss"
    using discover_Inr [OF run] names(1) by auto
  have set: "set sensors = set ss" unfolding sensors by (rule slice_sort.set_sort_slice [OF srt])
  have "s \<in> set sensors" and on: "chip_matches chip_ref s" using select_Inr [OF sel] s by auto
  then have chip: "s_chip s' = s_chip s"
    using discover_loop_same_chip [OF ss dir names(2,3), of s' s] s' set by simp
  have ord: "in_order sensor_less sensors"
    unfolding sensors by (rule slice_sort.ordered [OF srt strict_weak_sensor_less])
  obtain pre post where p: "filter (chip_matches chip_ref) sensors = pre @ s # post"
    "device s \<notin> device ` set pre"
    using first_per_device_first [of s "[]" "filter (chip_matches chip_ref) sensors"]
      select_cases [OF sel] s by auto
  have "s' \<in> set (pre @ s # post)" using s'(1) on chip unfolding p(1) [symmetric] by (simp add: chip_matches_def)
  moreover have "s' \<notin> set pre"
  proof
    assume "s' \<in> set pre"
    then have "device s' \<in> device ` set pre" by (rule imageI)
    then show False using p(2) s'(2) by simp
  qed
  ultimately have "s' = s \<or> s' \<in> set post" by simp
  moreover have "sorted_wrt (\<lambda>x y. \<not> sensor_less y x) (pre @ s # post)"
    using sorted_wrt_filter [OF ord [unfolded in_order_def], of "chip_matches chip_ref"] p(1) by simp
  ultimately show ?thesis using chip by (auto simp: sorted_wrt_append sensor_less_def)
qed

theorem select_lowest_witness:
  "s_index (sample_sensors ! 0) \<le> s_index (sample_sensors ! 1)"
proof (rule select_lowest [OF insertion.slice_sort_axioms _ discover_sample _ _ _ select_sample(2)])
  show "fs_dir sample class_path = Inr [''hwmon0'', ''hwmon1'']" by code_simp
  show "device (sample_sensors ! 1) = device (sample_sensors ! 0)" by code_simp
qed (simp_all add: class_path_def plain_name_def sample_sensors_def sample_selected_def)

end
