(* ===== verification/Dmi.thy ===== *)
theory Dmi
  imports Sysfs Sample_Node
begin

text \<open>\<open>internal/dmi/dmi.go\<close>: the board name the kernel exports from the SMBIOS tables.\<close>

datatype dmi_error = BoardUnreadable io_err | BoardEmpty string

definition board_name :: "string \<Rightarrow> world \<Rightarrow> (dmi_error + string) io" where
  "board_name path w =
    try_io (wrap_io BoardUnreadable (os_read_file path w)) (\<lambda>b.
      let name = trim_space b in
      State_Monad.return (if name = [] then Inl (BoardEmpty path) else Inr name))"

text \<open>\<open>filepath.Join\<close> of several elements joins them with slashes and cleans the result.\<close>

definition board_name_in :: "string \<Rightarrow> world \<Rightarrow> (dmi_error + string) io" where
  "board_name_in dir w = board_name (path_join dir ''devices/virtual/dmi/id/board_name'') w"

lemma os_op_board_name [intro]: "os_op (board_name path)"
  unfolding board_name_def Let_def by (intro os_op_try os_op_wrap os_op_return os_op_os_calls)

interpretation board_name_op: os_op "board_name path" for path
  by (rule os_op_board_name)

lemma run_board_name:
  "run_state (board_name path w) t =
    ((case fs_read (w t) path of
        Inl e \<Rightarrow> Inl (BoardUnreadable e)
      | Inr b \<Rightarrow> if trim_space b = [] then Inl (BoardEmpty path) else Inr (trim_space b)), Suc t)"
  by (simp add: board_name_def Let_def split: sum.split)

section \<open>Properties\<close>

text \<open>
  The board's name is the trimmed content of the file, and never empty: a file that cannot be
  read, or that holds nothing but white space, is an error. It is the name \<open>boards.conf\<close> headers
  can match: those are trimmed as well.
\<close>

theorem board_name_trimmed:
  "fst (run_state (board_name path w) t) = Inr name \<longleftrightarrow>
    name \<noteq> [] \<and> trimmed name \<and> (\<exists>b. fs_read (w t) path = Inr b \<and> trim_space b = name)"
  by (auto simp: run_board_name split: sum.split)

end
