(* ===== verification/Messages.thy ===== *)
theory Messages
  imports Go_Quote Guard Select Config Dmi
begin

text \<open>
  The texts of the errors. A component's theory says which error an operation returns, with the
  values it carries; here is what the error's \<open>Error()\<close> reads, in the words of the source. The
  argument \<open>ip\<close> is the table of printable code points behind \<open>%q\<close>.
\<close>

definition nat_text :: "nat \<Rightarrow> string" where
  "nat_text n = itoa (int n)"

section \<open>Sensors\<close>

definition chip_error_text :: "chip_error \<Rightarrow> string" where
  "chip_error_text e = (case e of NameUnreadable err \<Rightarrow> err | EmptyName \<Rightarrow> ''empty hwmon name'')"

text \<open>\<open>NumError.Error\<close> of \<open>strconv\<close>, for \<open>ParseInt\<close>.\<close>

definition num_error_text :: "(nat \<Rightarrow> bool) \<Rightarrow> string \<Rightarrow> num_error \<Rightarrow> string" where
  "num_error_text ip txt e = ''strconv.ParseInt: parsing '' @ quote ip txt @ '': '' @
    (case e of Syntax \<Rightarrow> ''invalid syntax'' | Range \<Rightarrow> ''value out of range'')"

definition sensor_error_text :: "(nat \<Rightarrow> bool) \<Rightarrow> sensor_error \<Rightarrow> string" where
  "sensor_error_text ip e = (case e of
     ReadFailed name err \<Rightarrow> ''read '' @ name @ '': '' @ err
   | NotInteger name txt err \<Rightarrow>
       ''read '' @ name @ '': '' @ quote ip txt @ '' is not an integer: '' @ num_error_text ip txt err
   | ConfirmFailed name err \<Rightarrow> ''confirm '' @ name @ '': '' @ chip_error_text err
   | ChipReplaced name dir chip \<Rightarrow> ''confirm '' @ name @ '': '' @ dir @ '' now holds '' @ chip)"

definition select_error_text :: "(nat \<Rightarrow> bool) \<Rightarrow> select_error \<Rightarrow> string" where
  "select_error_text ip e = (case e of
     NoChipConfigured \<Rightarrow> ''no chip configured''
   | NoChipMatches chip_ref \<Rightarrow> ''no hwmon chip matches '' @ quote ip chip_ref
   | NoSuchSensor chip_ref sensor_ref available \<Rightarrow>
       ''chip '' @ quote ip chip_ref @ '' has no sensor '' @ quote ip sensor_ref
       @ '' (available: '' @ available @ '')'')"

section \<open>The board table and the board's name\<close>

definition threshold_error_text :: "(nat \<Rightarrow> bool) \<Rightarrow> threshold_error \<Rightarrow> string" where
  "threshold_error_text ip e = (case e of
     MaxEmpty \<Rightarrow> ''max_celsius is empty''
   | MaxNotNumber s \<Rightarrow> ''max_celsius '' @ quote ip s @ '' is not a number''
   | MaxImplausible s \<Rightarrow> ''max_celsius '' @ s @ '' is outside the plausible range 20..150'')"

definition line_text :: "nat \<Rightarrow> string" where
  "line_text n = ''line '' @ nat_text n @ '': ''"

definition config_error_text :: "(nat \<Rightarrow> bool) \<Rightarrow> config_error \<Rightarrow> string" where
  "config_error_text ip e = (case e of
     UnterminatedHeader n l \<Rightarrow> line_text n @ ''unterminated section header '' @ quote ip l
   | EmptyHeader n \<Rightarrow> line_text n @ ''empty section header''
   | DuplicateBoard n b m \<Rightarrow>
       line_text n @ ''board '' @ quote ip b @ '' is already defined on line '' @ nat_text m
   | NotKeyValue n l \<Rightarrow>
       line_text n @ quote ip l @ '' is neither a section header nor a key = value pair''
   | BeforeSection n k \<Rightarrow> line_text n @ quote ip k @ '' appears before the first [board] section''
   | SetTwice n k b \<Rightarrow> line_text n @ quote ip k @ '' is set twice in board '' @ quote ip b
   | EmptyChip n b \<Rightarrow> line_text n @ ''board '' @ quote ip b @ '' has an empty chip''
   | BadThreshold n b err \<Rightarrow> line_text n @ ''board '' @ quote ip b @ '': '' @ threshold_error_text ip err
   | UnknownKey n b k \<Rightarrow> line_text n @ ''board '' @ quote ip b @ '' has unknown key '' @ quote ip k
       @ '' (known: chip, sensor, max_celsius)''
   | LineTooLong \<Rightarrow> ''bufio.Scanner: token too long''
   | ScanFailed err \<Rightarrow> err
   | NoChip b m \<Rightarrow> ''board '' @ quote ip b @ '' (line '' @ nat_text m @ '') has no chip''
   | NoMaxCelsius b m \<Rightarrow> ''board '' @ quote ip b @ '' (line '' @ nat_text m @ '') has no max_celsius''
   | NoBoards \<Rightarrow> ''no boards configured'')"

definition load_error_text :: "(nat \<Rightarrow> bool) \<Rightarrow> load_error \<Rightarrow> string" where
  "load_error_text ip e = (case e of
     OpenFailed err \<Rightarrow> ''open board table: '' @ err
   | TableError path err \<Rightarrow> path @ '': '' @ config_error_text ip err)"

definition lookup_error_text :: "(nat \<Rightarrow> bool) \<Rightarrow> lookup_error \<Rightarrow> string" where
  "lookup_error_text ip e = (case e of
     NotInTable name known \<Rightarrow> ''board '' @ quote ip name @ '' is not in the table (configured: ''
       @ join '', '' known @ '')'')"

definition dmi_error_text :: "dmi_error \<Rightarrow> string" where
  "dmi_error_text e = (case e of
     BoardUnreadable err \<Rightarrow> ''read board name: '' @ err
   | BoardEmpty path \<Rightarrow> ''read board name: '' @ path @ '' is empty'')"

section \<open>The guard\<close>

definition read_error_text :: "(nat \<Rightarrow> bool) \<Rightarrow> read_error \<Rightarrow> string" where
  "read_error_text ip e = (case e of
     NoSensors \<Rightarrow> ''no sensors selected''
   | SensorFailed err \<Rightarrow> sensor_error_text ip err
   | FileUnreadable path err \<Rightarrow> ''read '' @ path @ '': '' @ err
   | NotTemperature path s \<Rightarrow>
       ''read '' @ path @ '': '' @ quote ip s @ '' is not a temperature in degrees Celsius'')"

definition reason_text :: "(nat \<Rightarrow> bool) \<Rightarrow> reason \<Rightarrow> string" where
  "reason_text ip r = (case r of
     Unread err \<Rightarrow> read_error_text ip err
   | OverLimit v limit board \<Rightarrow>
       mc_string v @ '' exceeds the '' @ mc_string limit @ '' limit of board '' @ board)"

text \<open>The error \<open>Run\<close> returns when the guard tripped.\<close>

definition tripped_text :: "(nat \<Rightarrow> bool) \<Rightarrow> reason option \<Rightarrow> string" where
  "tripped_text ip why = ''thermal guard tripped: '' @
    (case why of None \<Rightarrow> [] | Some r \<Rightarrow> reason_text ip r)"

end
