(* ===== verification/Sdnotify.thy ===== *)
theory Sdnotify
  imports Go_Numbers
begin

text \<open>
  \<open>internal/sdnotify/sdnotify.go\<close>: readiness, status and keep-alive messages to the service
  manager, and how often the keep-alive is due. The environment is a function from variable
  names to values, the empty string for an unset variable; whether a socket can be connected to
  is for the network stack to say, the argument \<open>dial\<close>. What is sent is the list of
  datagrams with the address each goes to.
\<close>

section \<open>Messages\<close>

text \<open>A \<open>*Notifier\<close>: none is the nil pointer, which is silent; else the address connected to.\<close>

type_synonym notifier = "string option"

type_synonym datagram = "string \<times> string"

type_synonym environment = "string \<Rightarrow> string"

definition notifier_new :: "(string \<Rightarrow> bool) \<Rightarrow> environment \<Rightarrow> notifier" where
  "notifier_new dial env =
    (let addr = env ''NOTIFY_SOCKET'' in
     if addr = [] then None
     else let addr' = (if hd addr = CHR ''@'' then CHR 0x00 # tl addr else addr) in
       if dial addr' then Some addr' else None)"

definition send :: "notifier \<Rightarrow> string \<Rightarrow> datagram list" where
  "send n state = (case n of None \<Rightarrow> [] | Some addr \<Rightarrow> [(addr, state @ [CHR 0x0A])])"

definition notify_ready :: "notifier \<Rightarrow> string \<Rightarrow> datagram list" where
  "notify_ready n status = send n (''READY=1'' @ [CHR 0x0A] @ ''STATUS='' @ status)"

definition notify_status :: "notifier \<Rightarrow> string \<Rightarrow> datagram list" where
  "notify_status n status = send n (''STATUS='' @ status)"

definition notify_alive :: "notifier \<Rightarrow> datagram list" where
  "notify_alive n = send n ''WATCHDOG=1''"

section \<open>The watchdog's period\<close>

text \<open>A \<open>time.Duration\<close> is an \<open>int64\<close> of nanoseconds.\<close>

type_synonym duration = int

definition microsecond :: duration where
  "microsecond = 1000"

definition watchdog_interval :: "environment \<Rightarrow> int \<Rightarrow> duration" where
  "watchdog_interval env pid =
    (if env ''WATCHDOG_PID'' \<noteq> [] \<and> env ''WATCHDOG_PID'' \<noteq> itoa pid then 0
     else (case parse_int 10 64 (env ''WATCHDOG_USEC'') of
         Inl _ \<Rightarrow> 0
       | Inr usec \<Rightarrow> if usec \<le> 0 then 0 else go_div (i64 (usec * microsecond)) 2))"

lemma watchdog_interval_cases:
  assumes "watchdog_interval env pid \<noteq> 0"
  obtains usec where "parse_int 10 64 (env ''WATCHDOG_USEC'') = Inr usec" "0 < usec"
    "watchdog_interval env pid = go_div (i64 (usec * 1000)) 2"
  using assms
  by (auto simp: watchdog_interval_def microsecond_def split: if_splits sum.splits)

lemma watchdog_interval_bounds: "in_i64 (watchdog_interval env pid)"
proof (cases "watchdog_interval env pid = 0")
  case False
  then obtain usec where w: "watchdog_interval env pid = go_div (i64 (usec * 1000)) 2"
    by (rule watchdog_interval_cases)
  have "in_i64 (go_div n 2)" if "in_i64 n" for n
    using that by (auto simp: go_div_def in_i64_def sgn_if)
  then show ?thesis by (simp add: w)
qed (simp add: in_i64_def)

section \<open>Properties\<close>

text \<open>
  The keep-alive is due twice per timeout. For a timeout of up to 9223372036854775
  microseconds that is addressed to this process, or to no process in particular, the period is
  exactly half of it, in nanoseconds, and positive; variables addressed to another process, or
  that hold no positive number, ask for no keep-alive at all.
\<close>

theorem watchdog_half:
  assumes "env ''WATCHDOG_USEC'' = itoa usec" "in_i64 usec" "usec \<le> 9223372036854775"
  shows "(env ''WATCHDOG_PID'' \<in> {[], itoa pid} \<and> 0 < usec \<longrightarrow>
      2 * watchdog_interval env pid = usec * 1000 \<and> 0 < watchdog_interval env pid) \<and>
    (env ''WATCHDOG_PID'' \<notin> {[], itoa pid} \<or> usec \<le> 0 \<longrightarrow> watchdog_interval env pid = 0)"
proof -
  have p: "parse_int 10 64 (env ''WATCHDOG_USEC'') = Inr usec"
    unfolding assms(1) itoa_def using assms(2) by (intro parse_int_fmt_int) (simp_all add: in_i64_def)
  have "i64 (usec * 1000) = usec * 1000" if "0 < usec"
    using that assms(3) by (intro i64_id) (simp add: in_i64_def)
  then show ?thesis by (auto simp: watchdog_interval_def p microsecond_def go_div_nonneg)
qed

theorem watchdog_half_witness:
  "watchdog_interval ((\<lambda>_. [])(''WATCHDOG_USEC'' := itoa 30000000)) 4711 = 15000000000"
  using watchdog_half [of "(\<lambda>_. [])(''WATCHDOG_USEC'' := itoa 30000000)" 30000000 4711]
  by (simp add: in_i64_def)

text \<open>
  Beyond that bound the multiplication wraps around. With one microsecond more the period is
  negative, which the callers take for an unset watchdog.
\<close>

theorem watchdog_wraps:
  "watchdog_interval ((\<lambda>_. [])(''WATCHDOG_USEC'' := ''9223372036854776'')) pid < 0"
proof -
  have "parse_int 10 64 ''9223372036854776'' = Inr 9223372036854776" by code_simp
  then show ?thesis by (simp add: watchdog_interval_def microsecond_def i64_def go_div_def)
qed

text \<open>
  C40: what the service manager receives. Without a socket nothing is sent; with one every message
  is exactly one datagram, to that socket, of one assignment per line, each line ended: readiness with
  the status, a status, a keep-alive. It reads back line by line as these assignments as long as the
  status holds no newline.
\<close>

theorem messages_read_back:
  "notify_ready None status = [] \<and> notify_status None status = [] \<and> notify_alive None = []
    \<and> notify_ready (Some addr) status = [(addr, concat (map (\<lambda>l. l @ [CHR 0x0A]) [''READY=1'', ''STATUS='' @ status]))]
    \<and> notify_status (Some addr) status = [(addr, ''STATUS='' @ status @ [CHR 0x0A])]
    \<and> notify_alive (Some addr) = [(addr, ''WATCHDOG=1'' @ [CHR 0x0A])]
    \<and> map (raw_lines \<circ> snd) (notify_alive (Some addr)) = [[''WATCHDOG=1'']]
    \<and> (CHR 0x0A \<notin> set status \<longrightarrow>
        map (raw_lines \<circ> snd) (notify_ready (Some addr) status) = [[''READY=1'', ''STATUS='' @ status]]
        \<and> map (raw_lines \<circ> snd) (notify_status (Some addr) status) = [[''STATUS='' @ status]])"
proof -
  have r: "raw_lines (''READY=1'' @ [CHR 0x0A] @ ''STATUS='' @ status @ [CHR 0x0A])
      = [''READY=1'', ''STATUS='' @ status]" if "CHR 0x0A \<notin> set status"
    using raw_lines_concat [of "[''READY=1'', ''STATUS='' @ status]"] that by simp
  have s: "raw_lines (''STATUS='' @ status @ [CHR 0x0A]) = [''STATUS='' @ status]" if "CHR 0x0A \<notin> set status"
    using raw_lines_concat [of "[''STATUS='' @ status]"] that by simp
  have a: "raw_lines (''WATCHDOG=1'' @ [CHR 0x0A]) = [''WATCHDOG=1'']"
    using raw_lines_concat [of "[''WATCHDOG=1'']"] by simp
  show ?thesis
    using r s a by (simp add: notify_ready_def notify_status_def notify_alive_def send_def)
qed

theorem messages_read_back_witness:
  "map (raw_lines \<circ> snd) (notify_status (Some ''/run/systemd/notify'') ''Watching k10temp'')
      = [[''STATUS=Watching k10temp'']]
    \<and> notify_alive (Some ''/run/systemd/notify'') = [(''/run/systemd/notify'', ''WATCHDOG=1'' @ [CHR 0x0A])]"
proof -
  have "CHR 0x0A \<notin> set ''Watching k10temp''" by simp
  moreover have "''STATUS='' @ ''Watching k10temp'' = ''STATUS=Watching k10temp''" by simp
  ultimately show ?thesis
    using messages_read_back [of "''Watching k10temp''" "''/run/systemd/notify''"] by metis
qed

end
