(* ===== verification/Arming.thy ===== *)
theory Arming
  imports Options Messages Sdnotify
begin

text \<open>
  \<open>arm\<close> and \<open>rearmWhenResumed\<close> of \<open>cmd/slurm-temperature-check/main.go\<close>: resolving the
  configuration against the node, and holding a node that cannot be armed while its disable file is
  present.
\<close>

section \<open>The platform\<close>

text \<open>
  What the process finds around it and the source does not say: the Unicode tables behind \<open>%q\<close>
  and \<open>EqualFold\<close>, whether this release of Go writes a backspace and a form feed in JSON with a
  letter, the sort, whether the notification socket can be connected to, the
  environment, the process's number and the version set at build time.
\<close>

record platform =
  p_printable :: "nat \<Rightarrow> bool"
  p_fold :: "nat \<Rightarrow> nat"
  p_json_short :: bool
  p_sort :: "sensor sorter"
  p_dial :: "string \<Rightarrow> bool"
  p_env :: environment
  p_pid :: int
  p_version :: string

section \<open>Arming\<close>

datatype arm_error =
    NoClass string io_err
  | NoTemperatures string
  | NoTable load_error
  | NoBoard dmi_error
  | NotListed lookup_error
  | NotSelected string string nat select_error

definition arm_error_text :: "(nat \<Rightarrow> bool) \<Rightarrow> arm_error \<Rightarrow> string" where
  "arm_error_text ip e = (case e of
     NoClass path err \<Rightarrow> ''read the hwmon class at '' @ path @ '': '' @ err
   | NoTemperatures path \<Rightarrow> ''the node exports no temperature sensors at all ('' @ path @ '')''
   | NoTable err \<Rightarrow> load_error_text ip err
   | NoBoard err \<Rightarrow> dmi_error_text err
   | NotListed err \<Rightarrow> lookup_error_text ip err
   | NotSelected name path n err \<Rightarrow>
       ''board '' @ name @ '' ('' @ path @ '' line '' @ nat_text n @ ''): '' @ select_error_text ip err)"

definition new_guard :: "options \<Rightarrow> string \<Rightarrow> board \<Rightarrow> sensor list \<Rightarrow> guard" where
  "new_guard opts name entry selected =
    \<lparr>g_board = name, g_max = b_max entry, g_sensors = new_sensors selected,
     g_disable_path = o_disable_path opts, g_override_path = o_override_path opts,
     g_interval = o_interval opts, g_read_retries = o_read_retries opts,
     g_failures = 0, g_last_verdict = Ok, g_last_source = [], g_started = False\<rparr>"

definition arm :: "platform \<Rightarrow> options \<Rightarrow> world \<Rightarrow> (arm_error + guard) io" where
  "arm p opts w =
    try_io (wrap_io (NoClass (o_hwmon_path opts)) (discover (p_sort p) (o_hwmon_path opts) w)) (\<lambda>sensors.
      if sensors = [] then State_Monad.return (Inl (NoTemperatures (o_hwmon_path opts)))
      else
        try_io (wrap_io NoTable (load (o_config_path opts) w)) (\<lambda>cfg.
        try_io (wrap_io NoBoard (board_name (o_board_path opts) w)) (\<lambda>name.
          State_Monad.return
            (and_then (wrap_err NotListed (lookup cfg name)) (\<lambda>entry.
             and_then
               (wrap_err (NotSelected name (o_config_path opts) (b_line entry))
                 (select (p_fold p) sensors (b_chip entry) (b_sensor entry))) (\<lambda>selected.
               Inr (new_guard opts name entry selected)))))))"

lemma os_op_arm [intro]: "os_op (arm p opts)"
  unfolding arm_def
  by (intro os_op_try os_op_wrap os_op_if os_op_return os_op_discover os_op_load os_op_board_name)

interpretation arm_op: os_op "arm p opts" for p opts
  by (rule os_op_arm)

text \<open>What a guard that was armed was made from, and the instants at which it was read.\<close>

lemma arm_Inr:
  assumes "run_state (arm p opts w) t = (Inr g, u)"
  obtains sensors t1 cfg t2 name entry selected where
    "run_state (discover (p_sort p) (o_hwmon_path opts) w) t = (Inr sensors, t1)" "sensors \<noteq> []"
    "run_state (load (o_config_path opts) w) t1 = (Inr cfg, t2)"
    "run_state (board_name (o_board_path opts) w) t2 = (Inr name, u)"
    "lookup cfg name = Inr entry"
    "select (p_fold p) sensors (b_chip entry) (b_sensor entry) = Inr selected"
    "g = new_guard opts name entry selected"
  using assms unfolding arm_def try_io_Inr wrap_io_Inr
  by (auto simp: io_run results simp del: run_try_io run_wrap_io split: if_splits)

section \<open>Holding a suspended node\<close>

text \<open>The keep-alive's period while nothing is watched: the shorter of the two.\<close>

definition hold_period :: "platform \<Rightarrow> int \<Rightarrow> int" where
  "hold_period p interval =
    (let w = watchdog_interval (p_env p) (p_pid p) in if 0 < w \<and> w < interval then w else interval)"

text \<open>
  The loop, over the waits its ticker and the context end: what came of it, the datagrams sent,
  and the waits that are left.
\<close>

datatype held = Holding | HeldStopped arm_error | HeldFailed arm_error | Rearmed guard

fun hold_loop :: "platform \<Rightarrow> options \<Rightarrow> notifier \<Rightarrow> arm_error \<Rightarrow> wait list \<Rightarrow> world \<Rightarrow>
    (held \<times> datagram list \<times> wait list) io" where
  "hold_loop p opts n why [] w = State_Monad.return (Holding, [], [])"
| "hold_loop p opts n why (Cancel # waits) w = State_Monad.return (HeldStopped why, [], waits)"
| "hold_loop p opts n why (Tick # waits) w = do {
     suspended \<leftarrow> present (o_disable_path opts) w;
     if suspended then do {
       (out, sent, rest) \<leftarrow> hold_loop p opts n why waits w;
       State_Monad.return (out, notify_alive n @ sent, rest)
     }
     else do {
       r \<leftarrow> arm p opts w;
       State_Monad.return
         (case r of Inl e \<Rightarrow> HeldFailed e | Inr g \<Rightarrow> Rearmed g, notify_alive n, waits)
     }
   }"

definition rearm_when_resumed :: "platform \<Rightarrow> options \<Rightarrow> notifier \<Rightarrow> arm_error \<Rightarrow> wait list \<Rightarrow> world \<Rightarrow>
    (held \<times> datagram list \<times> wait list) io" where
  "rearm_when_resumed p opts n why waits w = do {
     (out, sent, rest) \<leftarrow> hold_loop p opts n why waits w;
     State_Monad.return
       (out,
        notify_ready n (''Suspended: '' @ o_disable_path opts @ '' is present; the guard cannot arm'') @ sent,
        rest)
   }"

lemma hold_period_bounds:
  assumes "0 < interval"
  shows "0 < hold_period p interval \<and> hold_period p interval \<le> interval
    \<and> (0 < watchdog_interval (p_env p) (p_pid p) \<longrightarrow> hold_period p interval \<le> watchdog_interval (p_env p) (p_pid p))"
  using assms by (auto simp: hold_period_def Let_def)

text \<open>The attempt the loop ends with: the disable file was gone, and what arming came to.\<close>

definition retried :: "platform \<Rightarrow> options \<Rightarrow> world \<Rightarrow> nat \<Rightarrow> arm_error + guard \<Rightarrow> nat \<Rightarrow> bool" where
  "retried p opts w t r u \<longleftrightarrow> (\<exists>t' \<ge> t. absent (o_disable_path opts) w t'
    \<and> run_state (arm p opts w) (if o_disable_path opts = [] then t' else Suc t') = (r, u))"

lemma retried_earlier: "retried p opts w (Suc t) r u \<Longrightarrow> retried p opts w t r u"
  unfolding retried_def by (meson Suc_leD)

definition hold_ended :: "platform \<Rightarrow> options \<Rightarrow> arm_error \<Rightarrow> wait list \<Rightarrow> world \<Rightarrow> nat \<Rightarrow>
    held \<Rightarrow> wait list \<Rightarrow> nat \<Rightarrow> bool" where
  "hold_ended p opts why waits w t out rest u \<longleftrightarrow> (case out of
      Holding \<Rightarrow> waits = replicate (length waits) Tick \<and> rest = []
    | HeldStopped e \<Rightarrow> e = why \<and> (\<exists>k. waits = replicate k Tick @ Cancel # rest)
    | HeldFailed e \<Rightarrow> (\<exists>k. waits = replicate (Suc k) Tick @ rest) \<and> retried p opts w t (Inl e) u
    | Rearmed g \<Rightarrow> (\<exists>k. waits = replicate (Suc k) Tick @ rest) \<and> retried p opts w t (Inr g) u)"

lemma hold_ended_Tick:
  assumes "hold_ended p opts why waits w (Suc t) out rest u"
  shows "hold_ended p opts why (Tick # waits) w t out rest u"
proof -
  have c: "\<exists>k. Tick # waits = replicate k Tick @ ws" if "\<exists>k. waits = replicate k Tick @ ws" for ws
    using that by (metis append_Cons replicate_Suc)
  have d: "\<exists>k. Tick # waits = replicate (Suc k) Tick @ ws" if "\<exists>k. waits = replicate (Suc k) Tick @ ws" for ws
    using that by (metis append_Cons replicate_Suc)
  show ?thesis using assms retried_earlier c d unfolding hold_ended_def
    by (cases out) (simp, simp_all del: replicate_Suc)
qed

lemma hold_loop_ended:
  assumes "run_state (hold_loop p opts n why waits w) t = ((out, sent, rest), u)"
  shows "hold_ended p opts why waits w t out rest u"
  using assms
proof (induction waits arbitrary: t sent)
  case (Cons wt waits)
  show ?case
  proof (cases wt)
    case Cancel
    moreover have "waits = replicate 0 Tick @ waits" by simp
    ultimately show ?thesis using Cons.prems
      by (auto simp: hold_ended_def intro: exI [of _ 0])
  next
    case Tick
    let ?t = "if o_disable_path opts = [] then t else Suc t"
    show ?thesis
    proof (cases "absent (o_disable_path opts) w t")
      case True
      obtain r u' where a: "run_state (arm p opts w) ?t = (r, u')" by (cases "run_state (arm p opts w) ?t")
      have "(case r of Inl e \<Rightarrow> HeldFailed e | Inr g \<Rightarrow> Rearmed g) = out" "rest = waits" "u' = u"
        using Cons.prems Tick True a by (auto simp: run_present_absent)
      moreover have "retried p opts w t r u'" using True a unfolding retried_def by blast
      moreover have "Tick # waits = replicate (Suc 0) Tick @ waits" by simp
      ultimately show ?thesis using Tick unfolding hold_ended_def
        by (cases r) (auto simp del: replicate_Suc)
    next
      case False
      then obtain sent' where "run_state (hold_loop p opts n why waits w) (Suc t) = ((out, sent', rest), u)"
        using Cons.prems Tick by (auto simp: run_present_absent absent_def split: prod.splits)
      then show ?thesis using Cons.IH hold_ended_Tick Tick by simp
    qed
  qed
qed (simp add: hold_ended_def)

end
