(* ===== verification/Go_Unquote.thy ===== *)
theory Go_Unquote
  imports Go_Quote
begin

text \<open>
  Reading what \<open>strconv.Quote\<close> writes: UTF-8 is encoded as \<open>unicode/utf8\<close> does it, and the
  inverse of the escapes gives back every byte of the text, valid UTF-8 or not.
\<close>

section \<open>Encoding\<close>

text \<open>\<open>utf8.AppendRune\<close>\<close>

definition encode_rune :: "nat \<Rightarrow> string" where
  "encode_rune r =
    (if r < 0x80 then [char_of r]
     else if r < 0x800 then [char_of (0xC0 + r div 64), char_of (0x80 + r mod 64)]
     else if r < 0x10000 then
       [char_of (0xE0 + r div 4096), char_of (0x80 + r div 64 mod 64), char_of (0x80 + r mod 64)]
     else
       [char_of (0xF0 + r div 262144), char_of (0x80 + r div 4096 mod 64), char_of (0x80 + r div 64 mod 64),
        char_of (0x80 + r mod 64)])"

lemma char_of_byte: "char_of (byte c) = c"
  by (simp add: byte_def)

lemma offset_mod:
  assumes "k * m \<le> (b :: nat)" "b < k * m + m"
  shows "k * m + b mod m = b"
proof -
  obtain d where "b = k * m + d" using le_Suc_ex [OF assms(1)] by blast
  then show ?thesis using assms(2) by simp
qed

lemma cont_byte: "cont 0x80 0xBF s i \<Longrightarrow> 0x80 + byte (s ! i) mod 64 = byte (s ! i)"
  using offset_mod [of 2 64 "byte (s ! i)"] by (simp add: cont_def)

lemma cont_weaken: "cont lo hi s i \<Longrightarrow> 0x80 \<le> lo \<Longrightarrow> hi \<le> 0xBF \<Longrightarrow> cont 0x80 0xBF s i"
  by (simp add: cont_def)

text \<open>The six-bit groups of a code point.\<close>

lemma groups2: "b < 64 \<Longrightarrow> (a * 64 + b) div 64 = a \<and> (a * 64 + b) mod 64 = (b :: nat)"
  by simp

lemma groups3:
  assumes "b < 64" "c < (64 :: nat)"
  shows "(a * 4096 + b * 64 + c) div 4096 = a" "(a * 4096 + b * 64 + c) div 64 mod 64 = b"
    "(a * 4096 + b * 64 + c) mod 64 = c"
proof -
  have r: "a * 4096 + b * 64 + c = (a * 64 + b) * 64 + c" by simp
  show "(a * 4096 + b * 64 + c) div 64 mod 64 = b" "(a * 4096 + b * 64 + c) mod 64 = c"
    unfolding r by (simp_all only: groups2 [OF assms(2)] groups2 [OF assms(1)])
  have "b * 64 + c < 4096" using assms by simp
  moreover have "a * 4096 + b * 64 + c = a * 4096 + (b * 64 + c)" by simp
  ultimately show "(a * 4096 + b * 64 + c) div 4096 = a" by simp
qed

lemma groups4:
  assumes "b < 64" "c < 64" "d < (64 :: nat)"
  shows "(a * 262144 + b * 4096 + c * 64 + d) div 262144 = a" "(a * 262144 + b * 4096 + c * 64 + d) div 4096 mod 64 = b"
    "(a * 262144 + b * 4096 + c * 64 + d) div 64 mod 64 = c" "(a * 262144 + b * 4096 + c * 64 + d) mod 64 = d"
proof -
  have r: "a * 262144 + b * 4096 + c * 64 + d = (a * 64 + b) * 4096 + c * 64 + d" by simp
  show "(a * 262144 + b * 4096 + c * 64 + d) div 64 mod 64 = c" "(a * 262144 + b * 4096 + c * 64 + d) mod 64 = d"
    "(a * 262144 + b * 4096 + c * 64 + d) div 4096 mod 64 = b"
    unfolding r using groups3 [OF assms(2,3), of "a * 64 + b"] assms(1) by simp_all
  have "b * 4096 + c * 64 + d < 262144" using assms by simp
  moreover have "a * 262144 + b * 4096 + c * 64 + d = a * 262144 + (b * 4096 + c * 64 + d)" by simp
  ultimately show "(a * 262144 + b * 4096 + c * 64 + d) div 262144 = a" by simp
qed

lemma encode_width:
  "0x80 \<le> r \<Longrightarrow> r < 0x800 \<Longrightarrow> encode_rune r = [char_of (0xC0 + r div 64), char_of (0x80 + r mod 64)]"
  "0x800 \<le> r \<Longrightarrow> r < 0x10000 \<Longrightarrow> encode_rune r =
    [char_of (0xE0 + r div 4096), char_of (0x80 + r div 64 mod 64), char_of (0x80 + r mod 64)]"
  "0x10000 \<le> r \<Longrightarrow> encode_rune r = [char_of (0xF0 + r div 262144), char_of (0x80 + r div 4096 mod 64),
    char_of (0x80 + r div 64 mod 64), char_of (0x80 + r mod 64)]"
  by (simp_all add: encode_rune_def)

text \<open>The four ways a code point can be encoded.\<close>

lemma decode_rune_cases:
  assumes "decode_rune s = (r, n)" "\<not> (n = 1 \<and> r = rune_error)"
  obtains (1) "byte (s ! 0) < 0x80" "r = byte (s ! 0)" "n = 1"
  | (2) "0xC2 \<le> byte (s ! 0)" "byte (s ! 0) \<le> 0xDF" "cont 0x80 0xBF s 1"
      "r = byte (s ! 0) mod 32 * 64 + byte (s ! 1) mod 64" "n = 2"
  | (3) "0xE0 \<le> byte (s ! 0)" "byte (s ! 0) \<le> 0xEF" "cont 0x80 0xBF s 1" "cont 0x80 0xBF s 2"
      "byte (s ! 0) = 0xE0 \<longrightarrow> 0xA0 \<le> byte (s ! 1)"
      "r = byte (s ! 0) mod 16 * 4096 + byte (s ! 1) mod 64 * 64 + byte (s ! 2) mod 64" "n = 3"
  | (4) "0xF0 \<le> byte (s ! 0)" "byte (s ! 0) \<le> 0xF4" "cont 0x80 0xBF s 1" "cont 0x80 0xBF s 2" "cont 0x80 0xBF s 3"
      "byte (s ! 0) = 0xF0 \<longrightarrow> 0x90 \<le> byte (s ! 1)" "byte (s ! 0) = 0xF4 \<longrightarrow> byte (s ! 1) \<le> 0x8F"
      "r = byte (s ! 0) mod 8 * 262144 + byte (s ! 1) mod 64 * 4096 + byte (s ! 2) mod 64 * 64 + byte (s ! 3) mod 64"
      "n = 4"
proof -
  define second where "second = cont (if byte (s ! 0) = 0xE0 then 0xA0 else if byte (s ! 0) = 0xF0 then 0x90 else 0x80)
      (if byte (s ! 0) = 0xED then 0x9F else if byte (s ! 0) = 0xF4 then 0x8F else 0xBF) s 1"
  have c: "cont 0x80 0xBF s 1" if second
    using that unfolding second_def by (rule cont_weaken) auto
  have lo: "second \<Longrightarrow> byte (s ! 0) = 0xE0 \<longrightarrow> 0xA0 \<le> byte (s ! 1)"
    "second \<Longrightarrow> byte (s ! 0) = 0xF0 \<longrightarrow> 0x90 \<le> byte (s ! 1)" "second \<Longrightarrow> byte (s ! 0) = 0xF4 \<longrightarrow> byte (s ! 1) \<le> 0x8F"
    unfolding second_def cont_def by auto
  consider "byte (s ! 0) < 0x80" "r = byte (s ! 0)" "n = 1"
    | "0xC2 \<le> byte (s ! 0)" "byte (s ! 0) \<le> 0xDF" second
      "r = byte (s ! 0) mod 32 * 64 + byte (s ! 1) mod 64" "n = 2"
    | "0xE0 \<le> byte (s ! 0)" "byte (s ! 0) \<le> 0xEF" second "cont 0x80 0xBF s 2"
      "r = byte (s ! 0) mod 16 * 4096 + byte (s ! 1) mod 64 * 64 + byte (s ! 2) mod 64" "n = 3"
    | "0xF0 \<le> byte (s ! 0)" "byte (s ! 0) \<le> 0xF4" second "cont 0x80 0xBF s 2" "cont 0x80 0xBF s 3"
      "r = byte (s ! 0) mod 8 * 262144 + byte (s ! 1) mod 64 * 4096 + byte (s ! 2) mod 64 * 64 + byte (s ! 3) mod 64"
      "n = 4"
    using assms unfolding decode_rune_def Let_def second_def [symmetric]
    by (simp split: if_split_asm)
  then show thesis by cases (use c lo that in blast)+
qed

lemma cont_char:
  assumes "cont 0x80 0xBF s i"
  shows "char_of (0x80 + byte (s ! i) mod 64) = s ! i" "i < length s"
  using assms cont_byte [OF assms] by (simp_all add: char_of_byte cont_def)

lemma take_four: "4 \<le> length s \<Longrightarrow> take 4 s = [s ! 0, s ! 1, s ! 2, s ! 3]"
  by (auto simp: numeral_eq_Suc Suc_le_length_iff)

text \<open>What a code point was decoded from is its encoding.\<close>

lemma encode_decode:
  assumes "s \<noteq> []" "decode_rune s = (r, n)" "\<not> (n = 1 \<and> r = rune_error)"
  shows "encode_rune r = take n s \<and> r < 0x110000"
proof -
  define b0 e1 e2 e3 where "b0 = byte (s ! 0)" and "e1 = byte (s ! 1) mod 64"
    and "e2 = byte (s ! 2) mod 64" and "e3 = byte (s ! 3) mod 64"
  have m: "e1 < 64" "e2 < 64" "e3 < 64" by (simp_all add: e1_def e2_def e3_def)
  have b0: "char_of b0 = s ! 0" "0 < length s" using assms(1) by (simp_all add: b0_def char_of_byte)
  from assms(2,3) show ?thesis
  proof (cases rule: decode_rune_cases)
    case 1
    then show ?thesis using b0 by (cases s) (simp_all add: encode_rune_def b0_def)
  next
    case 2
    have b: "0xC0 + b0 mod 32 = b0" using offset_mod [of 6 32 b0] 2(1,2) by (simp add: b0_def)
    have r: "r = b0 mod 32 * 64 + e1" using 2(4) by (simp add: b0_def e1_def)
    have "b0 mod 32 < 32" "2 \<le> b0 mod 32" using b 2(1) by (simp_all add: b0_def)
    then have w: "0x80 \<le> r" "r < 0x800" using m unfolding r by linarith+
    have "r div 64 = b0 mod 32" "r mod 64 = e1" unfolding r using groups2 [OF m(1)] by blast+
    moreover have "take 2 s = [s ! 0, s ! 1]"
      using b0 cont_char [OF 2(3)] by (simp add: take_Suc_conv_app_nth numeral_2_eq_2)
    ultimately have "encode_rune r = take n s"
      unfolding encode_width(1) [OF w] 2(5) by (simp only: b b0 e1_def cont_char [OF 2(3)])
    then show ?thesis using w by simp
  next
    case 3
    have b: "0xE0 + b0 mod 16 = b0" using offset_mod [of 14 16 b0] 3(1,2) by (simp add: b0_def)
    have r: "r = b0 mod 16 * 4096 + e1 * 64 + e2" using 3(6) by (simp add: b0_def e1_def e2_def)
    have "32 \<le> e1 \<or> 1 \<le> b0 mod 16"
    proof (cases "b0 = 0xE0")
      case True
      then show ?thesis using 3(5) cont_byte [OF 3(3)] unfolding b0_def e1_def by linarith
    next
      case False
      then show ?thesis using b 3(1) b0_def by linarith
    qed
    moreover have "b0 mod 16 < 16" by simp
    ultimately have w: "0x800 \<le> r" "r < 0x10000" using m unfolding r by linarith+
    have "r div 4096 = b0 mod 16" "r div 64 mod 64 = e1" "r mod 64 = e2"
      unfolding r by (rule groups3 [OF m(1,2)])+
    moreover have "take 3 s = [s ! 0, s ! 1, s ! 2]"
      using b0 cont_char [OF 3(4)] by (simp add: take_Suc_conv_app_nth numeral_3_eq_3 numeral_2_eq_2)
    ultimately have "encode_rune r = take n s"
      unfolding encode_width(2) [OF w] 3(7)
      by (simp only: b b0 e1_def e2_def cont_char [OF 3(3)] cont_char [OF 3(4)])
    then show ?thesis using w by simp
  next
    case 4
    have b: "0xF0 + b0 mod 8 = b0" using offset_mod [of 30 8 b0] 4(1,2) by (simp add: b0_def)
    have r: "r = b0 mod 8 * 262144 + e1 * 4096 + e2 * 64 + e3" using 4(8) by (simp add: b0_def e1_def e2_def e3_def)
    have "16 \<le> e1 \<or> 1 \<le> b0 mod 8"
    proof (cases "b0 = 0xF0")
      case True
      then show ?thesis using 4(6) cont_byte [OF 4(3)] unfolding b0_def e1_def by linarith
    next
      case False
      then show ?thesis using b 4(1) b0_def by linarith
    qed
    moreover have "b0 mod 8 < 4 \<or> b0 mod 8 = 4 \<and> e1 < 16"
    proof (cases "b0 = 0xF4")
      case True
      then show ?thesis using b 4(7) cont_byte [OF 4(3)] unfolding b0_def e1_def by linarith
    next
      case False
      then show ?thesis using b 4(2) b0_def by linarith
    qed
    ultimately have w: "0x10000 \<le> r" "r < 0x110000" using m unfolding r by linarith+
    have "r div 262144 = b0 mod 8" "r div 4096 mod 64 = e1" "r div 64 mod 64 = e2" "r mod 64 = e3"
      unfolding r by (rule groups4 [OF m])+
    moreover have "take 4 s = [s ! 0, s ! 1, s ! 2, s ! 3]"
      using cont_char(2) [OF 4(5)] by (intro take_four) simp
    ultimately have "encode_rune r = take n s"
      unfolding encode_width(3) [OF w(1)] 4(9)
      by (simp only: b b0 e1_def e2_def e3_def cont_char [OF 4(3)] cont_char [OF 4(4)] cont_char [OF 4(5)])
    then show ?thesis using w by simp
  qed
qed

section \<open>Reading a quoted text\<close>

definition hex_val :: "nat \<Rightarrow> string \<Rightarrow> nat option" where
  "hex_val w s = (case uint_loop 16 False (2 ^ 32 - 1) (take w s) 0 False of Inl _ \<Rightarrow> None | Inr (n, _) \<Rightarrow> Some n)"

text \<open>What follows a backslash: the bytes it stands for, and what is left.\<close>

definition simple_escapes :: "(char \<times> nat) list" where
  "simple_escapes = [(CHR ''a'', 7), (CHR ''b'', 8), (CHR ''f'', 12), (CHR ''n'', 10), (CHR ''r'', 13),
     (CHR ''t'', 9), (CHR ''v'', 11), (CHR 0x22, 34), (CHR 0x5C, 92)]"

fun read_escape :: "string \<Rightarrow> (string \<times> string) option" where
  "read_escape [] = None"
| "read_escape (c # s) =
    (if c = CHR ''x'' then map_option (\<lambda>n. ([char_of n], drop 2 s)) (hex_val 2 s)
     else if c = CHR ''u'' then map_option (\<lambda>n. (encode_rune n, drop 4 s)) (hex_val 4 s)
     else if c = CHR ''U'' then map_option (\<lambda>n. (encode_rune n, drop 8 s)) (hex_val 8 s)
     else map_option (\<lambda>n. ([char_of n], s)) (map_of simple_escapes c))"

lemma read_escape_length: "read_escape s = Some (bs, r) \<Longrightarrow> length r < length s"
  by (cases s) (auto split: if_splits)

text \<open>After the opening quote, up to the closing one.\<close>

definition in_front :: "string \<Rightarrow> (string \<times> string) option \<Rightarrow> (string \<times> string) option" where
  "in_front bs p = map_option (\<lambda>(txt, r). (bs @ txt, r)) p"

function read_quoted :: "string \<Rightarrow> (string \<times> string) option" where
  "read_quoted [] = None"
| "read_quoted (c # s) =
    (if c = CHR 0x22 then Some ([], s)
     else if c \<noteq> CHR 0x5C then in_front [c] (read_quoted s)
     else (case read_escape s of None \<Rightarrow> None | Some (bs, r) \<Rightarrow> in_front bs (read_quoted r)))"
  by pat_completeness auto
termination
  by (relation "measure length") (auto dest: read_escape_length)

declare read_quoted.simps(2) [simp del]

lemma in_front_Nil [simp]: "in_front [] p = p"
  by (cases p) (simp_all add: in_front_def)

lemma in_front_append: "in_front a (in_front b p) = in_front (a @ b) p"
  by (cases p) (auto simp: in_front_def)

lemma read_plain:
  assumes "\<forall>c \<in> set bs. c \<noteq> CHR 0x22 \<and> c \<noteq> CHR 0x5C"
  shows "read_quoted (bs @ q) = in_front bs (read_quoted q)"
  using assms
proof (induction bs)
  case (Cons c bs)
  then show ?case by (simp add: read_quoted.simps(2) in_front_append)
qed simp

lemma digits_length_le:
  assumes "2 \<le> b" "n < b ^ l" "0 < l"
  shows "length (digits b n) \<le> l"
  using assms
proof (induction l arbitrary: n)
  case (Suc l)
  show ?case
  proof (cases "n < b")
    case True
    then show ?thesis by (subst digits.simps) simp
  next
    case False
    then have "0 < l" using Suc.prems by (cases l) auto
    moreover have "n div b < b ^ l" using Suc.prems by (simp add: less_mult_imp_div_less mult.commute)
    ultimately have "length (digits b (n div b)) \<le> l" using Suc by blast
    then show ?thesis using False Suc.prems(1) by (subst digits.simps) simp
  qed
qed simp

lemma hex_read:
  assumes "n < 16 ^ w" "0 < w" "w \<le> 8"
  shows "hex_val w (hex_digits w n @ q) = Some n" "drop w (hex_digits w n @ q) = q"
proof -
  have l: "length (hex_digits w n) = w"
    using digits_length_le [of 16 n w] assms by (simp add: hex_digits_def zero_pad_def)
  have "(16::nat) ^ w \<le> 16 ^ 8" using assms(3) by (intro power_increasing) simp_all
  then have "n \<le> 2 ^ 32 - 1" using assms(1) by simp
  then have "uint_loop 16 False (2 ^ 32 - 1) (hex_digits w n) 0 False = Inr (n, False)"
    unfolding hex_digits_def zero_pad_def by (simp add: uint_loop_zeros uint_loop_digits)
  then show "hex_val w (hex_digits w n @ q) = Some n" using l by (simp add: hex_val_def)
  show "drop w (hex_digits w n @ q) = q" using l by simp
qed

lemma read_backslash:
  "read_escape s = Some (bs, r) \<Longrightarrow> read_quoted (CHR 0x5C # s) = in_front bs (read_quoted r)"
  by (simp add: read_quoted.simps(2))

lemma byte_34: "byte (CHR 0x22) = 34" and byte_92: "byte (CHR 0x5C) = 92"
  by (simp_all add: byte_def)

lemma read_simple:
  assumes "map_of simple_escapes c = Some n" "c \<noteq> CHR ''x''" "c \<noteq> CHR ''u''" "c \<noteq> CHR ''U''"
  shows "read_quoted (CHR 0x5C # c # q) = in_front [char_of n] (read_quoted q)"
  using assms by (intro read_backslash) simp

lemma read_hex:
  "r < 256 \<Longrightarrow> read_quoted (CHR 0x5C # CHR ''x'' # hex_digits 2 r @ q) = in_front [char_of r] (read_quoted q)"
  "r < 0x10000 \<Longrightarrow> read_quoted (CHR 0x5C # CHR ''u'' # hex_digits 4 r @ q) = in_front (encode_rune r) (read_quoted q)"
  "r < 0x100000000 \<Longrightarrow> read_quoted (CHR 0x5C # CHR ''U'' # hex_digits 8 r @ q) = in_front (encode_rune r) (read_quoted q)"
  using hex_read [of r 2 q] hex_read [of r 4 q] hex_read [of r 8 q] by (intro read_backslash; simp)+

lemma escape_short:
  "escape_rune ip 7 bs = [CHR 0x5C, CHR ''a'']" "escape_rune ip 8 bs = [CHR 0x5C, CHR ''b'']"
  "escape_rune ip 12 bs = [CHR 0x5C, CHR ''f'']" "escape_rune ip 10 bs = [CHR 0x5C, CHR ''n'']"
  "escape_rune ip 13 bs = [CHR 0x5C, CHR ''r'']" "escape_rune ip 9 bs = [CHR 0x5C, CHR ''t'']"
  "escape_rune ip 11 bs = [CHR 0x5C, CHR ''v'']"
  by (simp_all add: escape_rune_def printable_rune_def)

lemma read_short:
  "read_quoted (CHR 0x5C # c # q) = in_front [char_of n] (read_quoted q)"
  if "(c, n) \<in> set simple_escapes"
proof -
  have "distinct (map fst simple_escapes)" "\<forall>(c, n) \<in> set simple_escapes. c \<noteq> CHR ''x'' \<and> c \<noteq> CHR ''u'' \<and> c \<noteq> CHR ''U''"
    by (simp_all add: simple_escapes_def)
  then show ?thesis using read_simple map_of_is_SomeI that by fastforce
qed

lemma read_ascii:
  assumes "r < 0x80"
  shows "read_quoted (escape_rune ip r [char_of r] @ q) = in_front [char_of r] (read_quoted q)"
proof -
  have b: "byte (char_of r) = r" using assms by (intro byte_char_of) simp
  have "r < 0x20 \<or> r = 0x7F \<or> 0x20 \<le> r \<and> r \<le> 0x7E" using assms by linarith
  then consider (quoted) "r = 34 \<or> r = 92" | (plain) "r \<noteq> 34" "r \<noteq> 92" "0x20 \<le> r" "r \<le> 0x7E"
    | (short) "r \<in> {7, 8, 12, 10, 13, 9, 11}" | (hex) "r < 0x20 \<or> r = 0x7F" "r \<notin> {7, 8, 12, 10, 13, 9, 11}"
    by blast
  then show ?thesis
  proof cases
    case quoted
    have "char_of (34 :: nat) = CHR 0x22" "char_of (92 :: nat) = CHR 0x5C" by code_simp+
    then show ?thesis using quoted by (auto simp: escape_rune_def simple_escapes_def read_simple)
  next
    case plain
    then have "byte (char_of r) \<noteq> byte (CHR 0x22)" "byte (char_of r) \<noteq> byte (CHR 0x5C)"
      unfolding b byte_34 byte_92 by simp_all
    then have "char_of r \<noteq> CHR 0x22" "char_of r \<noteq> CHR 0x5C" by (metis, metis)
    then show ?thesis using plain read_plain [of "[char_of r]" q] by (simp add: escape_rune_def printable_rune_def)
  next
    case short
    have "read_quoted (CHR 0x5C # c # q) = in_front [char_of n] (read_quoted q)"
      if "(c, n) \<in> {(CHR ''a'', 7), (CHR ''b'', 8), (CHR ''f'', 12), (CHR ''n'', 10), (CHR ''r'', 13),
        (CHR ''t'', 9), (CHR ''v'', 11 :: nat)}" for c n
      using that by (intro read_short) (auto simp: simple_escapes_def)
    then show ?thesis using short by (elim insertE emptyE) (simp_all only: escape_short append.simps, simp_all)
  next
    case hex
    then have "escape_rune ip r [char_of r] = CHR 0x5C # CHR ''x'' # hex_digits 2 r"
      unfolding escape_rune_def printable_rune_def by auto
    then show ?thesis using read_hex(1) [of r q] assms by simp
  qed
qed

lemma read_wide:
  assumes "encode_rune r = bs" "0x80 \<le> r" "r < 0x110000" "\<forall>c \<in> set bs. 0x80 \<le> byte c"
  shows "read_quoted (escape_rune ip r bs @ q) = in_front bs (read_quoted q)"
proof -
  have "\<forall>c \<in> set bs. c \<noteq> CHR 0x22 \<and> c \<noteq> CHR 0x5C" using assms(4) byte_34 byte_92 by fastforce
  note plain = read_plain [OF this]
  consider "ip r" | "\<not> ip r" "r < 0x10000" | "\<not> ip r" "0x10000 \<le> r" by linarith
  then show ?thesis
  proof cases
    case 1
    then show ?thesis using assms(2) plain by (simp add: escape_rune_def printable_rune_def)
  next
    case 2
    then show ?thesis using assms(1,2) read_hex(2) [of r q] by (simp add: escape_rune_def printable_rune_def)
  next
    case 3
    then show ?thesis using assms(1,3) read_hex(3) [of r q] by (simp add: escape_rune_def printable_rune_def)
  qed
qed

lemma read_rune:
  assumes "encode_rune r = bs" "r < 0x110000" "r < 0x80 \<or> (\<forall>c \<in> set bs. 0x80 \<le> byte c)"
  shows "read_quoted (escape_rune ip r bs @ q) = in_front bs (read_quoted q)"
proof (cases "r < 0x80")
  case True
  then have "bs = [char_of r]" using assms(1) by (simp add: encode_rune_def)
  then show ?thesis using read_ascii [OF True] by simp
next
  case False
  then show ?thesis using read_wide assms by simp
qed

theorem read_quote_loop: "read_quoted (quote_loop ip s @ CHR 0x22 # q) = Some (s, q)"
proof (induction ip s rule: quote_loop.induct)
  case (1 ip s)
  show ?case
  proof (cases "s = []")
    case True
    then show ?thesis by (simp add: quote_loop.simps [of ip "[]"] read_quoted.simps(2))
  next
    case False
    obtain r n where d: "decode_rune s = (r, n)" by (cases "decode_rune s")
    have IH: "read_quoted (quote_loop ip (drop n s) @ CHR 0x22 # q) = Some (drop n s, q)"
      using 1 False d by simp
    have "read_quoted ((if n = 1 \<and> r = rune_error then CHR 0x5C # CHR ''x'' # hex_digits 2 (byte (hd s))
        else escape_rune ip r (take n s)) @ q') = in_front (take n s) (read_quoted q')" for q'
    proof (cases "n = 1 \<and> r = rune_error")
      case True
      have "take 1 s = [char_of (byte (hd s))]" using False by (cases s) (simp_all add: char_of_byte)
      then show ?thesis using True hex_read [of "byte (hd s)" 2 q'] byte_less [of "hd s"]
        by (simp add: read_backslash)
    next
      case ok: False
      have "r < 0x80 \<or> (\<forall>c \<in> set (take n s). 0x80 \<le> byte c)"
        using decode_rune_bytes [OF False d] ok by (auto split: if_splits)
      then show ?thesis unfolding if_not_P [OF ok] using encode_decode [OF False d ok] read_rune by blast
    qed
    note this [of "quote_loop ip (drop n s) @ CHR 0x22 # q"]
    then show ?thesis using IH False d
      by (subst quote_loop.simps) (simp add: Let_def in_front_def)
  qed
qed

text \<open>Nothing but the text itself reads as it does.\<close>

theorem quote_inject:
  assumes "quote ip s = quote ip t"
  shows "s = t"
proof -
  have "quote_loop ip s = quote_loop ip t" using assms by (simp add: quote_def)
  then have "Some (s, []) = Some (t, [] :: string)"
    using read_quote_loop [of ip s "[]"] read_quote_loop [of ip t "[]"] by metis
  then show ?thesis by simp
qed

end
