(* ===== verification/Go_Slog.thy ===== *)
theory Go_Slog
  imports Go_Unquote Go_Float
begin

text \<open>
  The two handlers of \<open>log/slog\<close> as the program sets them up, which is without the time: one line
  of \<open>key=value\<close> pairs, or one line holding an object of JSON. A value is a string or an integer.
\<close>

datatype attr_value = Str string | Num int

type_synonym attrs = "(string \<times> attr_value) list"

text \<open>The printable characters of ASCII and DEL that stand for themselves in a string of JSON.\<close>

definition json_safe :: "nat \<Rightarrow> bool" where
  "json_safe b \<longleftrightarrow> 0x20 \<le> b \<and> b < 0x80 \<and> b \<noteq> 34 \<and> b \<noteq> 92"

section \<open>Text\<close>

text \<open>\<open>needsQuoting\<close>\<close>

function quoting_loop :: "(nat \<Rightarrow> bool) \<Rightarrow> string \<Rightarrow> bool" where
  "quoting_loop ip s =
    (if s = [] then False
     else let b = byte (hd s) in
       if b < 0x80 then
         (if b \<noteq> 92 \<and> (b = 0x20 \<or> b = 61 \<or> \<not> json_safe b) then True else quoting_loop ip (tl s))
       else let r = fst (decode_rune s); n = snd (decode_rune s) in
         (if r = rune_error \<or> take n s \<in> set spaces \<or> \<not> printable_rune ip r then True
          else quoting_loop ip (drop n s)))"
  by pat_completeness auto
termination
  by (relation "measure (\<lambda>(ip, s). length s)") (auto simp: decode_rune_size)

declare quoting_loop.simps [simp del]

definition needs_quoting :: "(nat \<Rightarrow> bool) \<Rightarrow> string \<Rightarrow> bool" where
  "needs_quoting ip s = (s = [] \<or> quoting_loop ip s)"

definition text_string :: "(nat \<Rightarrow> bool) \<Rightarrow> string \<Rightarrow> string" where
  "text_string ip s = (if needs_quoting ip s then quote ip s else s)"

definition text_value :: "(nat \<Rightarrow> bool) \<Rightarrow> attr_value \<Rightarrow> string" where
  "text_value ip v = (case v of Str s \<Rightarrow> text_string ip s | Num n \<Rightarrow> itoa n)"

definition text_attr :: "(nat \<Rightarrow> bool) \<Rightarrow> string \<times> attr_value \<Rightarrow> string" where
  "text_attr ip a = text_string ip (fst a) @ ''='' @ text_value ip (snd a)"

definition text_record :: "(nat \<Rightarrow> bool) \<Rightarrow> attrs \<Rightarrow> string" where
  "text_record ip as = join '' '' (map (text_attr ip) as) @ [newline]"

section \<open>JSON\<close>

text \<open>
  \<open>appendEscapedJSONString\<close>. Whether a backspace and a form feed are written with a letter is up
  to the release of Go, the argument \<open>short\<close>.
\<close>

definition json_escape :: "bool \<Rightarrow> nat \<Rightarrow> string" where
  "json_escape short b =
    (if b = 34 \<or> b = 92 then [CHR 0x5C, char_of b]
     else if b = 10 then [CHR 0x5C, CHR ''n'']
     else if b = 13 then [CHR 0x5C, CHR ''r'']
     else if b = 9 then [CHR 0x5C, CHR ''t'']
     else if short \<and> b = 8 then [CHR 0x5C, CHR ''b'']
     else if short \<and> b = 12 then [CHR 0x5C, CHR ''f'']
     else CHR 0x5C # ''u00'' @ hex_digits 2 b)"

function json_loop :: "bool \<Rightarrow> string \<Rightarrow> string" where
  "json_loop short s =
    (if s = [] then []
     else let b = byte (hd s) in
       if b < 0x80 then (if json_safe b then [hd s] else json_escape short b) @ json_loop short (tl s)
       else let r = fst (decode_rune s); n = snd (decode_rune s) in
         (if r = rune_error \<and> n = 1 then CHR 0x5C # ''ufffd''
          else if r = 0x2028 \<or> r = 0x2029 then CHR 0x5C # ''u202'' @ hex_digits 1 (r mod 16)
          else take n s) @ json_loop short (drop n s))"
  by pat_completeness auto
termination
  by (relation "measure (\<lambda>(short, s). length s)") (auto simp: decode_rune_size)

declare json_loop.simps [simp del]

definition json_string :: "bool \<Rightarrow> string \<Rightarrow> string" where
  "json_string short s = CHR 0x22 # json_loop short s @ [CHR 0x22]"

definition json_attr :: "bool \<Rightarrow> string \<times> attr_value \<Rightarrow> string" where
  "json_attr short a = json_string short (fst a) @ '':'' @
    (case snd a of Str s \<Rightarrow> json_string short s | Num n \<Rightarrow> itoa n)"

definition json_record :: "bool \<Rightarrow> attrs \<Rightarrow> string" where
  "json_record short as = ''{'' @ join '','' (map (json_attr short) as) @ ''}'' @ [newline]"

section \<open>One line for each record\<close>

lemma no_control_itoa: "no_control (itoa n)"
  using no_control_digits [of 10] by (auto simp: itoa_def fmt_int_def zero_pad_def byte_def)

lemma no_control_join:
  assumes "no_control sep" "\<forall>x \<in> set xs. no_control x"
  shows "no_control (join sep xs)"
  using assms by (induction sep xs rule: join.induct) auto

lemma no_control_high: "\<forall>c \<in> set bs. 0x80 \<le> byte c \<Longrightarrow> no_control bs"
  by (force simp: no_control_def)

lemma high_chunk:
  assumes "s \<noteq> []" "\<not> byte (hd s) < 0x80" "decode_rune s = (r, n)"
  shows "\<forall>c \<in> set (take n s). 0x80 \<le> byte c" "0 < n"
proof -
  show "0 < n" using decode_rune_size [of s] assms(3) by simp
  show "\<forall>c \<in> set (take n s). 0x80 \<le> byte c"
    using decode_rune_bytes [OF assms(1,3)] assms(1,2) by (cases s) (auto split: if_splits)
qed

text \<open>A text that needs no quotes has none of the characters that structure a record.\<close>

definition bare :: "string \<Rightarrow> bool" where
  "bare s \<longleftrightarrow> s \<noteq> [] \<and> (\<forall>c \<in> set s. 0x20 < byte c \<and> byte c \<noteq> 61 \<and> byte c \<noteq> 34)"

lemma bare_append: "bare (a @ b) \<longleftrightarrow> (a = [] \<or> bare a) \<and> (b = [] \<or> bare b) \<and> a @ b \<noteq> []"
  by (auto simp: bare_def)

lemma bare_high:
  assumes "\<forall>c \<in> set s. 0x80 \<le> byte c" "s \<noteq> []"
  shows "bare s"
proof -
  have "0x20 < b \<and> b \<noteq> 61 \<and> b \<noteq> 34" if "0x80 \<le> b" for b :: nat using that by simp
  then show ?thesis using assms unfolding bare_def by blast
qed

lemma quoting_loop_low:
  assumes "s \<noteq> []" "byte (hd s) < 0x80"
  shows "quoting_loop ip s \<longleftrightarrow>
    byte (hd s) \<noteq> 92 \<and> (byte (hd s) = 0x20 \<or> byte (hd s) = 61 \<or> \<not> json_safe (byte (hd s)))
    \<or> quoting_loop ip (tl s)"
  using assms by (subst quoting_loop.simps) (simp add: Let_def)

lemma quoting_loop_high:
  assumes "s \<noteq> []" "\<not> byte (hd s) < 0x80"
  shows "quoting_loop ip s \<longleftrightarrow> fst (decode_rune s) = rune_error
    \<or> take (snd (decode_rune s)) s \<in> set spaces \<or> \<not> printable_rune ip (fst (decode_rune s))
    \<or> quoting_loop ip (drop (snd (decode_rune s)) s)"
  using assms by (subst quoting_loop.simps) (simp add: Let_def)

lemma not_quoting_loop: "\<not> quoting_loop ip s \<Longrightarrow> s \<noteq> [] \<Longrightarrow> bare s"
proof (induction ip s rule: quoting_loop.induct)
  case (1 ip s)
  let ?n = "snd (decode_rune s)"
  show ?case
  proof (cases "byte (hd s) < 0x80")
    case True
    then have "byte (hd s) = 92 \<or> byte (hd s) \<noteq> 0x20 \<and> byte (hd s) \<noteq> 61 \<and> json_safe (byte (hd s))"
      "\<not> quoting_loop ip (tl s)"
      using 1(3) unfolding quoting_loop_low [OF 1(4) True] by blast+
    moreover from this have "tl s = [] \<or> bare (tl s)" using 1(1) 1(4) True by simp blast
    ultimately have "bare ([hd s] @ tl s)" using bare_append [of "[hd s]" "tl s"] by (auto simp: bare_def json_safe_def)
    then show ?thesis using 1(4) by simp
  next
    case h: False
    have q: "fst (decode_rune s) \<noteq> rune_error" "take ?n s \<notin> set spaces" "printable_rune ip (fst (decode_rune s))"
      "\<not> quoting_loop ip (drop ?n s)"
      using 1(3) unfolding quoting_loop_high [OF 1(4) h] by blast+
    then have "drop ?n s = [] \<or> bare (drop ?n s)" using 1(2) [OF 1(4) refl h refl refl] by blast
    moreover have d: "decode_rune s = (fst (decode_rune s), ?n)" by simp
    moreover have "take ?n s \<noteq> []" using high_chunk(2) [OF 1(4) h d] 1(4) by simp
    note bare_high [OF high_chunk(1) [OF 1(4) h d] this]
    ultimately have "bare (take ?n s @ drop ?n s)" using 1(4) by (subst bare_append) simp
    then show ?thesis by (simp only: append_take_drop_id)
  qed
qed

lemma not_needs_quoting: "\<not> needs_quoting ip s \<Longrightarrow> bare s"
  using not_quoting_loop by (auto simp: needs_quoting_def)

lemma bare_no_control: "bare s \<Longrightarrow> no_control s"
  by (force simp: bare_def no_control_def)

lemma no_control_text_string: "no_control (text_string ip s)"
  using no_control_quote bare_no_control [OF not_needs_quoting] by (simp add: text_string_def)

lemma no_control_text_attr: "no_control (text_attr ip a)"
  using no_control_text_string no_control_itoa
  by (simp add: text_attr_def text_value_def byte_def split: attr_value.split)

lemma no_control_json_escape: "b < 0x80 \<Longrightarrow> no_control (json_escape short b)"
  using no_control_hex byte_char_of [of b] by (auto simp: json_escape_def byte_def)

lemma no_control_json_loop: "no_control (json_loop short s)"
proof (induction short s rule: json_loop.induct)
  case (1 short s)
  show ?case
  proof (cases "s = []")
    case False
    show ?thesis
    proof (cases "byte (hd s) < 0x80")
      case True
      have "no_control (json_loop short (tl s))" using 1(1) False True by simp
      then show ?thesis using False True no_control_json_escape [OF True]
        by (subst json_loop.simps) (simp add: Let_def json_safe_def)
    next
      case h: False
      obtain r n where d: "decode_rune s = (r, n)" by (cases "decode_rune s")
      have "no_control (json_loop short (drop n s))" using 1(2) False h d by simp
      moreover have "no_control (take n s)" using high_chunk [OF False h d] no_control_high by blast
      ultimately show ?thesis using False h d no_control_hex
        by (subst json_loop.simps) (simp add: Let_def byte_def)
    qed
  qed (simp add: json_loop.simps)
qed

lemma no_control_json_attr: "no_control (json_attr short a)"
  using no_control_json_loop no_control_itoa
  by (simp add: json_attr_def json_string_def byte_def split: attr_value.split)

text \<open>What a record is besides its line feed.\<close>

lemma text_record_line: "\<exists>l. text_record ip as = l @ [newline] \<and> no_control l"
  using no_control_join [of "'' ''" "map (text_attr ip) as"] no_control_text_attr
  by (auto simp: text_record_def byte_def)

lemma json_record_line: "\<exists>l. json_record short as = l @ [newline] \<and> no_control l"
proof -
  have "no_control (''{'' @ join '','' (map (json_attr short) as) @ ''}'')"
    using no_control_join [of "'',''" "map (json_attr short) as"] no_control_json_attr by (auto simp: byte_def)
  then show ?thesis unfolding json_record_def by (metis append.assoc)
qed

section \<open>Reading a record of text\<close>

text \<open>The values are read as strings.\<close>

definition value_string :: "attr_value \<Rightarrow> string" where
  "value_string v = (case v of Str s \<Rightarrow> s | Num n \<Rightarrow> itoa n)"

definition read_item :: "char \<Rightarrow> string \<Rightarrow> (string \<times> string) option" where
  "read_item stop s =
    (if s \<noteq> [] \<and> hd s = CHR 0x22 then read_quoted (tl s)
     else Some (takeWhile (\<lambda>c. c \<noteq> stop) s, dropWhile (\<lambda>c. c \<noteq> stop) s))"

text \<open>A pair up to the space or the end behind it, and pairs up to the end.\<close>

definition read_pair :: "string \<Rightarrow> ((string \<times> string) \<times> string) option" where
  "read_pair s = (case read_item (CHR ''='') s of
     Some (k, c # r) \<Rightarrow> map_option (\<lambda>(v, q). ((k, v), q)) (read_item (CHR '' '') r)
   | _ \<Rightarrow> None)"

lemma read_quoted_length: "read_quoted s = Some (v, r) \<Longrightarrow> length r < length s"
proof (induction s arbitrary: v r rule: read_quoted.induct)
  case (2 c s)
  show ?case
  proof (cases "c = CHR 0x22 \<or> c \<noteq> CHR 0x5C")
    case True
    then show ?thesis using 2 by (fastforce simp: read_quoted.simps(2) in_front_def split: if_splits)
  next
    case False
    then obtain bs r' v' where "read_escape s = Some (bs, r')" "read_quoted r' = Some (v', r)"
      using 2(3) by (auto simp: read_quoted.simps(2) in_front_def split: option.splits)
    then show ?thesis using 2(2) False read_escape_length by fastforce
  qed
qed simp

lemma read_item_length: "read_item stop s = Some (v, r) \<Longrightarrow> length r \<le> length s"
  using read_quoted_length [of "tl s"] length_dropWhile_le
  by (force simp: read_item_def split: if_splits)

lemma read_pair_length: "read_pair s = Some (kv, r) \<Longrightarrow> length r < length s"
proof -
  assume "read_pair s = Some (kv, r)"
  then obtain k c r' v where "read_item (CHR ''='') s = Some (k, c # r')" "read_item (CHR '' '') r' = Some (v, r)"
    by (auto simp: read_pair_def split: option.splits list.splits)
  then show ?thesis using read_item_length [of _ s] read_item_length [of _ r'] by fastforce
qed

function read_record :: "string \<Rightarrow> (string \<times> string) list option" where
  "read_record s = (case read_pair s of
     None \<Rightarrow> None
   | Some (kv, []) \<Rightarrow> Some [kv]
   | Some (kv, c # r) \<Rightarrow> map_option ((#) kv) (read_record r))"
  by pat_completeness auto
termination
  by (relation "measure length") (auto dest: read_pair_length)

declare read_record.simps [simp del]

lemma read_item_text:
  assumes "stop = CHR ''='' \<or> stop = CHR '' ''" "q = [] \<or> hd q = stop"
  shows "bare s \<Longrightarrow> read_item stop (s @ q) = Some (s, q)"
    and "read_item stop (text_string ip s @ q) = Some (s, q)"
proof -
  have b: "byte (CHR ''='') = 61" "byte (CHR '' '') = 0x20" by (simp_all add: byte_def)
  show bare: "read_item stop (s @ q) = Some (s, q)" if "bare s"
  proof -
    have "\<forall>c \<in> set s. byte c \<noteq> byte stop \<and> byte c \<noteq> byte (CHR 0x22)"
      using that assms(1) b byte_34 unfolding bare_def by auto
    then have "\<forall>c \<in> set s. c \<noteq> stop \<and> c \<noteq> CHR 0x22" by blast
    moreover have "s \<noteq> []" using that by (simp add: bare_def)
    moreover from this have "hd s \<in> set s" by simp
    ultimately show ?thesis using assms(2) unfolding read_item_def
      by (cases q) (auto simp: takeWhile_append dropWhile_append)
  qed
  show "read_item stop (text_string ip s @ q) = Some (s, q)"
  proof (cases "needs_quoting ip s")
    case True
    then show ?thesis using read_quote_loop [of ip s q] by (simp add: text_string_def quote_def read_item_def)
  next
    case False
    then show ?thesis using bare not_needs_quoting by (simp add: text_string_def)
  qed
qed

lemma bare_itoa: "bare (itoa n)"
proof -
  have "bare (digits 10 m)" for m
  proof -
    have "0x20 < byte c \<and> byte c \<noteq> 61 \<and> byte c \<noteq> 34" if "c \<in> set (digits 10 m)" for c
      using digits_are_digits [OF that] by (simp add: is_digit_def)
    then show ?thesis by (simp add: bare_def digits_length_pos)
  qed
  moreover have "bare (CHR ''-'' # s)" if "bare s" for s using that by (simp add: bare_def byte_def)
  ultimately show ?thesis by (simp add: itoa_def fmt_int_def zero_pad_def)
qed

lemma read_pair_attr:
  assumes "q = [] \<or> hd q = CHR '' ''"
  shows "read_pair (text_attr ip a @ q) = Some ((fst a, value_string (snd a)), q)"
proof -
  have "read_item (CHR '' '') (text_value ip (snd a) @ q) = Some (value_string (snd a), q)"
    using read_item_text [of "CHR '' ''" q] assms bare_itoa
    by (simp add: text_value_def value_string_def split: attr_value.split)
  moreover have "read_item (CHR ''='') (text_string ip (fst a) @ ''='' @ text_value ip (snd a) @ q)
      = Some (fst a, ''='' @ text_value ip (snd a) @ q)"
    by (rule read_item_text) simp_all
  ultimately show ?thesis by (simp add: read_pair_def text_attr_def)
qed

theorem read_record_text:
  assumes "as \<noteq> []"
  shows "read_record (join '' '' (map (text_attr ip) as)) = Some (map (\<lambda>(k, v). (k, value_string v)) as)"
  using assms
proof (induction as)
  case (Cons a as)
  show ?case
  proof (cases "as = []")
    case True
    then show ?thesis using read_pair_attr [of "[]" ip a]
      by (subst read_record.simps) (simp add: split: prod.split)
  next
    case False
    then have j: "join '' '' (map (text_attr ip) (a # as))
        = text_attr ip a @ '' '' @ join '' '' (map (text_attr ip) as)"
      by (cases as) simp_all
    show ?thesis unfolding j
      using Cons.IH False read_pair_attr [of "'' '' @ join '' '' (map (text_attr ip) as)" ip a]
      by (subst read_record.simps) (simp split: prod.split)
  qed
qed simp

end
