(* ===== verification/Go_Duration.thy ===== *)
theory Go_Duration
  imports Go_Flag
begin

text \<open>
  \<open>Duration.String\<close>, and that \<open>time.ParseDuration\<close> undoes it: a duration in a message is
  the value of the flag that sets it.
\<close>

section \<open>Printing\<close>

text \<open>
  \<open>fmtFrac\<close> writes the fraction in front of what the buffer holds, without trailing zeros, and
  returns the rest of the value.
\<close>

fun fmt_frac :: "nat \<Rightarrow> nat \<Rightarrow> bool \<Rightarrow> string \<Rightarrow> string \<times> nat" where
  "fmt_frac 0 v shown buf = (if shown then CHR ''.'' # buf else buf, v)"
| "fmt_frac (Suc prec) v shown buf =
    (let d = v mod 10; shown' = (shown \<or> d \<noteq> 0) in
     fmt_frac prec (v div 10) shown' (if shown' then digit_char d # buf else buf))"

text \<open>A number with a fraction of the given precision and a unit, the last one of a duration.\<close>

definition frac_text :: "nat \<Rightarrow> nat \<Rightarrow> string \<Rightarrow> string" where
  "frac_text prec u unit = (let (buf, v) = fmt_frac prec u False unit in digits 10 v @ buf)"

definition duration_abs :: "nat \<Rightarrow> string" where
  "duration_abs u =
    (if u < 1000000000 then
       (if u = 0 then ''0s''
        else if u < 1000 then digits 10 u @ ''ns''
        else if u < 1000000 then frac_text 3 u [CHR 0xC2, CHR 0xB5, CHR ''s'']
        else frac_text 6 u ''ms'')
     else
       let (buf, secs) = fmt_frac 9 u False ''s''; mins = secs div 60; hours = mins div 60 in
       (if mins > 0 then
          (if hours > 0 then digits 10 hours @ ''h'' else []) @ digits 10 (mins mod 60) @ ''m''
        else [])
       @ digits 10 (secs mod 60) @ buf)"

definition duration_string :: "int \<Rightarrow> string" where
  "duration_string d = (if d < 0 then CHR ''-'' # duration_abs (nat (- d)) else duration_abs (nat d))"

section \<open>Fractions\<close>

text \<open>The last digits of a number, at a fixed width.\<close>

fun last_digits :: "nat \<Rightarrow> nat \<Rightarrow> string" where
  "last_digits 0 n = []"
| "last_digits (Suc k) n = last_digits k (n div 10) @ [digit_char (n mod 10)]"

lemma last_digits_length [simp]: "length (last_digits k n) = k"
  by (induction k arbitrary: n) simp_all

lemma fmt_frac_shown:
  "fmt_frac prec v True buf = (CHR ''.'' # last_digits prec v @ buf, v div 10 ^ prec)"
  by (induction prec arbitrary: v buf) (simp_all add: div_mult2_eq)

lemma fmt_frac_eq:
  "v mod 10 ^ prec = 0 \<and> fmt_frac prec v False buf = (buf, v div 10 ^ prec)
   \<or> (\<exists>k m. 0 < k \<and> k \<le> prec \<and> v mod 10 ^ prec = m mod 10 ^ k * 10 ^ (prec - k) \<and> m mod 10 ^ k \<noteq> 0
      \<and> fmt_frac prec v False buf = (CHR ''.'' # last_digits k m @ buf, v div 10 ^ prec))"
proof (induction prec arbitrary: v)
  case (Suc prec)
  have split: "v mod 10 ^ Suc prec = v div 10 mod 10 ^ prec * 10 + v mod 10"
    by (simp add: mod_mult2_eq)
  show ?case
  proof (cases "v mod 10 = 0")
    case True
    from Suc.IH [of "v div 10"] show ?thesis
    proof
      assume "v div 10 mod 10 ^ prec = 0 \<and> fmt_frac prec (v div 10) False buf = (buf, v div 10 div 10 ^ prec)"
      then show ?thesis using True split by (simp add: div_mult2_eq)
    next
      assume "\<exists>k m. 0 < k \<and> k \<le> prec \<and> v div 10 mod 10 ^ prec = m mod 10 ^ k * 10 ^ (prec - k) \<and> m mod 10 ^ k \<noteq> 0
        \<and> fmt_frac prec (v div 10) False buf = (CHR ''.'' # last_digits k m @ buf, v div 10 div 10 ^ prec)"
      then obtain k m where km: "0 < k" "k \<le> prec" "v div 10 mod 10 ^ prec = m mod 10 ^ k * 10 ^ (prec - k)"
        "m mod 10 ^ k \<noteq> 0" "fmt_frac prec (v div 10) False buf = (CHR ''.'' # last_digits k m @ buf, v div 10 div 10 ^ prec)"
        by blast
      have "v mod 10 ^ Suc prec = m mod 10 ^ k * 10 ^ (Suc prec - k)"
        using km(2,3) True split by (simp add: Suc_diff_le)
      moreover have "fmt_frac (Suc prec) v False buf = (CHR ''.'' # last_digits k m @ buf, v div 10 ^ Suc prec)"
        using km(5) True by (simp add: div_mult2_eq)
      ultimately show ?thesis using km by (intro disjI2 exI [of _ k] exI [of _ m]) simp
    qed
  next
    case False
    have "fmt_frac (Suc prec) v False buf = (CHR ''.'' # last_digits (Suc prec) v @ buf, v div 10 ^ Suc prec)"
      using False by (simp add: fmt_frac_shown div_mult2_eq)
    moreover have "v mod 10 ^ Suc prec \<noteq> 0" using False split by simp
    ultimately show ?thesis by (intro disjI2 exI [of _ "Suc prec"] exI [of _ v]) simp
  qed
qed simp

section \<open>Parsing\<close>

lemma digit_facts:
  assumes "d < 10"
  shows "is_digit (digit_char d)" "digit_num (digit_char d) = d"
  using assms byte_digit_char [of d] by (simp_all add: is_digit_def digit_num_def)

lemma leading_int_digits:
  assumes "n \<le> 2 ^ 63"
  shows "leading_int 0 (digits 10 n @ r) = leading_int n r"
  using assms
proof (induction n arbitrary: r rule: less_induct)
  case (less n)
  show ?case
  proof (cases "n < 10")
    case True
    then show ?thesis using digit_facts [of n] by (subst digits.simps) (simp add: Let_def)
  next
    case False
    have d: "digits 10 n = digits 10 (n div 10) @ [digit_char (n mod 10)]"
      using False by (subst digits.simps) simp
    have m: "n mod 10 < 10" by simp
    have "leading_int 0 (digits 10 n @ r) = leading_int (n div 10) (digit_char (n mod 10) # r)"
      unfolding d using less False by simp
    moreover have "n div 10 \<le> 2 ^ 63 div 10" using less.prems by (rule div_le_mono)
    moreover have "n div 10 * 10 + n mod 10 = n" by simp
    ultimately show ?thesis using digit_facts [OF m] less.prems by (simp add: Let_def)
  qed
qed

lemma leading_fraction_last_digits:
  assumes "k \<le> 18"
  shows "leading_fraction 0 1 False (last_digits k n @ r) = leading_fraction (n mod 10 ^ k) (10 ^ k) False r"
  using assms
proof (induction k arbitrary: n r)
  case (Suc k)
  let ?x = "n div 10 mod 10 ^ k"
  have m: "n mod 10 < 10" by simp
  have "?x < 10 ^ k" by simp
  also have "(10::nat) ^ k \<le> 10 ^ 17" using Suc.prems by (intro power_increasing) simp_all
  finally have x: "?x < 10 ^ 17" .
  have "leading_fraction 0 1 False (last_digits (Suc k) n @ r)
      = leading_fraction ?x (10 ^ k) False (digit_char (n mod 10) # r)"
    using Suc by simp
  moreover have "leading_fraction ?x (10 ^ k) False (digit_char (n mod 10) # r)
      = leading_fraction (?x * 10 + n mod 10) (10 ^ Suc k) False r"
  proof -
    have "\<not> 2 ^ 63 < ?x * 10 + n mod 10" "\<not> (2 ^ 63 - 1) div 10 < ?x" using x m by simp_all
    then show ?thesis using digit_facts [OF m] by (simp add: Let_def mult.commute)
  qed
  moreover have "?x * 10 + n mod 10 = n mod 10 ^ Suc k" by (simp add: mod_mult2_eq)
  ultimately show ?case by simp
qed (simp add: mod_0)

text \<open>What a number may be followed by: the end or the next number.\<close>

definition number_next :: "string \<Rightarrow> bool" where
  "number_next r \<longleftrightarrow> r = [] \<or> is_digit (hd r)"

lemma hd_digits_is_digit: "is_digit (hd (digits 10 n @ r))"
  using hd_digits [of 10 n] digit_facts(1) by (auto simp: hd_append digits_length_pos)

lemma number_next_digits [simp]: "number_next (digits 10 n @ r)" "number_next []"
  using hd_digits_is_digit by (simp_all add: number_next_def)

text \<open>A unit: its letters stop a number, and the next number stops them.\<close>

definition unit_text :: "string \<Rightarrow> bool" where
  "unit_text u \<longleftrightarrow> u \<noteq> [] \<and> (\<forall>c \<in> set u. c \<noteq> CHR ''.'' \<and> \<not> is_digit c)"

lemma unit_text_part: "unit_text u \<Longrightarrow> number_next r \<Longrightarrow> unit_part (u @ r) = u"
  unfolding unit_part_def unit_text_def number_next_def
  by (subst takeWhile_append2) (auto simp: takeWhile_eq_Nil_iff)

lemma unit_text_stops:
  assumes "unit_text u"
  shows "leading_int n (u @ r) = Some (n, u @ r)" "leading_fraction x sc False (u @ r) = (x, sc, u @ r)"
    and "u @ r \<noteq> []" "hd (u @ r) \<noteq> CHR ''.''"
  using assms by (cases u; simp add: unit_text_def)+

lemma duration_part_whole:
  assumes u: "unit_text u" "duration_unit u = Some unit" "number_next r"
    and v: "v \<le> 2 ^ 63 div unit" "v * unit \<le> 2 ^ 63" "v \<le> 2 ^ 63"
  shows "duration_part (digits 10 v @ u @ r) = Some (v * unit, r)"
proof -
  have l: "leading_int 0 (digits 10 v @ u @ r) = Some (v, u @ r)"
    unfolding leading_int_digits [OF v(3)] by (rule unit_text_stops [OF u(1)])
  show ?thesis
    unfolding duration_part_def
    using l hd_digits_is_digit [of v "u @ r"] unit_text_stops(4) [OF u(1), of r] unit_text_part [OF u(1,3)] u(1,2) v
    by (simp add: Let_def digits_length_pos unit_text_def)
qed

lemma f64_scaled:
  assumes "f < 10 ^ k" "k \<le> p" "p \<le> 9"
  shows "to_int64 (f_mul (to_f64 (of_nat f)) (f_div (to_f64 (of_nat (10 ^ p))) (of_nat (10 ^ k)))) = int (f * 10 ^ (p - k))"
proof -
  have small: "to_f64 (of_nat n) = Fin (of_nat n)" if "n \<le> 10 ^ 9" for n :: nat
    using to_f64_int [of "int n"] that by simp
  have "(10::nat) ^ p \<le> 10 ^ 9" using assms by (intro power_increasing) simp_all
  note b = this
  have fp: "f * 10 ^ (p - k) < 10 ^ p"
  proof -
    have "f * 10 ^ (p - k) < 10 ^ k * 10 ^ (p - k)" using assms(1) by simp
    then show ?thesis using assms(2) by (simp flip: power_add)
  qed
  have "(10::nat) ^ k \<le> 10 ^ p" "(10::nat) ^ (p - k) \<le> 10 ^ p" using assms by (auto intro: power_increasing)
  then have "f \<le> 10 ^ 9" "(10::nat) ^ (p - k) \<le> 10 ^ 9" "f * 10 ^ (p - k) \<le> 10 ^ 9" using b fp assms(1) by linarith+
  note s = small [OF this(1)] small [OF this(2)] small [OF this(3)] small [OF b]
  have q: "of_nat (10 ^ p) / (of_nat (10 ^ k) :: rat) = of_nat (10 ^ (p - k))"
  proof -
    have "(10::nat) ^ p = 10 ^ (p - k) * 10 ^ k" using assms(2) by (simp flip: power_add)
    then show ?thesis by simp
  qed
  have "f_div (Fin (of_nat (10 ^ p))) (of_nat (10 ^ k)) = Fin (of_nat (10 ^ (p - k)))"
    unfolding f_div_def f64.case q s(2) ..
  moreover have "f_mul (Fin (of_nat f)) (Fin (of_nat (10 ^ (p - k)))) = Fin (of_nat (f * 10 ^ (p - k)))"
    unfolding f_mul_def prod.case f64.case of_nat_mult [symmetric] s(3) ..
  moreover have "in_i64 (int (f * 10 ^ (p - k)))"
  proof -
    have "in_i64 (int n)" if "n \<le> 10 ^ 9" for n using that by (simp add: in_i64_def)
    then show ?thesis using fp b by (meson le_trans less_imp_le)
  qed
  moreover have "trunc (of_nat n) = int n" for n by (simp add: trunc_def)
  ultimately show ?thesis unfolding s by (simp only: to_int64_def f64.case if_True)
qed

lemma duration_part_frac:
  assumes u: "unit_text u" "duration_unit u = Some (10 ^ p)" "number_next r" "p \<le> 9"
    and v: "v \<le> 2 ^ 63 div 10 ^ p" "v \<le> 2 ^ 63" "v * 10 ^ p + m mod 10 ^ k * 10 ^ (p - k) \<le> 2 ^ 63"
    and k: "0 < k" "k \<le> p" "m mod 10 ^ k \<noteq> 0"
  shows "duration_part (digits 10 v @ CHR ''.'' # last_digits k m @ u @ r)
    = Some (v * 10 ^ p + m mod 10 ^ k * 10 ^ (p - k), r)"
proof -
  let ?s = "digits 10 v @ CHR ''.'' # last_digits k m @ u @ r"
  have l: "leading_int 0 ?s = Some (v, CHR ''.'' # last_digits k m @ u @ r)"
    unfolding leading_int_digits [OF v(2)] by (simp add: is_digit_def byte_def)
  have f: "leading_fraction 0 1 False (last_digits k m @ u @ r) = (m mod 10 ^ k, 10 ^ k, u @ r)"
    using k(2) u(4) leading_fraction_last_digits [of k m "u @ r"] unit_text_stops(2) [OF u(1)] by simp
  have t: "nat (to_int64 (f_mul (to_f64 (of_nat (m mod 10 ^ k)))
      (f_div (to_f64 (of_nat (10 ^ p))) (of_nat (10 ^ k))))) = m mod 10 ^ k * 10 ^ (p - k)"
    using f64_scaled [of "m mod 10 ^ k" k p] k(2) u(4) by (simp add: nat_mult_distrib nat_power_eq)
  have h: "is_digit (hd ?s)" "?s \<noteq> []" using hd_digits_is_digit by (simp_all add: digits_length_pos)
  show ?thesis
    unfolding duration_part_def l option.case prod.case Let_def
    using h f t unit_text_part [OF u(1,3)] u(1,2) v k(3)
    by (simp add: unit_text_def digits_length_pos del: of_nat_power)
qed

lemma factor_bounds:
  assumes "v * n \<le> m" "0 < n"
  shows "v \<le> m div n" "v \<le> (m :: nat)"
proof -
  show "v \<le> m div n" using assms by (simp add: less_eq_div_iff_mult_less_eq)
  have "v \<le> v * n" using assms(2) by simp
  then show "v \<le> m" using assms(1) by (rule le_trans)
qed

lemma duration_part_fmt_frac:
  assumes u: "unit_text unit" "duration_unit unit = Some (10 ^ p)" "number_next r" "p \<le> 9"
    and v: "v * 10 ^ p + n mod 10 ^ p \<le> 2 ^ 63"
    and b: "fmt_frac p n False unit = (buf, q)"
  shows "duration_part (digits 10 v @ buf @ r) = Some (v * 10 ^ p + n mod 10 ^ p, r)"
proof -
  have "v * 10 ^ p \<le> 2 ^ 63" using v by linarith
  then have v1: "v \<le> 2 ^ 63 div 10 ^ p" "v \<le> 2 ^ 63" by (rule factor_bounds, simp)+
  from fmt_frac_eq [of n p unit] show ?thesis
  proof
    assume "n mod 10 ^ p = 0 \<and> fmt_frac p n False unit = (unit, n div 10 ^ p)"
    then show ?thesis using duration_part_whole [OF u(1,2,3) v1(1)] v v1(2) b by simp
  next
    assume "\<exists>k m. 0 < k \<and> k \<le> p \<and> n mod 10 ^ p = m mod 10 ^ k * 10 ^ (p - k) \<and> m mod 10 ^ k \<noteq> 0
      \<and> fmt_frac p n False unit = (CHR ''.'' # last_digits k m @ unit, n div 10 ^ p)"
    then obtain k m where "0 < k" "k \<le> p" "m mod 10 ^ k \<noteq> 0" "n mod 10 ^ p = m mod 10 ^ k * 10 ^ (p - k)"
      "buf = CHR ''.'' # last_digits k m @ unit" using b by auto
    then show ?thesis using duration_part_frac [OF u v1] v by simp
  qed
qed

lemma fmt_frac_rest: "snd (fmt_frac p n shown buf) = n div 10 ^ p"
  by (induction p arbitrary: n shown buf) (simp_all add: Let_def div_mult2_eq)

lemma duration_loop_Nil [simp]: "duration_loop d [] = Some d"
  by (simp add: duration_loop.simps)

lemma duration_loop_step:
  assumes "duration_part s = Some (v, r)" "d + v \<le> 2 ^ 63"
  shows "duration_loop d s = duration_loop (d + v) r"
proof -
  have "(d + v) mod 2 ^ 64 = d + v" using assms(2) by simp
  moreover have "s \<noteq> []" using assms(1) by (auto simp: duration_part_def)
  ultimately show ?thesis using assms by (subst duration_loop.simps) (simp add: Let_def)
qed

lemma units:
  "unit_text ''ns''" "unit_text [CHR 0xC2, CHR 0xB5, CHR ''s'']" "unit_text ''ms''" "unit_text ''s''"
  "unit_text ''m''" "unit_text ''h''"
  by (simp_all add: unit_text_def is_digit_def byte_def)

lemma unit_values:
  "duration_unit ''ns'' = Some 1" "duration_unit [CHR 0xC2, CHR 0xB5, CHR ''s''] = Some (10 ^ 3)"
  "duration_unit ''ms'' = Some (10 ^ 6)" "duration_unit ''s'' = Some (10 ^ 9)"
  "duration_unit ''m'' = Some 60000000000" "duration_unit ''h'' = Some 3600000000000"
  by (simp_all add: duration_unit_def)

lemma loop_seconds:
  assumes "fmt_frac 9 u False ''s'' = (buf, secs)" "d + (v * 10 ^ 9 + u mod 10 ^ 9) \<le> 2 ^ 63"
  shows "duration_loop d (digits 10 v @ buf) = Some (d + (v * 10 ^ 9 + u mod 10 ^ 9))"
  using duration_part_fmt_frac [OF units(4) unit_values(4) number_next_digits(2) _ _ assms(1), of v] assms(2)
  by (simp add: duration_loop_step)

lemma loop_number:
  assumes "unit_text unit" "duration_unit unit = Some n" "0 < n" "d + v * n \<le> 2 ^ 63"
  shows "duration_loop d (digits 10 v @ unit @ digits 10 w @ r) = duration_loop (d + v * n) (digits 10 w @ r)"
proof -
  have "v * n \<le> 2 ^ 63" using assms(4) by linarith
  moreover note factor_bounds [OF this assms(3)]
  ultimately have "duration_part (digits 10 v @ unit @ digits 10 w @ r) = Some (v * n, digits 10 w @ r)"
    by (intro duration_part_whole [OF assms(1,2) number_next_digits(1)])
  then show ?thesis using assms(4) by (rule duration_loop_step)
qed

lemma loop_frac_text:
  assumes "unit_text unit" "duration_unit unit = Some (10 ^ p)" "p \<le> 9" "u \<le> 2 ^ 63"
  shows "duration_loop 0 (frac_text p u unit) = Some u"
proof -
  obtain buf q where b: "fmt_frac p u False unit = (buf, q)" by fastforce
  then have q: "q = u div 10 ^ p" using fmt_frac_rest [of p u] by (metis snd_conv)
  have "q * 10 ^ p + u mod 10 ^ p = u" unfolding q by (rule div_mult_mod_eq)
  then have "duration_part (digits 10 q @ buf @ []) = Some (u, [])"
    using duration_part_fmt_frac [OF assms(1,2) number_next_digits(2) assms(3) _ b, of q] assms(4) by simp
  then have "duration_loop 0 (digits 10 q @ buf) = duration_loop (0 + u) []"
    using assms(4) by (intro duration_loop_step) simp_all
  then show ?thesis using b by (simp add: frac_text_def)
qed

lemma loop_clock:
  assumes u: "u \<le> 2 ^ 63" and b: "fmt_frac 9 u False ''s'' = (buf, secs)"
  shows "duration_loop 0 ((if 0 < secs div 60 then
        (if 0 < secs div 60 div 60 then digits 10 (secs div 60 div 60) @ ''h'' else [])
        @ digits 10 (secs div 60 mod 60) @ ''m'' else [])
      @ digits 10 (secs mod 60) @ buf) = Some u"
proof -
  define mins where "mins = secs div 60"
  define hours where "hours = mins div 60"
  define rest where "rest = secs mod 60 * 10 ^ 9 + u mod 10 ^ 9"
  have "secs = u div 10 ^ 9" using fmt_frac_rest [of 9 u] b by (metis snd_conv)
  then have "u = secs * 1000000000 + u mod 10 ^ 9" "secs = mins * 60 + secs mod 60" "mins = hours * 60 + mins mod 60"
    by (simp_all add: mins_def hours_def)
  moreover have "rest = secs mod 60 * 1000000000 + u mod 10 ^ 9" by (simp add: rest_def)
  ultimately have parts: "hours * 3600000000000 + mins mod 60 * 60000000000 + rest = u" by linarith
  have s: "duration_loop d (digits 10 (secs mod 60) @ buf) = Some (d + rest)" if "d + rest \<le> 2 ^ 63" for d
    using loop_seconds [OF b, of d "secs mod 60"] that by (simp add: rest_def)
  have m: "duration_loop d (digits 10 (mins mod 60) @ ''m'' @ digits 10 (secs mod 60) @ buf)
      = Some (d + mins mod 60 * 60000000000 + rest)" if "d + mins mod 60 * 60000000000 + rest \<le> 2 ^ 63" for d
    using loop_number [OF units(5) unit_values(5), of d "mins mod 60" "secs mod 60" buf] s that by simp
  have h: "duration_loop 0 (digits 10 hours @ ''h'' @ digits 10 (mins mod 60) @ ''m'' @ digits 10 (secs mod 60) @ buf)
      = Some u"
    using loop_number [OF units(6) unit_values(6), of 0 hours "mins mod 60" "''m'' @ digits 10 (secs mod 60) @ buf"]
      m [of "hours * 3600000000000"] parts u by simp
  consider "mins = 0" "hours = 0" | "0 < mins" "hours = 0" | "0 < mins" "0 < hours"
    unfolding hours_def by fastforce
  then show ?thesis
  proof cases
    case 1
    then show ?thesis unfolding mins_def [symmetric] hours_def [symmetric]
      using s [of 0] parts u by simp
  next
    case 2
    then show ?thesis unfolding mins_def [symmetric] hours_def [symmetric]
      using m [of 0] parts u by simp
  next
    case 3
    then show ?thesis unfolding mins_def [symmetric] hours_def [symmetric]
      using h by simp
  qed
qed

lemma duration_loop_abs:
  assumes "u \<le> 2 ^ 63"
  shows "duration_loop 0 (duration_abs u) = Some u"
proof -
  consider (zero) "u = 0" | (ns) "0 < u" "u < 1000" | (us) "1000 \<le> u" "u < 1000000"
    | (ms) "1000000 \<le> u" "u < 1000000000" | (s) "1000000000 \<le> u" by linarith
  then show ?thesis
  proof cases
    case zero
    have "duration_loop 0 ''0s'' = Some 0" by code_simp
    then show ?thesis using zero by (simp add: duration_abs_def)
  next
    case ns
    have "duration_part (digits 10 u @ ''ns'' @ []) = Some (u * 1, [])"
      using ns by (intro duration_part_whole units unit_values number_next_digits) simp_all
    then have "duration_loop 0 (digits 10 u @ ''ns'') = duration_loop (0 + u) []"
      using assms by (intro duration_loop_step) simp_all
    then show ?thesis using ns by (simp add: duration_abs_def)
  next
    case us
    then show ?thesis using loop_frac_text [OF units(2) unit_values(2) _ assms] by (simp add: duration_abs_def)
  next
    case ms
    then show ?thesis using loop_frac_text [OF units(3) unit_values(3) _ assms] by (simp add: duration_abs_def)
  next
    case s
    obtain buf secs where b: "fmt_frac 9 u False ''s'' = (buf, secs)" by fastforce
    have "duration_abs u = (if 0 < secs div 60 then
        (if 0 < secs div 60 div 60 then digits 10 (secs div 60 div 60) @ ''h'' else [])
        @ digits 10 (secs div 60 mod 60) @ ''m'' else []) @ digits 10 (secs mod 60) @ buf"
      using s unfolding duration_abs_def b Let_def prod.case by simp
    then show ?thesis using loop_clock [OF assms b] by simp
  qed
qed

lemma duration_abs_head:
  "drop_sign (duration_abs u) = duration_abs u" "duration_abs u \<noteq> []" "hd (duration_abs u) \<noteq> CHR ''-''"
proof -
  have "is_digit (hd (duration_abs u)) \<and> duration_abs u \<noteq> []"
    using hd_digits_is_digit
    by (auto simp: duration_abs_def frac_text_def Let_def digits_length_pos is_digit_def byte_def split: prod.split)
  then show "drop_sign (duration_abs u) = duration_abs u" "duration_abs u \<noteq> []" "hd (duration_abs u) \<noteq> CHR ''-''"
    using drop_sign_digit by auto
qed

lemma duration_abs_unit: "u \<le> 2 ^ 63 \<Longrightarrow> duration_abs u \<noteq> ''0''"
proof
  assume "u \<le> 2 ^ 63" "duration_abs u = ''0''"
  then have "duration_loop 0 ''0'' = Some u" using duration_loop_abs by metis
  moreover have "duration_loop 0 ''0'' = None" by code_simp
  ultimately show False by simp
qed

theorem parse_duration_string:
  assumes "in_i64 d"
  shows "parse_duration (duration_string d) = Some d"
proof (cases "d < 0")
  case True
  then have "nat (- d) \<le> 2 ^ 63" using assms by (simp add: in_i64_def nat_le_iff)
  note duration_loop_abs [OF this] duration_abs_unit [OF this]
  then show ?thesis using True assms duration_abs_head [of "nat (- d)"]
    by (simp add: parse_duration_def duration_string_def drop_sign_def Let_def i64_id)
next
  case False
  then have m: "nat d \<le> 2 ^ 63 - 1" using assms by (simp add: in_i64_def nat_le_iff)
  then have "nat d \<le> 2 ^ 63" by simp
  note duration_loop_abs [OF this] duration_abs_unit [OF this]
  then show ?thesis using False m duration_abs_head [of "nat d"]
    by (simp add: parse_duration_def duration_string_def Let_def)
qed

end
