(* ===== verification/Journal.thy ===== *)
theory Journal
  imports Arming Go_Slog Go_Duration
begin

text \<open>
  What the program logs, as the handlers of \<open>newLogger\<close> render it: the message and the attributes
  of every call of the logger in \<open>internal/guard/guard.go\<close> and
  \<open>cmd/slurm-temperature-check/main.go\<close>, and the lines of the log.
\<close>

text \<open>What the program logs besides the guard.\<close>

datatype event =
    GuardEvent message
  | IntervalNotPositive int
  | RetriesNegative int
  | ClassUnreadable io_err
  | CannotArm arm_error
  | HeldUnarmed string arm_error
  | ArmedAfterHold string
  | StoppedSuspended
  | WatchdogEnabled int int
  | KeepAliveWithheld int

type_synonym journal = "(level \<times> event) list"

section \<open>Messages and attributes\<close>

definition level_text :: "level \<Rightarrow> string" where
  "level_text l = (case l of
     Debug \<Rightarrow> ''DEBUG'' | Info \<Rightarrow> ''INFO'' | Warn \<Rightarrow> ''WARN'' | Error \<Rightarrow> ''ERROR'')"

definition why_text :: "(nat \<Rightarrow> bool) \<Rightarrow> reason option \<Rightarrow> string" where
  "why_text ip why = (case why of None \<Rightarrow> [] | Some r \<Rightarrow> reason_text ip r)"

definition guard_record :: "(nat \<Rightarrow> bool) \<Rightarrow> message \<Rightarrow> string \<times> attrs" where
  "guard_record ip m = (case m of
     Armed board limit sensors interval retries \<Rightarrow>
       (''guard armed'',
        [(''board'', Str board), (''limit'', Str (mc_string limit)), (''sensors'', Str sensors),
         (''interval'', Str (duration_string interval)), (''read_retries'', Num retries)])
   | AskedToStop board \<Rightarrow> (''asked to stop, exiting cleanly'', [(''board'', Str board)])
   | Tripped board src why \<Rightarrow>
       (''guard tripped, the node must stop running jobs'',
        [(''board'', Str board), (''source'', Str src), (''reason'', Str (why_text ip why))])
   | ReadingFailed src failures retries why \<Rightarrow>
       (''reading failed, within the retry budget'',
        [(''source'', Str src), (''failures'', Num failures), (''read_retries'', Num retries),
         (''error'', Str (why_text ip why))])
   | Suspended path \<Rightarrow>
       (''checking suspended: the disable file is present'', [(''path'', Str path)])
   | StillOk v src \<Rightarrow> (''ok'', [(''reading'', Str (mc_string v)), (''source'', Str src)])
   | OverrideRead v src sensors limit \<Rightarrow>
       (''the override file is being read in place of the sensors'',
        [(''reading'', Str (mc_string v)), (''override_file'', Str src), (''sensors'', Str sensors),
         (''limit'', Str (mc_string limit))])
   | Resumed v src limit \<Rightarrow>
       (''checking resumed'',
        [(''reading'', Str (mc_string v)), (''source'', Str src), (''limit'', Str (mc_string limit))]))"

text \<open>One definition per call of the logger in \<open>main.go\<close>, in their order there.\<close>

definition interval_record :: "int \<Rightarrow> string \<times> attrs" where
  "interval_record d = (''interval must be positive'', [(''interval'', Str (duration_string d))])"

definition retries_record :: "int \<Rightarrow> string \<times> attrs" where
  "retries_record n = (''read-retries cannot be negative'', [(''read_retries'', Num n)])"

definition class_record :: "io_err \<Rightarrow> string \<times> attrs" where
  "class_record err = (''cannot read the hwmon class'', [(''error'', Str err)])"

definition cannot_arm_record :: "(nat \<Rightarrow> bool) \<Rightarrow> arm_error \<Rightarrow> string \<times> attrs" where
  "cannot_arm_record ip err = (''cannot arm the guard'', [(''error'', Str (arm_error_text ip err))])"

definition suspended_stop_record :: "string \<times> attrs" where
  "suspended_stop_record = (''asked to stop while checking was suspended, exiting cleanly'', [])"

definition held_record :: "(nat \<Rightarrow> bool) \<Rightarrow> string \<Rightarrow> arm_error \<Rightarrow> string \<times> attrs" where
  "held_record ip path err =
    (''checking suspended: the disable file is present and the guard cannot arm'',
     [(''path'', Str path), (''error'', Str (arm_error_text ip err))])"

definition rearmed_record :: "string \<Rightarrow> string \<times> attrs" where
  "rearmed_record board = (''the disable file is gone and the guard armed'', [(''board'', Str board)])"

definition enabled_record :: "int \<Rightarrow> int \<Rightarrow> string \<times> attrs" where
  "enabled_record every stale =
    (''watchdog enabled'',
     [(''ping_every'', Str (duration_string every)), (''stale_after'', Str (duration_string stale))])"

definition withheld_record :: "int \<Rightarrow> string \<times> attrs" where
  "withheld_record since =
    (''the check loop has not completed a pass, withholding the watchdog keep-alive'',
     [(''since_last_pass'', Str (duration_string since))])"

definition event_record :: "(nat \<Rightarrow> bool) \<Rightarrow> event \<Rightarrow> string \<times> attrs" where
  "event_record ip e = (case e of
     GuardEvent m \<Rightarrow> guard_record ip m
   | IntervalNotPositive d \<Rightarrow> interval_record d
   | RetriesNegative n \<Rightarrow> retries_record n
   | ClassUnreadable err \<Rightarrow> class_record err
   | CannotArm err \<Rightarrow> cannot_arm_record ip err
   | HeldUnarmed path err \<Rightarrow> held_record ip path err
   | ArmedAfterHold board \<Rightarrow> rearmed_record board
   | StoppedSuspended \<Rightarrow> suspended_stop_record
   | WatchdogEnabled every stale \<Rightarrow> enabled_record every stale
   | KeepAliveWithheld since \<Rightarrow> withheld_record since)"

text \<open>The handler's own attributes come first; there is no time.\<close>

definition record_attrs :: "(nat \<Rightarrow> bool) \<Rightarrow> level \<times> event \<Rightarrow> attrs" where
  "record_attrs ip line = (case line of (l, e) \<Rightarrow>
     [(''level'', Str (level_text l)), (''msg'', Str (fst (event_record ip e)))] @ snd (event_record ip e))"

definition log_record :: "platform \<Rightarrow> log_format \<Rightarrow> level \<times> event \<Rightarrow> string" where
  "log_record p fmt line = (case fmt of
     TextFormat \<Rightarrow> text_record (p_printable p) (record_attrs (p_printable p) line)
   | JsonFormat \<Rightarrow> json_record (p_json_short p) (record_attrs (p_printable p) line))"

definition log_text :: "platform \<Rightarrow> log_format \<Rightarrow> journal \<Rightarrow> string" where
  "log_text p fmt lines = concat (map (log_record p fmt) lines)"

section \<open>Lines\<close>

lemma log_record_line: "\<exists>l. log_record p fmt line = l @ [newline] \<and> no_control l"
  using text_record_line json_record_line by (simp add: log_record_def split: log_format.split)

text \<open>The record as read back: the values as strings.\<close>

definition record_shown :: "(nat \<Rightarrow> bool) \<Rightarrow> level \<times> event \<Rightarrow> (string \<times> string) list" where
  "record_shown ip line = map (\<lambda>(k, v). (k, value_string v)) (record_attrs ip line)"

lemma log_record_reads:
  "\<exists>l. log_record p TextFormat line = l @ [newline] \<and> no_control l
    \<and> read_record l = Some (record_shown (p_printable p) line)"
proof -
  let ?as = "record_attrs (p_printable p) line"
  have "?as \<noteq> []" by (simp add: record_attrs_def split: prod.split)
  then have "read_record (join '' '' (map (text_attr (p_printable p)) ?as)) = Some (record_shown (p_printable p) line)"
    unfolding record_shown_def by (rule read_record_text)
  moreover have "no_control (join '' '' (map (text_attr (p_printable p)) ?as))"
    using no_control_join [of "'' ''" "map (text_attr (p_printable p)) ?as"] no_control_text_attr by (auto simp: byte_def)
  ultimately show ?thesis by (simp add: log_record_def text_record_def)
qed

end
