(* ===== verification/Go_Tabwriter.thy ===== *)
theory Go_Tabwriter
  imports Go_Unicode
begin

text \<open>
  Go's \<open>text/tabwriter\<close> with the parameters the program sets: no minimal width, a padding of
  two spaces, no flags. A cell is text that a tab or the end of a line terminates; the last cell of a
  line belongs to no column. A column is a block of consecutive lines that have a cell there, as wide
  as its widest cell and the padding. A byte \<open>0xff\<close> opens or closes an escaped passage, in which
  nothing terminates a cell; a form feed, or a line of one cell, ends the table laid out so far.
\<close>

type_synonym cell = "string \<times> int"

definition tw_cell :: "string \<Rightarrow> nat \<Rightarrow> cell" where
  "tw_cell txt escapes = (txt, int (length (runes txt)) - 2 * int escapes)"

fun tw_scan :: "bool \<Rightarrow> string \<Rightarrow> nat \<Rightarrow> cell list \<Rightarrow> cell list list \<Rightarrow> string \<Rightarrow> cell list list list" where
  "tw_scan esc cur n cells lines [] =
    [lines @ [if cur = [] then cells else cells @ [tw_cell cur (if esc then n + 1 else n)]]]"
| "tw_scan esc cur n cells lines (c # s) =
    (if esc then tw_scan (c \<noteq> CHR 0xFF) (cur @ [c]) (if c = CHR 0xFF then n + 1 else n) cells lines s
     else if c = CHR 0xFF then tw_scan True (cur @ [c]) n cells lines s
     else if c = CHR 0x09 \<or> c = CHR 0x0B then tw_scan False [] 0 (cells @ [tw_cell cur n]) lines s
     else if c = CHR 0x0A \<or> c = CHR 0x0C then
       (let l = cells @ [tw_cell cur n] in
        if c = CHR 0x0C \<or> length l = 1 then (lines @ [l, []]) # tw_scan False [] 0 [] [] s
        else tw_scan False [] 0 [] (lines @ [l]) s)
     else tw_scan False (cur @ [c]) n cells lines s)"

text \<open>Writing a line with the widths of its columns, and the lines of a table.\<close>

fun tw_line :: "int list \<Rightarrow> cell list \<Rightarrow> string" where
  "tw_line ws [] = []"
| "tw_line [] ((txt, width) # cs) = txt @ tw_line [] cs"
| "tw_line (w # ws) ((txt, width) # cs) = txt @ replicate (nat (w - width)) CHR 0x20 @ tw_line ws cs"

definition has_column :: "nat \<Rightarrow> cell list \<Rightarrow> bool" where
  "has_column column l \<longleftrightarrow> column < length l - 1"

definition column_width :: "nat \<Rightarrow> cell list list \<Rightarrow> int" where
  "column_width column block = foldl (\<lambda>w l. max w (snd (l ! column) + 2)) 0 block"

definition tw_measure :: "int list \<Rightarrow> cell list list \<Rightarrow> nat" where
  "tw_measure ws lines = sum_list (map (\<lambda>l. length l - length ws) lines) + length lines"

lemma tw_measure_drop: "tw_measure ws (dropWhile P ls) \<le> tw_measure ws ls"
  unfolding tw_measure_def by (induction ls) auto

lemma tw_measure_take: "tw_measure ws (takeWhile P ls) \<le> tw_measure ws ls"
  unfolding tw_measure_def by (induction ls) auto

lemma tw_measure_snoc: "tw_measure (ws @ [w]) ls \<le> tw_measure ws ls"
  unfolding tw_measure_def by (induction ls) auto

function tw_format :: "int list \<Rightarrow> cell list list \<Rightarrow> string list" where
  "tw_format ws [] = []"
| "tw_format ws (l # ls) =
    (if \<not> has_column (length ws) l then tw_line ws l # tw_format ws ls
     else
       let block = l # takeWhile (has_column (length ws)) ls;
           rest = dropWhile (has_column (length ws)) ls in
       tw_format (ws @ [column_width (length ws) block]) block @ tw_format ws rest)"
  by pat_completeness auto
termination
proof (relation "measure (\<lambda>(ws, ls). tw_measure ws ls)", goal_cases)
  case (2 ws l ls)
  then show ?case by (simp add: tw_measure_def)
next
  case (3 ws l ls block rest)
  have c: "length ws < length l - 1" using 3(1) by (simp add: has_column_def)
  let ?t = "takeWhile (has_column (length ws)) ls"
  have "tw_measure (ws @ [w]) ?t \<le> tw_measure ws ls" for w
    using tw_measure_snoc [of ws w ?t] tw_measure_take [of ws "has_column (length ws)" ls] by simp
  then show ?case using c 3(2) by (simp add: tw_measure_def)
next
  case (4 ws l ls block rest)
  have "tw_measure ws rest \<le> tw_measure ws ls" using tw_measure_drop 4(3) by simp
  then show ?case by (simp add: tw_measure_def)
qed simp

declare tw_format.simps [simp del]

definition tabwriter :: "string \<Rightarrow> string" where
  "tabwriter s = concat (map (\<lambda>ls. join [newline] (tw_format [] ls)) (tw_scan False [] 0 [] [] s))"

end
