(* ===== verification/Command.thy ===== *)
theory Command
  imports Journal Go_Tabwriter
begin

text \<open>
  \<open>run\<close> of \<open>cmd/slurm-temperature-check/main.go\<close>: the modes of the program, what each
  prints, logs and sends, and the status the process exits with.
\<close>

section \<open>Effects\<close>

definition exit_ok :: int where
  "exit_ok = 0"

definition exit_tripped :: int where
  "exit_tripped = 1"

definition exit_config :: int where
  "exit_config = 2"

text \<open>
  The status is none as long as the process runs. \<open>e_journal\<close> is the log before it is rendered,
  \<open>e_stderr\<close> what is printed there, the log included, \<open>e_sent\<close> the datagrams of the main
  goroutine, and \<open>e_passes\<close> the passes of the guard.
\<close>

record effects =
  e_exit :: "int option"
  e_stdout :: string
  e_stderr :: string
  e_journal :: journal
  e_sent :: "datagram list"
  e_passes :: "pass list"

definition exits :: "int \<Rightarrow> string \<Rightarrow> string \<Rightarrow> journal \<Rightarrow> effects" where
  "exits code out err lines =
    \<lparr>e_exit = Some code, e_stdout = out, e_stderr = err, e_journal = lines, e_sent = [], e_passes = []\<rparr>"

section \<open>Listing the sensors\<close>

definition tab :: char where
  "tab = CHR 0x09"

definition sensor_row :: "sensor \<Rightarrow> sensor_error + milli_celsius \<Rightarrow> string" where
  "sensor_row s r =
    s_chip s @ [tab] @ s_attr s @ [tab] @ (if s_label s = [] then ''-'' else s_label s) @ [tab]
    @ (case r of Inl _ \<Rightarrow> ''-'' | Inr v \<Rightarrow> mc_string v) @ [newline]"

fun sensor_rows :: "sensor list \<Rightarrow> world \<Rightarrow> string io" where
  "sensor_rows [] w = State_Monad.return []"
| "sensor_rows (s # ss) w = do {
     r \<leftarrow> sensor_read s w;
     rest \<leftarrow> sensor_rows ss w;
     State_Monad.return (sensor_row s r @ rest)
   }"

definition print_sensors :: "sensor list \<Rightarrow> world \<Rightarrow> string io" where
  "print_sensors ss w = do {
     rows \<leftarrow> sensor_rows ss w;
     State_Monad.return (tabwriter
       (''CHIP'' @ [tab] @ ''SENSOR'' @ [tab] @ ''LABEL'' @ [tab] @ ''READING'' @ [newline] @ rows))
   }"

definition list_mode :: "platform \<Rightarrow> options \<Rightarrow> world \<Rightarrow> effects io" where
  "list_mode p opts w = do {
     r \<leftarrow> discover (p_sort p) (o_hwmon_path opts) w;
     (case r of
        Inl err \<Rightarrow> State_Monad.return (exits exit_config [] [] [(Error, ClassUnreadable err)])
      | Inr sensors \<Rightarrow> do {
          out \<leftarrow> print_sensors sensors w;
          State_Monad.return (exits exit_ok out [] [])
        })
   }"

section \<open>The check mode\<close>

definition unarmed_report :: "platform \<Rightarrow> options \<Rightarrow> arm_error \<Rightarrow> string" where
  "unarmed_report p opts err =
    ''disable  '' @ o_disable_path opts @ [newline]
    @ ''verdict  '' @ verdict_string Disabled @ [newline]
    @ ''reason   checking is suspended; the guard cannot arm: ''
    @ arm_error_text (p_printable p) err @ [newline]"

definition check_report :: "platform \<Rightarrow> guard \<Rightarrow> result \<Rightarrow> string" where
  "check_report p g res =
    ''board    '' @ g_board g @ [newline]
    @ ''sensors  '' @ src_name (g_sensors g) @ [newline]
    @ ''limit    '' @ mc_string (g_max g) @ [newline]
    @ ''source   '' @ r_source res @ [newline]
    @ ''reading  '' @ (if r_has_reading res then mc_string (r_reading res) else ''-'') @ [newline]
    @ ''verdict  '' @ verdict_string (r_verdict res) @ [newline]
    @ (case r_err res of None \<Rightarrow> []
       | Some why \<Rightarrow> ''reason   '' @ reason_text (p_printable p) why @ [newline])"

definition check_mode :: "platform \<Rightarrow> options \<Rightarrow> arm_error + guard \<Rightarrow> world \<Rightarrow> effects io" where
  "check_mode p opts armed w = (case armed of
     Inl err \<Rightarrow> State_Monad.return (exits exit_ok (unarmed_report p opts err) [] [])
   | Inr g \<Rightarrow> do {
       (g', res) \<leftarrow> check g w;
       State_Monad.return
         ((exits (if r_verdict res = Trip \<or> r_verdict res = Tolerated then exit_tripped else exit_ok)
            (check_report p g res) [] [])\<lparr>e_passes := [(res, [])]\<rparr>)
     })"

section \<open>The daemon\<close>

text \<open>\<open>statusReporter\<close>: the line for a result, and the observer with the line it sent last.\<close>

definition status_line :: "guard \<Rightarrow> result \<Rightarrow> string" where
  "status_line g res = (case r_verdict res of
     Disabled \<Rightarrow> ''Suspended: '' @ r_source res @ '' is present''
   | Tolerated \<Rightarrow> ''Reading '' @ r_source res @ '' failed, within the retry budget''
   | _ \<Rightarrow> ''Watching '' @ r_source res @ '', limit '' @ mc_string (g_max g))"

fun report_status :: "notifier \<Rightarrow> guard \<Rightarrow> string \<Rightarrow> result list \<Rightarrow> datagram list" where
  "report_status n g prev [] = []"
| "report_status n g prev (res # rs) =
    (let line = status_line g res in
     if line = prev then report_status n g prev rs
     else notify_status n line @ report_status n g line rs)"

text \<open>\<open>watchdog\<close>'s period and the age from which a pass is overdue; it logs both.\<close>

definition stale_after :: "int \<Rightarrow> int \<Rightarrow> int" where
  "stale_after interval every =
    (let stale = i64 (2 * interval); least = i64 (2 * every) in if stale < least then least else stale)"

definition watchdog_lines :: "platform \<Rightarrow> int \<Rightarrow> journal" where
  "watchdog_lines p interval =
    (let every = watchdog_interval (p_env p) (p_pid p) in
     if every \<le> 0 then [] else [(Debug, WatchdogEnabled every (stale_after interval every))])"

definition exit_of :: "outcome \<Rightarrow> int option" where
  "exit_of out = (case out of
     Running \<Rightarrow> None | Stopped \<Rightarrow> Some exit_ok | GuardTripped _ \<Rightarrow> Some exit_tripped)"

definition watch :: "platform \<Rightarrow> notifier \<Rightarrow> guard \<Rightarrow> wait list \<Rightarrow> world \<Rightarrow> effects io" where
  "watch p n g waits w = do {
     (out, lines, passes, g') \<leftarrow> run_guard g waits w;
     State_Monad.return
       \<lparr>e_exit = exit_of out, e_stdout = [], e_stderr = [],
        e_journal = watchdog_lines p (g_interval g) @ map (\<lambda>(l, m). (l, GuardEvent m)) lines,
        e_sent =
          notify_ready n (''Watching '' @ src_name (g_sensors g) @ '', limit '' @ mc_string (g_max g))
          @ report_status n g [] (map fst passes)
          @ (case out of
               GuardTripped why \<Rightarrow> notify_status n (''Tripped: '' @ tripped_text (p_printable p) why)
             | _ \<Rightarrow> []),
        e_passes = passes\<rparr>
   }"

text \<open>
  What follows the hold. A signal that arrives while the guard is being armed is the next wait: the
  context is cancelled by the time it is asked, whatever the attempt came to.
\<close>

definition before :: "journal \<Rightarrow> datagram list \<Rightarrow> effects \<Rightarrow> effects" where
  "before lines sent eff = eff\<lparr>e_journal := lines @ e_journal eff, e_sent := sent @ e_sent eff\<rparr>"

definition after_hold :: "platform \<Rightarrow> notifier \<Rightarrow> held \<Rightarrow> wait list \<Rightarrow> world \<Rightarrow> effects io" where
  "after_hold p n out rest w = (case out of
     Holding \<Rightarrow> State_Monad.return ((exits exit_ok [] [] [])\<lparr>e_exit := None\<rparr>)
   | HeldStopped _ \<Rightarrow> State_Monad.return (exits exit_ok [] [] [(Info, StoppedSuspended)])
   | HeldFailed err \<Rightarrow> State_Monad.return
       (if rest \<noteq> [] \<and> hd rest = Cancel then exits exit_ok [] [] [(Info, StoppedSuspended)]
        else exits exit_config [] [] [(Error, CannotArm err)])
   | Rearmed g \<Rightarrow> do {
       eff \<leftarrow> watch p n g rest w;
       State_Monad.return (before [(Info, ArmedAfterHold (g_board g))] [] eff)
     })"

definition daemon :: "platform \<Rightarrow> options \<Rightarrow> arm_error + guard \<Rightarrow> wait list \<Rightarrow> world \<Rightarrow> effects io" where
  "daemon p opts armed waits w =
    (let n = notifier_new (p_dial p) (p_env p) in
     case armed of
       Inr g \<Rightarrow> watch p n g waits w
     | Inl why \<Rightarrow> do {
         (out, sent, rest) \<leftarrow> rearm_when_resumed p opts n why waits w;
         eff \<leftarrow> after_hold p n out rest w;
         State_Monad.return (before [(Warn, HeldUnarmed (o_disable_path opts) why)] sent eff)
       })"

section \<open>The program\<close>

text \<open>
  Arming. A guard that cannot be armed ends the program, unless the disable file is present; then,
  and with a guard, it goes on with one check or the daemon.
\<close>

definition proceed :: "platform \<Rightarrow> options \<Rightarrow> arm_error + guard \<Rightarrow> wait list \<Rightarrow> world \<Rightarrow> effects io" where
  "proceed p opts armed waits w =
    (if o_check opts then check_mode p opts armed w else daemon p opts armed waits w)"

definition guard_modes :: "platform \<Rightarrow> options \<Rightarrow> wait list \<Rightarrow> world \<Rightarrow> effects io" where
  "guard_modes p opts waits w = do {
     armed \<leftarrow> arm p opts w;
     (case armed of
        Inr g \<Rightarrow> proceed p opts armed waits w
      | Inl err \<Rightarrow> do {
          disabled \<leftarrow> present (o_disable_path opts) w;
          (if \<not> disabled then State_Monad.return (exits exit_config [] [] [(Error, CannotArm err)])
           else proceed p opts armed waits w)
        })
   }"

text \<open>The log is what the logger lets through, in its format, on standard error.\<close>

definition logged :: "platform \<Rightarrow> log_format \<Rightarrow> level \<Rightarrow> effects \<Rightarrow> effects" where
  "logged p fmt lvl eff =
    (let lines = emitted lvl (e_journal eff) in
     eff\<lparr>e_journal := lines, e_stderr := e_stderr eff @ log_text p fmt lines\<rparr>)"

lemma logged_simps [simp]:
  "e_exit (logged p fmt lvl eff) = e_exit eff" "e_stdout (logged p fmt lvl eff) = e_stdout eff"
  "e_sent (logged p fmt lvl eff) = e_sent eff" "e_passes (logged p fmt lvl eff) = e_passes eff"
  "e_journal (logged p fmt lvl eff) = emitted lvl (e_journal eff)"
  "e_stderr (logged p fmt lvl eff) = e_stderr eff @ log_text p fmt (emitted lvl (e_journal eff))"
  by (simp_all add: logged_def Let_def)

text \<open>What the parsed options ask for.\<close>

definition run_options :: "platform \<Rightarrow> options \<Rightarrow> wait list \<Rightarrow> world \<Rightarrow> effects io" where
  "run_options p opts waits w =
    (if o_show_version opts then
       State_Monad.return (exits exit_ok (''slurm-temperature-check '' @ p_version p @ [newline]) [] [])
     else (case new_logger (o_log_level opts) (o_log_format opts) of
         Inl err \<Rightarrow> State_Monad.return
           (exits exit_config [] (logger_error_text (p_printable p) err @ [newline]) [])
       | Inr (lvl, fmt) \<Rightarrow> do {
           eff \<leftarrow>
             (if o_interval opts \<le> 0 then
                State_Monad.return (exits exit_config [] [] [(Error, IntervalNotPositive (o_interval opts))])
              else if o_read_retries opts < 0 then
                State_Monad.return (exits exit_config [] [] [(Error, RetriesNegative (o_read_retries opts))])
              else if o_list opts then list_mode p opts w
              else guard_modes p opts waits w);
           State_Monad.return (logged p fmt lvl eff)
         }))"

definition run_main :: "platform \<Rightarrow> string list \<Rightarrow> wait list \<Rightarrow> world \<Rightarrow> effects io" where
  "run_main p args waits w = (case parse_args default_options args of
     Inl HelpRequested \<Rightarrow> State_Monad.return (exits exit_ok (usage (p_printable p)) [] [])
   | Inl err \<Rightarrow> State_Monad.return
       (exits exit_config [] (flag_error_text (p_printable p) err @ [newline] @ usage (p_printable p)) [])
   | Inr (opts, []) \<Rightarrow> run_options p opts waits w
   | Inr (opts, arg # _) \<Rightarrow> State_Monad.return
       (exits exit_config [] (''unexpected argument '' @ quote (p_printable p) arg @ [newline]) []))"

end
