(* ===== verification/Sample_Run.thy ===== *)
theory Sample_Run
  imports Command
begin

text \<open>
  The sample node with a command line and a platform around it, on which the properties of the
  whole program are shown to apply.
\<close>

definition sample_platform :: platform where
  "sample_platform =
    \<lparr>p_printable = (\<lambda>_. True), p_fold = (\<lambda>r. r), p_json_short = True, p_sort = insertion_sort, p_dial = (\<lambda>_. True),
     p_env = (\<lambda>v. if v = ''NOTIFY_SOCKET'' then ''/run/systemd/notify''
       else if v = ''WATCHDOG_USEC'' then ''30000000'' else []),
     p_pid = 4711, p_version = ''1.0''\<rparr>"

definition sample_args :: "string list" where
  "sample_args =
    [''--config'', config_path, ''-hwmon.path='' @ class_path, ''--board-name-path='' @ board_path,
     ''--disable-file='' @ disable_path, ''--override-file='' @ override_path, ''--interval=5s'']"

definition sample_options :: options where
  "sample_options = default_options\<lparr>o_config_path := config_path, o_hwmon_path := class_path,
     o_board_path := board_path, o_disable_path := disable_path, o_override_path := override_path,
     o_interval := 5 * second\<rparr>"

lemma parse_sample_args: "parse_args default_options sample_args = Inr (sample_options, [])"
  by code_simp

definition armed_sample :: guard where
  "armed_sample = new_guard sample_options ''H11DSi-NT'' sample_board sample_selected"

lemma arm_sample: "run_state (arm sample_platform sample_options heating) 0 = (Inr armed_sample, 14)"
proof -
  have d: "run_state (discover insertion_sort class_path heating) 0 = (Inr sample_sensors, 12)" by code_simp
  have l: "fs_open (heating 12) config_path = Inr (sample_conf, None)" by code_simp
  have b: "fs_read (heating 13) board_path = Inr (''H11DSi-NT'' @ [newline])" by code_simp
  have n: "trim_space (''H11DSi-NT'' @ [newline]) = ''H11DSi-NT''" by code_simp
  have "sample_sensors \<noteq> []" by (simp add: sample_sensors_def)
  then show ?thesis
    using select_sample(1) n
    by (simp add: arm_def sample_options_def sample_platform_def d load_def l parse_sample run_board_name b
        lookup_def armed_sample_def sample_board_def)
qed

abbreviation hot_node :: fs where
  "hot_node \<equiv> node ''45000'' ''86000'' []"

lemma arm_hot: "snap (arm sample_platform sample_options) hot_node = Inr armed_sample"
proof -
  have d: "run_state (discover insertion_sort class_path (\<lambda>_. hot_node)) 0 = (Inr sample_sensors, 12)" by code_simp
  have l: "fs_open hot_node config_path = Inr (sample_conf, None)" by code_simp
  have b: "fs_read hot_node board_path = Inr (''H11DSi-NT'' @ [newline])" by code_simp
  have n: "trim_space (''H11DSi-NT'' @ [newline]) = ''H11DSi-NT''" by code_simp
  have "sample_sensors \<noteq> []" by (simp add: sample_sensors_def)
  then show ?thesis
    using select_sample(1) n
    by (simp add: snap_def arm_def sample_options_def sample_platform_def d load_def l parse_sample run_board_name b
        lookup_def armed_sample_def sample_board_def)
qed

end
