(* ===== verification/Arming_Safety.thy ===== *)
theory Arming_Safety
  imports Arming Sample_Run
begin

text \<open>
  What a guard that was armed was made from, what arming does not depend on, and what is sent while
  a node that cannot be armed is held.
\<close>

text \<open>
  C6: a guard that arms watches this board. Whatever changes while it is armed, the board's name is
  the trimmed content of the DMI file; the table loaded has a complete section of that name, and the
  guard's limit is that section's, between 20 and 150 degrees Celsius; it watches at least one
  sensor, each of a chip of the node that the section names, and carrying the section's sensor
  reference if it has one; and it starts with nothing counted and nothing reported.
\<close>

theorem armed_guard_sound:
  assumes "run_state (arm p opts w) t = (Inr g, u)"
  shows "\<exists>sensors t1 tab t2 b entry ss.
      run_state (discover (p_sort p) (o_hwmon_path opts) w) t = (Inr sensors, t1)
    \<and> run_state (load (o_config_path opts) w) t1 = (Inr tab, t2)
    \<and> fs_read (w t2) (o_board_path opts) = Inr b \<and> g_board g = trim_space b
    \<and> (g_board g, entry) \<in> set tab \<and> b_name entry = g_board g \<and> g_board g \<noteq> []
    \<and> g_max g = b_max entry \<and> 20000 \<le> g_max g \<and> g_max g \<le> 150000
    \<and> g_sensors g = new_sensors ss \<and> ss \<noteq> [] \<and> subseq ss sensors
    \<and> (\<forall>s \<in> set ss. chip_matches (b_chip entry) s
        \<and> (b_sensor entry \<noteq> [] \<longrightarrow> sensor_matches (p_fold p) (b_sensor entry) s))
    \<and> g_failures g = 0 \<and> \<not> g_started g"
  using assms
proof (rule arm_Inr)
  fix sensors t1 tab t2 name entry selected
  assume d: "run_state (discover (p_sort p) (o_hwmon_path opts) w) t = (Inr sensors, t1)"
    and l: "run_state (load (o_config_path opts) w) t1 = (Inr tab, t2)"
    and b: "run_state (board_name (o_board_path opts) w) t2 = (Inr name, u)"
    and e: "lookup tab name = Inr entry"
    and s: "select (p_fold p) sensors (b_chip entry) (b_sensor entry) = Inr selected"
    and g: "g = new_guard opts name entry selected"
  obtain content where "fs_read (w t2) (o_board_path opts) = Inr content" "trim_space content = name"
    using b by (auto simp: run_board_name split: sum.splits if_splits)
  moreover have "(name, entry) \<in> set tab \<and> sound_board name entry"
  proof -
    obtain conf err where p: "parse_table conf err = Inr tab"
      using l by (auto simp: load_def results split: sum.splits prod.splits)
    have "map_of tab name = Some entry" using e by (simp add: lookup_def split: option.splits)
    then have "(name, entry) \<in> set tab" by (rule map_of_SomeD)
    then show ?thesis using parse_table_sound [OF p] by blast
  qed
  moreover have "selected \<noteq> [] \<and> subseq selected sensors
      \<and> (\<forall>x \<in> set selected. chip_matches (b_chip entry) x
        \<and> (b_sensor entry \<noteq> [] \<longrightarrow> sensor_matches (p_fold p) (b_sensor entry) x))"
    using select_Inr [OF s] s unfolding select_def Let_def by (auto split: if_splits)
  ultimately show ?thesis using d l g by (auto simp: new_guard_def sound_board_def)
qed

theorem armed_guard_sound_witness:
  "\<exists>ss sensors. g_sensors armed_sample = new_sensors ss \<and> ss \<noteq> [] \<and> subseq ss sensors
    \<and> run_state (discover insertion_sort class_path heating) 0 = (Inr sensors, 12)"
proof -
  have "snd (run_state (discover insertion_sort class_path heating) 0) = 12" by code_simp
  then show ?thesis
    using armed_guard_sound [OF arm_sample] by (auto simp: sample_platform_def sample_options_def)
qed

section \<open>What arming does not look at\<close>

text \<open>Two courses of the node that differ in what the files named \<open>..._input\<close> say, if at all.\<close>

definition same_but_readings :: "world \<Rightarrow> world \<Rightarrow> bool" where
  "same_but_readings w w' \<longleftrightarrow> (\<forall>t. fs_stat (w t) = fs_stat (w' t)
    \<and> fs_dir (w t) = fs_dir (w' t) \<and> fs_link (w t) = fs_link (w' t)
    \<and> (\<forall>path. \<not> has_suffix path ''_input'' \<longrightarrow>
        fs_read (w t) path = fs_read (w' t) path \<and> fs_open (w t) path = fs_open (w' t) path))"

lemma same_calls:
  assumes "same_but_readings w w'"
  shows "eval_symlinks path w = eval_symlinks path w'" "os_read_dir path w = os_read_dir path w'"
    "\<not> has_suffix path ''_input'' \<Longrightarrow> os_open_read path w = os_open_read path w'"
    "\<not> has_suffix path ''_input'' \<Longrightarrow> os_read_file path w = os_read_file path w'"
  using assms by (simp_all add: same_but_readings_def os_calls syscall_def)

lemma last_path_join:
  assumes "plain_name n"
  shows "last (path_join d n) = last n"
proof (cases "d = []")
  case True
  have "elements n = [n]" using elements_snoc [OF assms, of "[]"] assms
    by (simp add: elements_def plain_name_def split_on_single)
  moreover have "\<not> rooted n" using assms by (cases n) (auto simp: rooted_def plain_name_def)
  moreover have "n \<noteq> ''..''" "n \<noteq> []" using assms by (simp_all add: plain_name_def)
  ultimately show ?thesis using True by (simp add: path_join_def clean_def normal_def render_def)
next
  case False
  have ne: "join sep (cs @ [n]) \<noteq> []" for sep cs
    using assms by (induction cs rule: induct_list012) (auto simp: plain_name_def)
  have "last (join sep (cs @ [n])) = last n" for sep cs
  proof (induction cs rule: induct_list012)
    case (3 x y zs)
    then show ?case using ne [of sep "y # zs"] by (simp add: last_append)
  qed (use assms in \<open>simp_all add: plain_name_def\<close>)
  then show ?thesis
    using ne [of "''/''"] by (simp add: path_join_plain [OF assms False] render_def)
qed

lemma suffix_input_last: "has_suffix path ''_input'' \<Longrightarrow> last path = CHR ''t''"
  by (auto simp: has_suffix_def suffix_def)

lemma same_bus_suffix: "same_but_readings w w' \<Longrightarrow> bus_suffix path w = bus_suffix path w'"
  by (simp add: bus_suffix_def same_calls(1) [of w w'])

lemma same_device_walk: "same_but_readings w w' \<Longrightarrow> device_walk n path w = device_walk n path w'"
proof (induction n arbitrary: path)
  case (Suc n)
  show ?case
    by (simp only: device_walk.simps same_bus_suffix [OF Suc.prems] same_calls(1) [OF Suc.prems] Suc.IH [OF Suc.prems])
qed simp

lemma same_chip_name:
  assumes "same_but_readings w w'"
  shows "chip_name dir w = chip_name dir w'"
proof -
  have "plain_name ''name''" by (simp add: plain_name_def)
  then have "last (path_join dir ''name'') \<noteq> CHR ''t''" by (simp add: last_path_join)
  then have "\<not> has_suffix (path_join dir ''name'') ''_input''" using suffix_input_last by blast
  then have "os_read_file (path_join dir ''name'') w = os_read_file (path_join dir ''name'') w'"
    by (rule same_calls(4) [OF assms])
  then show ?thesis
    by (simp only: chip_name_def same_calls(1) [OF assms] same_device_walk [OF assms])
qed

lemma same_sensors_loop:
  assumes "same_but_readings w w'"
  shows "sensors_loop dir chip fs w = sensors_loop dir chip fs w'"
proof (induction fs)
  case (Cons f fs)
  have "os_read_file (path_join dir (''temp'' @ ds @ ''_label'')) w
      = os_read_file (path_join dir (''temp'' @ ds @ ''_label'')) w'" if "temp_attr f = Some ds" for ds
  proof -
    have "plain_name (''temp'' @ ds @ ''_label'')"
      using temp_attr_Some(3) [OF that] by (auto simp: plain_name_def is_digit_def byte_def)
    then have "last (path_join dir (''temp'' @ ds @ ''_label'')) \<noteq> CHR ''t''" by (simp add: last_path_join)
    then show ?thesis using same_calls(4) [OF assms] suffix_input_last by blast
  qed
  then show ?case using Cons by (simp split: option.split sum.split)
qed simp

lemma same_discover_loop:
  assumes "same_but_readings w w'"
  shows "discover_loop dir es w = discover_loop dir es w'"
proof (induction es)
  case (Cons e es)
  have "chip_sensors d chip w = chip_sensors d chip w'" for d chip
    by (simp only: chip_sensors_def same_calls(2) [OF assms] same_sensors_loop [OF assms])
  then show ?case by (simp only: discover_loop.simps same_chip_name [OF assms] Cons)
qed simp

text \<open>
  C21: arming takes no reading. Two courses of a node that differ only in the contents of the
  attributes that hold temperatures arm alike, with the same guard or the same error, at the same
  instant: sensors that cannot be read, or say anything at all, are no reason not to arm, and are
  left to the loop and its retries.
\<close>

theorem arming_takes_no_reading:
  assumes "same_but_readings w w'" "\<not> has_suffix (o_board_path opts) ''_input''"
    and "\<not> has_suffix (o_config_path opts) ''_input''"
  shows "run_state (arm p opts w) t = run_state (arm p opts w') t"
proof -
  have "discover (p_sort p) (o_hwmon_path opts) w = discover (p_sort p) (o_hwmon_path opts) w'"
    by (simp only: discover_def same_calls(2) [OF assms(1)] same_discover_loop [OF assms(1)])
  moreover have "load (o_config_path opts) w = load (o_config_path opts) w'"
    by (simp only: load_def same_calls(3) [OF assms(1,3)])
  moreover have "board_name (o_board_path opts) w = board_name (o_board_path opts) w'"
    by (simp only: board_name_def same_calls(4) [OF assms(1,2)])
  ultimately show ?thesis by (simp only: arm_def)
qed

lemma node_same_but_readings:
  assumes "\<not> has_suffix path ''_input''"
  shows "fs_read (node a b []) path = fs_read (node c d []) path"
    "fs_open (node a b []) path = fs_open (node c d []) path"
proof -
  have "has_suffix ''/sys/class/hwmon/hwmon0/temp1_input'' ''_input''"
    "has_suffix ''/sys/class/hwmon/hwmon1/temp1_input'' ''_input''" by (code_simp, code_simp)
  then have "path \<noteq> ''/sys/class/hwmon/hwmon0/temp1_input''" "path \<noteq> ''/sys/class/hwmon/hwmon1/temp1_input''"
    using assms by blast+
  then show "fs_read (node a b []) path = fs_read (node c d []) path"
    "fs_open (node a b []) path = fs_open (node c d []) path"
    by (simp_all add: node_def table_fs_def table_lookup_def node_files_def)
qed

theorem arming_takes_no_reading_witness:
  "run_state (arm sample_platform sample_options (\<lambda>_. node ''n/a'' [] [])) 0 = (Inr armed_sample, 14)"
proof -
  have st: "fs_stat (node a b []) = fs_stat (node c d [])" "fs_dir (node a b []) = fs_dir (node c d [])"
    "fs_link (node a b []) = fs_link (node c d [])" for a b c d
    by (simp_all add: node_def table_fs_def node_files_def)
  have "same_but_readings heating (\<lambda>_. node ''n/a'' [] [])"
    unfolding same_but_readings_def
  proof
    fix t :: nat
    define a b where "a = ''45000''" and "b = (if t < 20 then ''46500'' else ''86000'')"
    have "heating t = node a b []" by (simp add: heating_def a_def b_def)
    then show "fs_stat (heating t) = fs_stat (node ''n/a'' [] [])
        \<and> fs_dir (heating t) = fs_dir (node ''n/a'' [] []) \<and> fs_link (heating t) = fs_link (node ''n/a'' [] [])
        \<and> (\<forall>path. \<not> has_suffix path ''_input'' \<longrightarrow>
          fs_read (heating t) path = fs_read (node ''n/a'' [] []) path
          \<and> fs_open (heating t) path = fs_open (node ''n/a'' [] []) path)"
      using st [of a b "''n/a''" "[]"] node_same_but_readings [where a = a and b = b and c = "''n/a''" and d = "[]"] by simp
  qed
  moreover have "\<not> has_suffix (o_board_path sample_options) ''_input''"
    "\<not> has_suffix (o_config_path sample_options) ''_input''" by (code_simp, code_simp)
  ultimately show ?thesis using arming_takes_no_reading [of heating] arm_sample by simp
qed

section \<open>Holding\<close>

text \<open>
  C22: a held node stays alive and is armed once it can be. The keep-alive's period is positive and at
  most the interval and, where a watchdog is set, at most half its timeout. As long as the disable file
  is there, each period takes one look at it and sends one keep-alive, and nothing else happens; a
  signal ends the hold with the reason it was given, after the keep-alives due before it. At the first
  period at which the file is gone the keep-alive is still sent and the guard is armed right then: the
  hold ends with that guard, or with what arming failed with now.
\<close>

theorem held_node_kept_alive:
  assumes held: "\<forall>i < k. \<not> absent (o_disable_path opts) w (t + i)" and pos: "0 < o_interval opts"
  shows "0 < hold_period p (o_interval opts) \<and> hold_period p (o_interval opts) \<le> o_interval opts
    \<and> (0 < watchdog_interval (p_env p) (p_pid p) \<longrightarrow>
        hold_period p (o_interval opts) \<le> watchdog_interval (p_env p) (p_pid p))
    \<and> run_state (hold_loop p opts n why (replicate k Tick) w) t
        = ((Holding, concat (replicate k (notify_alive n)), []), t + k)
    \<and> run_state (hold_loop p opts n why (replicate k Tick @ Cancel # rest) w) t
        = ((HeldStopped why, concat (replicate k (notify_alive n)), rest), t + k)
    \<and> (absent (o_disable_path opts) w (t + k) \<longrightarrow>
        (let now = (if o_disable_path opts = [] then t + k else t + k + 1);
             (r, u) = run_state (arm p opts w) now in
         run_state (hold_loop p opts n why (replicate (k + 1) Tick @ rest) w) t
           = ((case r of Inl err \<Rightarrow> HeldFailed err | Inr g \<Rightarrow> Rearmed g,
               concat (replicate (k + 1) (notify_alive n)), rest), u)))"
proof (intro conjI impI)
  have held_step: "run_state (hold_loop p opts n why (replicate k Tick @ ws) w) t
      = (case run_state (hold_loop p opts n why ws w) (t + k) of
          ((out, sent, left), u) \<Rightarrow> ((out, concat (replicate k (notify_alive n)) @ sent, left), u))" for ws
    using held
  proof (induction k arbitrary: t)
    case (Suc k)
    have now: "\<not> absent (o_disable_path opts) w t" using Suc.prems by (metis Nat.add_0_right zero_less_Suc)
    have "\<not> absent (o_disable_path opts) w (Suc t + i)" if "i < k" for i
      using Suc.prems that by (metis Suc_less_eq add_Suc_shift)
    then show ?case using Suc.IH [of "Suc t"] now
      by (simp add: run_present_absent absent_def split: prod.splits)
  qed (simp split: prod.splits)
  show "run_state (hold_loop p opts n why (replicate k Tick) w) t
      = ((Holding, concat (replicate k (notify_alive n)), []), t + k)"
    using held_step [of "[]"] by simp
  show "run_state (hold_loop p opts n why (replicate k Tick @ Cancel # rest) w) t
      = ((HeldStopped why, concat (replicate k (notify_alive n)), rest), t + k)"
    using held_step [of "Cancel # rest"] by simp
  show "let now = (if o_disable_path opts = [] then t + k else t + k + 1);
          (r, u) = run_state (arm p opts w) now in
        run_state (hold_loop p opts n why (replicate (k + 1) Tick @ rest) w) t
          = ((case r of Inl err \<Rightarrow> HeldFailed err | Inr g \<Rightarrow> Rearmed g,
              concat (replicate (k + 1) (notify_alive n)), rest), u)"
    if gone: "absent (o_disable_path opts) w (t + k)"
  proof -
    have ticks: "replicate (k + 1) Tick @ rest = replicate k Tick @ Tick # rest"
      by (simp add: replicate_app_Cons_same)
    have sent: "concat (replicate (k + 1) (notify_alive n)) = concat (replicate k (notify_alive n)) @ notify_alive n"
      by (metis Suc_eq_plus1 append_Nil2 concat.simps concat_append replicate_Suc replicate_append_same)
    show ?thesis unfolding ticks sent held_step
      using gone by (simp add: run_present_absent Let_def split: prod.split sum.split)
  qed
qed (use hold_period_bounds [OF pos] in blast)+

text \<open>Suspended for one period on a node that could not be armed, and armed at the next.\<close>

definition resumed :: world where
  "resumed t = (if t = 0 then node ''45000'' ''86000'' [(disable_path, [])] else hot_node)"

theorem held_node_kept_alive_witness:
  "\<exists>u. run_state (hold_loop sample_platform sample_options (Some ''s'') (NoTemperatures []) [Tick, Tick] resumed) 0
    = ((Rearmed armed_sample, concat (replicate 2 (notify_alive (Some ''s''))), []), u)"
proof -
  have d: "o_disable_path sample_options = disable_path" "disable_path \<noteq> []" "0 < o_interval sample_options"
    by (simp_all add: sample_options_def second_def disable_path_def)
  have s: "fs_stat (node ''45000'' ''86000'' [(disable_path, [])]) disable_path" "\<not> fs_stat hot_node disable_path"
    by (code_simp, code_simp)
  have held: "\<forall>i < 1. \<not> absent (o_disable_path sample_options) resumed (0 + i)"
    and gone: "absent (o_disable_path sample_options) resumed (0 + 1)"
    using d s by (simp_all add: absent_def resumed_def)
  have "steady resumed hot_node 2" by (simp add: steady_def resumed_def)
  then obtain u where a: "run_state (arm sample_platform sample_options resumed) 2 = (Inr armed_sample, u)"
    using arm_op.steady_run [of resumed hot_node 2 sample_platform sample_options] arm_hot by auto
  have two: "replicate (1 + 1) Tick @ [] = [Tick, Tick]" "(1::nat) + 1 = 2" by (simp_all add: numeral_2_eq_2)
  from held_node_kept_alive [OF held d(3), of sample_platform "Some ''s''" "NoTemperatures []" "[]"] gone a d
  show ?thesis unfolding two by (auto simp: Let_def numeral_2_eq_2)
qed

end
