(* ===== verification/Guard_Safety.thy ===== *)
theory Guard_Safety
  imports Guard
begin

text \<open>
  What the guard guarantees: which verdict a pass gives, when a run trips, what stops it, and
  what the journal shows of it.
\<close>

section \<open>Verdicts\<close>

text \<open>
  C15: a pass that lets the node run on its temperature has seen one that is low enough. Whatever
  changes while the pass runs, the verdict \<open>ok\<close> means: the disable file was absent, and either
  the override file was present and held a temperature of at least absolute zero, or it was
  absent and every sensor was read during the pass, from the chip it was resolved against; and
  the reading, in the second case the hottest of them all, is at most the limit.
\<close>

theorem ok_means_cool:
  assumes run: "run_state (check g w) t = ((g', res), u)" and ok: "r_verdict res = Ok"
    and src: "g_sensors g = new_sensors ss"
  shows "absent (g_disable_path g) w t \<and> r_has_reading res \<and> r_reading res \<le> g_max g \<and>
    ((\<exists>t' b. \<not> absent (g_override_path g) w t' \<and> fs_read (w (Suc t')) (g_override_path g) = Inr b
        \<and> file_temperature (g_override_path g) (trim_space b) = Inr (r_reading res)
        \<and> - 273150 \<le> r_reading res) \<or>
     (\<exists>t' vs. absent (g_override_path g) w t' \<and> ss \<noteq> [] \<and> list_all2 (read_during w t u) ss vs
        \<and> r_reading res = Max (set vs) \<and> (\<forall>v \<in> set vs. v \<le> g_max g)))"
  using run
proof (cases rule: check_cases)
  case disabled
  then show ?thesis using ok by simp
next
  case (override t1 r)
  then obtain v where r: "r = Inr v" "v \<le> g_max g" "r_has_reading res" "r_reading res = v"
    using ok by (auto simp: judge_def Let_def split: sum.splits if_splits)
  then obtain b where b: "fs_read (w (Suc t1)) (g_override_path g) = Inr b"
    "file_temperature (g_override_path g) (trim_space b) = Inr v"
    using override(4) by (auto simp: run_file_read split: sum.splits)
  then show ?thesis using override(1,3) r file_temperature_bounds by blast
next
  case (sensors t1 t2 r)
  then obtain v where r: "r = Inr v" "v \<le> g_max g" "r_has_reading res" "r_reading res = v"
    using ok by (auto simp: judge_def Let_def split: sum.splits if_splits)
  then have "run_state (sensors_read ss w) t2 = (Inr v, u)"
    using sensors(5) by (simp add: src new_sensors_def)
  then obtain vs where vs: "ss \<noteq> []" "list_all2 (read_during w t2 u) ss vs" "v = Max (set vs)"
    using sensors_read_Inr by blast
  have "list_all2 (read_during w t u) ss vs"
    by (rule list.rel_mono_strong [OF vs(2)]) (erule read_during_widen, use sensors(2,4) in simp_all)
  moreover have "\<forall>x \<in> set vs. x \<le> g_max g"
    using r(2) unfolding vs(3) by (metis List.finite_set Max_ge order_trans)
  ultimately show ?thesis using sensors(1,3) r vs(1,3) by blast
qed

theorem ok_means_cool_witness:
  "\<exists>t' vs. list_all2 (read_during heating 0 10) [sample_sensors ! 0, sample_sensors ! 2] vs
    \<and> (\<forall>v \<in> set vs. v \<le> 85000) \<and> absent override_path heating t'"
proof -
  obtain g' res u where r: "run_state (check sample_guard heating) 0 = ((g', res), u)"
    by (metis prod.collapse)
  have "r_verdict (snd (fst (run_state (check sample_guard heating) 0))) = Ok"
    "snd (run_state (check sample_guard heating) 0) = 10" by (code_simp, code_simp)
  then have ok: "r_verdict res = Ok" and u: "u = 10" unfolding r by simp_all
  have no: "absent override_path heating t'" for t'
    by (simp add: absent_def heating_def node_def table_fs_def node_files_def override_path_def
        board_path_def config_path_def)
  from ok_means_cool [OF r ok, of "[sample_sensors ! 0, sample_sensors ! 2]"] no show ?thesis
    unfolding u by (auto simp: sample_guard_def)
qed

text \<open>
  Heat is never missed. On a node that does not change during the pass, without a disable
  file and without an override, if every sensor can be read, the verdict is \<open>trip\<close> exactly if
  some sensor is above the limit, whatever the order of the sensors, and \<open>ok\<close> otherwise.
\<close>

theorem heat_trips:
  assumes st: "steady w st t" and src: "g_sensors g = new_sensors ss" "ss \<noteq> []"
    and files: "\<not> fs_stat st (g_disable_path g)" "\<not> fs_stat st (g_override_path g)"
    and readable: "\<forall>s \<in> set ss. snap (sensor_read s) st = Inr (f s)"
  shows "r_verdict (snd (fst (run_state (check g w) t)))
    = (if \<exists>s \<in> set ss. f s > g_max g then Trip else Ok)"
proof -
  define t1 where "t1 = (if g_disable_path g = [] then t else Suc t)"
  define t2 where "t2 = (if g_override_path g = [] then t1 else Suc t1)"
  have le: "t \<le> t1" "t \<le> t2" by (simp_all add: t1_def t2_def)
  have a: "absent (g_disable_path g) w t" "absent (g_override_path g) w t1"
    using files steady_now [OF st] steady_now [OF steady_later [OF st le(1)]] by (simp_all add: absent_def)
  obtain u where r: "run_state (src_read (g_sensors g) w) t2 = (Inr (Max (f ` set ss)), u)"
    using os_op.steady_run [OF hwmon_source.read_op steady_later [OF st le(2)], of ss]
      snap_sensors_read [OF readable src(2)] unfolding src(1) by (metis new_sensors_def source.select_convs(2))
  have "Max (f ` set ss) > g_max g \<longleftrightarrow> (\<exists>s \<in> set ss. f s > g_max g)"
    using src(2) by (subst Max_gr_iff) auto
  then show ?thesis
    using a r unfolding run_check t1_def t2_def Let_def by (simp add: judge_def Let_def)
qed

theorem heat_trips_witness:
  "r_verdict (snd (fst (run_state (check sample_guard (\<lambda>_. node ''45000'' ''86000'' [])) 3))) = Trip"
proof -
  let ?st = "node ''45000'' ''86000'' []"
  have "snap (sensor_read (sample_sensors ! 0)) ?st = Inr 45000"
    "snap (sensor_read (sample_sensors ! 2)) ?st = Inr 86000" by (code_simp, code_simp)
  moreover have "sample_sensors ! 0 \<noteq> sample_sensors ! 2" by (simp add: sample_sensors_def)
  ultimately have r: "\<forall>s \<in> set [sample_sensors ! 0, sample_sensors ! 2]. snap (sensor_read s) ?st
      = Inr (if s = sample_sensors ! 0 then 45000 else 86000)" by simp
  have f: "\<not> fs_stat ?st disable_path" "\<not> fs_stat ?st override_path" by (code_simp, code_simp)
  show ?thesis
    using heat_trips [OF steady_const, of sample_guard "[sample_sensors ! 0, sample_sensors ! 2]" ?st
        "\<lambda>s. if s = sample_sensors ! 0 then 45000 else 86000" 3] r f
      \<open>sample_sensors ! 0 \<noteq> sample_sensors ! 2\<close>
    by (simp add: sample_guard_def)
qed

text \<open>
  The disable file outranks everything. While it can be stated, a pass is that one system
  call: no reading is taken, the verdict is \<open>disabled\<close> and the count of failed readings starts
  over; and if it cannot be stated, for whatever reason, the verdict is another.
\<close>

theorem disable_file_outranks:
  "(\<not> absent (g_disable_path g) w t \<longrightarrow>
      run_state (check g w) t = ((g\<lparr>g_failures := 0\<rparr>,
        \<lparr>r_verdict = Disabled, r_reading = 0, r_has_reading = False,
         r_source = g_disable_path g, r_err = None\<rparr>), Suc t)) \<and>
   (absent (g_disable_path g) w t \<longrightarrow> r_verdict (snd (fst (run_state (check g w) t))) \<noteq> Disabled)"
proof -
  have "r_verdict (snd (judge g name r)) \<noteq> Disabled" for name r
    by (simp add: judge_def Let_def split: sum.split)
  then show ?thesis
    by (auto simp: run_check Let_def absent_def split: prod.split)
qed

theorem disable_file_outranks_witness:
  "r_verdict (snd (fst (run_state (check sample_guard (\<lambda>_. node ''n/a'' ''99000'' [(disable_path, [])])) 0))) = Disabled"
proof -
  have "\<not> absent disable_path (\<lambda>_. node ''n/a'' ''99000'' [(disable_path, [])]) 0"
    by (simp add: absent_def node_def table_fs_def disable_path_def)
  then show ?thesis
    using disable_file_outranks [of sample_guard "\<lambda>_. node ''n/a'' ''99000'' [(disable_path, [])]" 0]
    by (simp add: sample_guard_def)
qed

text \<open>What \<open>ParseFloat\<close> makes of a decimal with three places, of any size.\<close>

lemma parse_float_decimal:
  "parse_float (show_signed m) = (case to_f64 (of_int m / 1000) of Inf _ \<Rightarrow> Inl Range | f \<Rightarrow> Inr f)"
proof -
  let ?u = "show_milli (nat \<bar>m\<bar>)"
  obtain mt where mt: "mant_loop 10 mant0 ?u = (mt, [])" "mt_digits mt = nat \<bar>m\<bar>"
    "mt_frac mt = 3" "mt_seen mt" "\<not> mt_us mt" using mant_loop_show_milli by blast
  have sp: "special_float (show_signed m) = None"
    by (rule special_float_digit) (simp_all add: show_signed_parts hd_show_milli)
  have hex: "\<not> is_hex ?u"
  proof
    assume "is_hex ?u"
    then have "?u ! 1 \<in> set ?u" "lower_byte (?u ! 1) = 120" by (simp_all add: is_hex_def)
    then show False using lower_byte_plain [OF show_milli_chars] by fastforce
  qed
  have "float_value 10 mt 0 = of_int \<bar>m\<bar> / 1000"
    by (simp add: float_value_def mt power_int_def power_one_over)
  then have val: "(if m < 0 then - float_value 10 mt 0 else float_value 10 mt 0) = of_int m / 1000"
    by simp
  have "read_exp 10 [] = Some ((0, False), [])" by (simp add: read_exp_def)
  then have "read_number 10 ?u (show_signed m) = (case to_f64 (of_int m / 1000) of Inf _ \<Rightarrow> Inl Range | f \<Rightarrow> Inr f)"
    using mt unfolding read_number_def Let_def
    by (simp add: show_signed_parts(3) val split del: if_split)
  then show ?thesis using hex sp by (simp add: parse_float_def show_signed_parts)
qed

text \<open>The first decimals out of range stay out of it as \<open>float64\<close>, and so do all beyond them.\<close>

definition is_fin :: "f64 \<Rightarrow> bool" where
  "is_fin a = (case a of Fin _ \<Rightarrow> True | _ \<Rightarrow> False)"

lemma first_beyond:
  "f_less (to_f64 (- 273151 / 1000)) (to_f64 min_reading_celsius)"
  "f_less (to_f64 max_reading_celsius) (to_f64 (10000001 / 1000))"
  "is_fin (to_f64 (- 273151 / 1000))" "is_fin (to_f64 (10000001 / 1000))"
  by (code_simp, code_simp, code_simp, code_simp)

lemma beyond_bounds:
  assumes v: "to_f64 (of_int m / 1000) = Fin v" and m: "m < - 273150 \<or> 10000000 < m"
  shows "f_less (Fin v) (to_f64 min_reading_celsius) \<or> f_less (to_f64 max_reading_celsius) (Fin v)"
  using m
proof
  assume "m < - 273150"
  then have "of_int m \<le> (of_int (- 273151) :: rat)" by (simp only: of_int_le_iff)
  then have le: "of_int m / 1000 \<le> (- 273151 / 1000 :: rat)" by simp
  obtain l where l: "to_f64 (- 273151 / 1000) = Fin l" using first_beyond(3) by (auto simp: is_fin_def split: f64.splits)
  obtain b where b: "to_f64 min_reading_celsius = Fin b" by (rule min_reading)
  have "l < b" using first_beyond(1) unfolding l b by (simp add: f_less_def)
  moreover have "v \<le> l" by (rule to_f64_mono [OF v l le])
  ultimately show ?thesis unfolding b by (simp add: f_less_def)
next
  assume "10000000 < m"
  then have "(of_int 10000001 :: rat) \<le> of_int m" by (simp only: of_int_le_iff)
  then have le: "(10000001 / 1000 :: rat) \<le> of_int m / 1000" by simp
  obtain h where h: "to_f64 (10000001 / 1000) = Fin h" using first_beyond(4) by (auto simp: is_fin_def split: f64.splits)
  have "10000 < h" using first_beyond(2) unfolding h max_reading by (simp add: f_less_def)
  moreover have "h \<le> v" by (rule to_f64_mono [OF h v le])
  ultimately show ?thesis unfolding max_reading by (simp add: f_less_def)
qed

lemma file_temperature_beyond:
  assumes "m < - 273150 \<or> 10000000 < m"
  shows "file_temperature path (show_signed m) = Inl (NotTemperature path (show_signed m))"
proof (cases "to_f64 (of_int m / 1000)")
  case (Fin v)
  then show ?thesis using beyond_bounds [OF Fin assms] by (auto simp: file_temperature_def parse_float_decimal)
qed (simp_all add: file_temperature_def parse_float_decimal)

text \<open>
  C19: the override file. A temperature written with three decimals is taken as exactly that if it
  lies between absolute zero and ten thousand degrees, and is rejected if it does not, however many
  digits it has, numbers beyond \<open>int64\<close> and \<open>float64\<close> included; \<open>nan\<close> and the infinities are
  rejected in every spelling, letter case and sign. Of whatever else is written to it, a text is
  accepted exactly if it reads as a finite number within the bounds, and the temperature then is
  within them, so that no text becomes a safe temperature by wrapping around.
\<close>

theorem override_bounds:
  "(file_temperature path s = Inr v \<longrightarrow> - 273150 \<le> v \<and> v \<le> 10000000) \<and>
   file_temperature path (show_signed m)
     = (if - 273150 \<le> m \<and> m \<le> 10000000 then Inr m else Inl (NotTemperature path (show_signed m))) \<and>
   (map lower_byte s = map byte ''nan'' \<or> map lower_byte (drop_sign s) \<in> {map byte ''inf'', map byte ''infinity''}
     \<longrightarrow> file_temperature path s = Inl (NotTemperature path s)) \<and>
   (parse_float s \<in> range Inl \<longrightarrow> file_temperature path s = Inl (NotTemperature path s)) \<and>
   (\<forall>x. parse_float s = Inr (Fin x) \<longrightarrow>
     (file_temperature path s \<in> range Inr \<longleftrightarrow> (\<exists>b. to_f64 (- 27315 / 100) = Fin b \<and> b \<le> x \<and> x \<le> 10000)))"
proof (intro conjI allI impI)
  show "file_temperature path (show_signed m)
     = (if - 273150 \<le> m \<and> m \<le> 10000000 then Inr m else Inl (NotTemperature path (show_signed m)))"
    using file_temperature_exact [of m path] file_temperature_beyond [of m path] by auto
  show "file_temperature path s = Inl (NotTemperature path s)"
    if "map lower_byte s = map byte ''nan'' \<or> map lower_byte (drop_sign s) \<in> {map byte ''inf'', map byte ''infinity''}"
  proof -
    have "special_float s \<noteq> None" "\<forall>x. special_float s \<noteq> Some (Fin x)"
      using that by (auto simp: special_float_def Let_def)
    then show ?thesis by (auto simp: file_temperature_def parse_float_def is_inf_def split: option.splits f64.splits)
  qed
  show "file_temperature path s \<in> range Inr \<longleftrightarrow> (\<exists>b. to_f64 (- 27315 / 100) = Fin b \<and> b \<le> x \<and> x \<le> 10000)"
    if "parse_float s = Inr (Fin x)" for x
  proof -
    obtain b where b: "to_f64 min_reading_celsius = Fin b" by (rule min_reading)
    then have "to_f64 (- 27315 / 100) = Fin b" by (simp add: min_reading_celsius_def)
    then show ?thesis using that by (auto simp: file_temperature_def is_inf_def f_less_def b max_reading)
  qed
qed (use file_temperature_bounds in \<open>auto simp: file_temperature_def\<close>)

theorem override_bounds_witness:
  "file_temperature ''/run/o'' ''-273.150'' = Inr (- 273150)
    \<and> file_temperature ''/run/o'' ''NaN'' = Inl (NotTemperature ''/run/o'' ''NaN'')
    \<and> file_temperature ''/run/o'' ''-Infinity'' = Inl (NotTemperature ''/run/o'' ''-Infinity'')
    \<and> file_temperature ''/run/o'' ''10000.001'' = Inl (NotTemperature ''/run/o'' ''10000.001'')
    \<and> file_temperature ''/run/o'' (show_signed (10 ^ 22)) = Inl (NotTemperature ''/run/o'' (show_signed (10 ^ 22)))"
proof -
  have t: "show_signed (- 273150) = ''-273.150''" "show_signed 10000001 = ''10000.001''" by (code_simp, code_simp)
  have n: "map lower_byte ''NaN'' = map byte ''nan''" "map lower_byte (drop_sign ''-Infinity'') = map byte ''infinity''"
    by (code_simp, code_simp)
  show ?thesis
    using override_bounds [of "''/run/o''" "''NaN''" 0 "- 273150"]
      override_bounds [of "''/run/o''" "''-Infinity''" 0 10000001]
      override_bounds [of "''/run/o''" "[]" 0 "10 ^ 22"] t n by simp
qed

section \<open>Runs\<close>

text \<open>
  C17: the loop implements the specification by history. In every run of a fresh guard, whatever
  the node does, each pass gives the verdict that follows from what the passes so far saw: the
  code's counter of failures, its resets and its comparison with the budget amount to looking at
  the unbroken row of failed readings before the pass.
\<close>

theorem run_refines_history:
  assumes "run_state (run_guard g waits w) t = ((out, logs, ps, g'), u)" "fresh g" "k < length ps"
  shows "r_verdict (fst (ps ! k))
    = spec_verdict (g_read_retries g) (g_max g) (take k (observations ps)) (observations ps ! k)"
  using guard_run_verdicts run_guard_run [OF assms(1)] assms(2,3) by blast

theorem run_refines_history_witness:
  "\<exists>ps. length ps = 3 \<and> r_verdict (fst (ps ! 2)) = Trip
    \<and> spec_verdict 2 85000 (take 2 (observations ps)) (observations ps ! 2) = Trip"
proof -
  obtain out logs ps g' u
    where r: "run_state (run_guard sample_guard [Tick, Tick, Tick] broken) 0 = ((out, logs, ps, g'), u)"
    by (metis prod.collapse)
  have v: "map (\<lambda>p. r_verdict (fst p)) ps = [Tolerated, Tolerated, Trip]"
    using sample_runs(2) unfolding r verdicts_of_def by simp
  have l: "length ps = 3" using arg_cong [OF v, of length] by simp
  then have "r_verdict (fst (ps ! 2)) = Trip" using arg_cong [OF v, of "\<lambda>xs. xs ! 2"] by simp
  then show ?thesis
    using run_refines_history [OF r fresh_sample, of 2] l by (intro exI [of _ ps]) (simp add: sample_guard_def)
qed

text \<open>
  C16: when a run trips. A pass trips exactly if it took a reading above the limit, or if its
  reading failed and so did those of the passes before it, one more in a row than the retries
  allow; not one pass earlier, and not one later.
\<close>

theorem trips_exactly:
  assumes "run_state (run_guard g waits w) t = ((out, logs, ps, g'), u)" "fresh g" "k < length ps"
  shows "r_verdict (fst (ps ! k)) = Trip \<longleftrightarrow>
    (\<exists>v. observations ps ! k = Reading v \<and> g_max g < v) \<or>
    (nat (g_read_retries g) \<le> k
      \<and> (\<forall>j. k - nat (g_read_retries g) \<le> j \<and> j \<le> k \<longrightarrow> observations ps ! j = Failure))"
proof -
  let ?obs = "observations ps" and ?n = "nat (g_read_retries g)"
  have n: "int ?n = g_read_retries g" using assms(2) by (simp add: fresh_def)
  have "int (trailing_failures (take k ?obs)) < g_read_retries g \<longleftrightarrow> \<not> ?n \<le> trailing_failures (take k ?obs)"
    using n by linarith
  also have "\<dots> \<longleftrightarrow> \<not> (?n \<le> k \<and> (\<forall>j. k - ?n \<le> j \<and> j < k \<longrightarrow> ?obs ! j = Failure))"
    using assms(3) by (simp add: trailing_failures_ge min_def)
  finally have "?obs ! k = Failure \<Longrightarrow> r_verdict (fst (ps ! k)) = Trip \<longleftrightarrow>
      ?n \<le> k \<and> (\<forall>j. k - ?n \<le> j \<and> j \<le> k \<longrightarrow> ?obs ! j = Failure)"
    using guard_run_verdicts [OF conjunct1 [OF run_guard_run [OF assms(1)]] assms(2,3)]
    by (auto simp: spec_verdict_def le_less)
  moreover have "?obs ! k \<noteq> Failure \<Longrightarrow> r_verdict (fst (ps ! k)) = Trip \<longleftrightarrow>
      (\<exists>v. ?obs ! k = Reading v \<and> g_max g < v)"
    using guard_run_verdicts [OF conjunct1 [OF run_guard_run [OF assms(1)]] assms(2,3)]
    by (cases "?obs ! k") (auto simp: spec_verdict_def)
  ultimately show ?thesis by fastforce
qed

theorem trips_exactly_witness:
  "\<exists>ps. length ps = 3 \<and> (\<forall>j \<le> 2. observations ps ! j = Failure)"
proof -
  obtain out logs ps g' u
    where r: "run_state (run_guard sample_guard [Tick, Tick, Tick] broken) 0 = ((out, logs, ps, g'), u)"
    by (metis prod.collapse)
  have v: "map (\<lambda>p. r_verdict (fst p)) ps = [Tolerated, Tolerated, Trip]"
    using sample_runs(2) unfolding r verdicts_of_def by simp
  have l: "length ps = 3" using arg_cong [OF v, of length] by simp
  have trip: "r_verdict (fst (ps ! j)) = [Tolerated, Tolerated, Trip] ! j" if "j < 3" for j
    using arg_cong [OF v, of "\<lambda>xs. xs ! j"] l that by simp
  have "\<not> (\<exists>v. observations ps ! 2 = Reading v \<and> 85000 < v)"
  proof -
    have "r_has_reading (fst (last (fst (snd (snd (fst (run_state (run_guard sample_guard [Tick, Tick, Tick] broken) 0))))))) = False"
      by code_simp
    then have "\<not> r_has_reading (fst (ps ! 2))" unfolding r using l by (cases ps rule: rev_cases) (auto simp: nth_append)
    then show ?thesis using l by (simp add: observations_def obs_of_def)
  qed
  then show ?thesis
    using trips_exactly [OF r fresh_sample, of 2] l trip [of 2] by (intro exI [of _ ps]) (auto simp: sample_guard_def)
qed

text \<open>
  C18: how the loop ends. It returns cleanly only if it was asked to, at a wait, after a pass that
  did not trip; it returns the trip of its last pass, the only pass that tripped; and a run that
  is asked to stop does not go on.
\<close>

theorem run_ends:
  assumes "run_state (run_guard g waits w) t = ((out, logs, ps, g'), u)"
  shows "ps \<noteq> [] \<and> length ps \<le> length waits + 1
    \<and> (\<forall>k < length ps - 1. waits ! k = Tick \<and> r_verdict (fst (ps ! k)) \<noteq> Trip)
    \<and> (out = Stopped \<longleftrightarrow> r_verdict (fst (last ps)) \<noteq> Trip \<and> length ps \<le> length waits)
    \<and> (out = Stopped \<longrightarrow> waits ! (length ps - 1) = Cancel)
    \<and> (out = GuardTripped (r_err (fst (last ps))) \<longleftrightarrow> r_verdict (fst (last ps)) = Trip)
    \<and> (Cancel \<in> set waits \<longrightarrow> out \<noteq> Running)"
proof -
  have run: "guard_run w g t ps g' u" and o: "outcome_ok waits out ps"
    using run_guard_run [OF assms] by blast+
  have trip: "\<forall>k < length ps - 1. r_verdict (fst (ps ! k)) \<noteq> Trip"
    using guard_run_trips_last [OF run] by blast
  have ne: "ps \<noteq> []" and tk: "take (length ps - 1) waits = replicate (length ps - 1) Tick"
    using o by (simp_all add: outcome_ok_def)
  then have l: "length ps \<le> length waits + 1" by (metis length_replicate length_take le_diff_conv min.absorb_iff2 min.commute)
  have ticks: "\<forall>k < length ps - 1. waits ! k = Tick"
    using tk by (metis nth_replicate nth_take)
  have "Cancel \<in> set waits \<Longrightarrow> out \<noteq> Running"
  proof
    assume c: "Cancel \<in> set waits" and "out = Running"
    then have "length ps - 1 = length waits" using o by (simp add: outcome_ok_def)
    then show False using tk c by (metis in_set_replicate take_all_iff order_refl wait.distinct(1))
  qed
  then show ?thesis
    using ne l ticks trip o by (cases out) (auto simp: outcome_ok_def)
qed

theorem run_ends_witness:
  "\<exists>out logs ps g' u. run_state (run_guard sample_guard [Tick, Cancel] heating) 0 = ((out, logs, ps, g'), u)
    \<and> out = Stopped"
proof -
  obtain out logs ps g' u
    where r: "run_state (run_guard sample_guard [Tick, Cancel] heating) 0 = ((out, logs, ps, g'), u)"
    by (metis prod.collapse)
  have v: "map (\<lambda>p. r_verdict (fst p)) ps = [Ok, Ok]"
    using sample_runs(3) unfolding r verdicts_of_def by simp
  have l: "length ps = 2" using arg_cong [OF v, of length] by simp
  then have "ps \<noteq> []" by auto
  then have "r_verdict (fst (last ps)) = Ok"
    using arg_cong [OF v, of last] by (simp add: last_map)
  then have "out = Stopped" using run_ends [OF r] l by simp
  then show ?thesis using r by blast
qed

section \<open>The journal\<close>

lemma judge_guard: "judge g name r = (g', res) \<Longrightarrow> \<exists>n. g' = g\<lparr>g_failures := n\<rparr>"
  by (auto simp: judge_def Let_def split: sum.splits if_splits)

lemma check_guard:
  assumes "run_state (check g w) t = ((g', res), u)"
  shows "\<exists>n. g' = g\<lparr>g_failures := n\<rparr>"
  using assms by (cases rule: check_cases) (use judge_guard in blast)+

definition remembers :: "guard \<Rightarrow> pass list \<Rightarrow> bool" where
  "remembers g ps \<longleftrightarrow> (if ps = [] then \<not> g_started g
     else g_started g \<and> g_last_verdict g = r_verdict (fst (last ps)) \<and> g_last_source g = r_source (fst (last ps)))"

lemma guard_run_remembers:
  assumes "guard_run w g0 t0 ps g t" "\<not> g_started g0"
  shows "remembers g ps"
  using assms
proof (induction rule: guard_run.induct)
  case (pass ps g t g1 res u g2 lines)
  then show ?case using report_guard [OF pass.hyps(4)] by (simp add: remembers_def)
qed (simp add: remembers_def)

definition changed :: "pass list \<Rightarrow> nat \<Rightarrow> bool" where
  "changed ps k \<longleftrightarrow> k = 0 \<or> r_verdict (fst (ps ! k)) \<noteq> r_verdict (fst (ps ! (k - 1)))
     \<or> r_source (fst (ps ! k)) \<noteq> r_source (fst (ps ! (k - 1)))"

lemma report_lines:
  assumes "report g res = (g', lines)"
  shows "(\<exists>line \<in> set lines. fst line \<noteq> Debug) \<longleftrightarrow> r_verdict res \<in> {Tolerated, Trip}
      \<or> \<not> (g_started g \<and> r_verdict res = g_last_verdict g \<and> r_source res = g_last_source g)"
    and "r_verdict res = Ok \<Longrightarrow> g_override_path g \<noteq> [] \<Longrightarrow> r_source res = g_override_path g \<Longrightarrow>
      \<not> (g_started g \<and> r_verdict res = g_last_verdict g \<and> r_source res = g_last_source g) \<Longrightarrow>
      (Warn, OverrideRead (r_reading res) (g_override_path g) (src_name (g_sensors g)) (g_max g)) \<in> set lines"
  using assms by (auto simp: report_def Let_def split: verdict.splits)

text \<open>
  C20: the journal shows every transition and nothing else. In every run of a fresh guard a pass
  leaves a line above the debug level exactly if it is the first, if its verdict or the source of
  its reading differs from the pass before, or if its reading failed or it tripped; and a pass
  that begins to read the override file in place of the sensors leaves a warning that names it.
\<close>

theorem journal_shows_transitions:
  assumes "run_state (run_guard g waits w) t = ((out, logs, ps, g'), u)" "fresh g" "k < length ps"
  shows "((\<exists>line \<in> set (snd (ps ! k)). fst line \<noteq> Debug) \<longleftrightarrow>
      r_verdict (fst (ps ! k)) \<in> {Tolerated, Trip} \<or> changed ps k)
    \<and> (r_verdict (fst (ps ! k)) = Ok \<and> changed ps k \<and> g_override_path g \<noteq> []
        \<and> r_source (fst (ps ! k)) = g_override_path g \<longrightarrow>
      (Warn, OverrideRead (r_reading (fst (ps ! k))) (g_override_path g) (src_name (g_sensors g)) (g_max g))
        \<in> set (snd (ps ! k)))"
proof -
  have run: "guard_run w g t ps g' u" using run_guard_run [OF assms(1)] by blast
  have new: "\<not> g_started g" using assms(2) by (simp add: fresh_def)
  show ?thesis
    using run assms(2,3)
  proof (induction rule: guard_run.induct)
    case (pass ps h v h1 res u h2 lines)
    show ?case
    proof (cases "k < length ps")
      case True
      then have "changed (ps @ [(res, lines)]) k = changed ps k" by (auto simp: changed_def nth_append)
      then show ?thesis using pass.IH [OF assms(2) True] True by (simp add: nth_append)
    next
      case False
      then have k: "k = length ps" using pass.prems(2) by simp
      obtain n where h1: "h1 = h\<lparr>g_failures := n\<rparr>" using check_guard [OF pass.hyps(3)] by blast
      have static: "g_override_path h = g_override_path g" "g_sensors h = g_sensors g" "g_max h = g_max g"
        using guard_run_budget [OF pass.hyps(1) assms(2)] by auto
      have eq: "g_started h1 \<and> r_verdict res = g_last_verdict h1 \<and> r_source res = g_last_source h1
          \<longleftrightarrow> \<not> changed (ps @ [(res, lines)]) k"
        using guard_run_remembers [OF pass.hyps(1) new] k
        by (cases "ps = []") (auto simp: remembers_def changed_def h1 nth_append last_conv_nth)
      show ?thesis
        using report_lines [OF pass.hyps(4), unfolded eq not_not] k h1 static by (simp add: nth_append)
    qed
  qed simp
qed

theorem journal_shows_transitions_witness:
  "\<exists>ps. length ps = 3 \<and> \<not> changed ps 1 \<and> (\<forall>line \<in> set (snd (ps ! 1)). fst line = Debug)"
proof -
  let ?r = "run_state (run_guard sample_guard [Tick, Tick, Tick] heating) 0"
  obtain out logs ps g' u where r: "?r = ((out, logs, ps, g'), u)" by (metis prod.collapse)
  have v: "map (\<lambda>p. r_verdict (fst p)) ps = [Ok, Ok, Trip]"
    using sample_runs(1) unfolding r verdicts_of_def by simp
  have "map (\<lambda>p. r_source (fst p)) (fst (snd (snd (fst ?r))))
      = replicate 3 ''k10temp-pci-00c3/Tctl+k10temp-pci-00cb/Tctl''" by code_simp
  then have so: "map (\<lambda>p. r_source (fst p)) ps = replicate 3 ''k10temp-pci-00c3/Tctl+k10temp-pci-00cb/Tctl''"
    unfolding r by simp
  have l: "length ps = 3" using arg_cong [OF v, of length] by simp
  have "\<not> changed ps 1"
    using arg_cong [OF v, of "\<lambda>xs. (xs ! 0, xs ! 1)"] arg_cong [OF so, of "\<lambda>xs. (xs ! 0, xs ! 1)"] l
    by (simp add: changed_def)
  moreover have "r_verdict (fst (ps ! 1)) = Ok" using arg_cong [OF v, of "\<lambda>xs. xs ! 1"] l by simp
  ultimately show ?thesis
    using journal_shows_transitions [OF r fresh_sample, of 1] l by (intro exI [of _ ps]) auto
qed

end
