(* ===== verification/Command_Safety.thy ===== *)
theory Command_Safety
  imports Command Guard_Safety Sample_Run
begin

text \<open>
  What the process promises as a whole: which status it exits with and what that says about the
  guard, what the disable file is good for, and what a guard that armed was made from.
\<close>

section \<open>Exit statuses\<close>

abbreviation tripping :: "bool \<Rightarrow> pass list \<Rightarrow> bool" where
  "tripping once ps \<equiv> ps \<noteq> [] \<and> (r_verdict (fst (last ps)) = Trip
    \<or> once \<and> r_verdict (fst (last ps)) = Tolerated)"

definition exit_split :: "bool \<Rightarrow> effects \<Rightarrow> bool" where
  "exit_split once eff \<longleftrightarrow>
    e_exit eff \<in> {None, Some exit_ok, Some exit_tripped, Some exit_config}
    \<and> (e_exit eff = Some exit_config \<longrightarrow> e_passes eff = [])
    \<and> (e_exit eff = Some exit_tripped \<longleftrightarrow> tripping once (e_passes eff))"

lemmas exit_codes = exit_ok_def exit_tripped_def exit_config_def

lemma exit_split_exits [simp]:
  "c \<noteq> exit_tripped \<Longrightarrow> c \<in> {exit_ok, exit_config} \<Longrightarrow> exit_split once (exits c out err lines)"
  by (auto simp: exit_split_def exits_def)

lemma exit_split_before [simp]: "exit_split once (before lines sent eff) = exit_split once eff"
  by (simp add: exit_split_def before_def)

lemma exit_split_journal [simp]: "exit_split once (logged p fmt lvl eff) = exit_split once eff"
  by (simp add: exit_split_def)

lemma watch_split:
  assumes "run_state (watch p n g waits w) t = (eff, u)"
  shows "exit_split False eff"
proof -
  obtain out lines ps g' where r: "run_state (run_guard g waits w) t = ((out, lines, ps, g'), u)"
    and e: "e_exit eff = exit_of out" "e_passes eff = ps"
    using assms by (auto simp: watch_def split: prod.splits)
  have "outcome_ok waits out ps" using run_guard_run [OF r] by blast
  then show ?thesis using e
    by (cases out) (auto simp: exit_split_def exit_of_def exit_codes outcome_ok_def)
qed

lemma after_hold_split:
  assumes "run_state (after_hold p n out rest w) t = (eff, u)"
  shows "exit_split False eff"
proof (cases out)
  case (Rearmed g)
  then show ?thesis using assms watch_split by (auto simp: after_hold_def split: prod.splits)
qed (use assms in \<open>auto simp: after_hold_def exit_codes exit_split_def exits_def split: if_splits\<close>)

lemma daemon_split:
  assumes "run_state (daemon p opts armed waits w) t = (eff, u)"
  shows "exit_split False eff"
proof (cases armed)
  case (Inl why)
  then show ?thesis using assms after_hold_split by (auto simp: daemon_def Let_def split: prod.splits)
next
  case (Inr g)
  then show ?thesis using assms watch_split by (auto simp: daemon_def Let_def)
qed

lemma check_mode_split:
  assumes "run_state (check_mode p opts armed w) t = (eff, u)"
  shows "exit_split True eff"
proof (cases armed)
  case (Inl why)
  then show ?thesis using assms by (auto simp: check_mode_def exit_codes)
next
  case (Inr g)
  then show ?thesis using assms
    by (auto simp: check_mode_def exit_split_def exits_def exit_codes split: prod.splits if_splits)
qed

lemma exit_split_once: "e_passes eff = [] \<Longrightarrow> exit_split once eff = exit_split once' eff"
  by (simp add: exit_split_def)

lemma guard_modes_split:
  assumes "run_state (guard_modes p opts waits w) t = (eff, u)"
  shows "exit_split (o_check opts) eff"
proof -
  have go: "exit_split (o_check opts) eff"
    if "run_state (proceed p opts armed waits w) t' = (eff, u')" for armed t' u'
    using that check_mode_split daemon_split by (auto simp: proceed_def split: if_splits)
  show ?thesis using assms
    by (auto simp: guard_modes_def exit_codes dest!: go split: prod.splits sum.splits if_splits)
qed

lemma list_mode_split:
  assumes "run_state (list_mode p opts w) t = (eff, u)"
  shows "exit_split once eff"
  using assms by (auto simp: list_mode_def exit_codes split: prod.splits sum.splits)

lemma run_options_split:
  assumes "run_state (run_options p opts waits w) t = (eff, u)"
  shows "exit_split (o_check opts) eff"
  using assms
  by (auto simp: run_options_def exit_codes list_mode_split guard_modes_split split: prod.splits sum.splits if_splits)

definition one_shot :: "string list \<Rightarrow> bool" where
  "one_shot args = (case parse_args default_options args of Inr (opts, []) \<Rightarrow> o_check opts | _ \<Rightarrow> False)"

lemma run_main_split:
  assumes "run_state (run_main p args waits w) t = (eff, u)"
  shows "exit_split (one_shot args) eff"
proof (cases "parse_args default_options args")
  case (Inl e)
  then show ?thesis using assms by (cases e) (auto simp: run_main_def exit_codes)
next
  case (Inr r)
  obtain opts rest where r: "r = (opts, rest)" by (cases r)
  show ?thesis
  proof (cases rest)
    case Nil
    then have "one_shot args = o_check opts" using Inr r by (simp add: one_shot_def)
    moreover have "run_state (run_options p opts waits w) t = (eff, u)"
      using assms Inr r Nil by (simp add: run_main_def)
    ultimately show ?thesis using run_options_split by simp
  next
    case (Cons a as)
    then show ?thesis using assms Inr r by (auto simp: run_main_def exit_codes)
  qed
qed

text \<open>
  C4: the exit status tells a guard that never watched from one that stopped the node. Whatever the
  arguments, the node and the signals, the process runs on or exits 0, 1 or 2; status 2 means that
  not a single pass was made, so that exiting 2 never follows a reading; and status 1 means
  exactly that the last pass tripped or, with \<open>--check\<close>, that its only reading failed.
\<close>

theorem exit_status_split:
  assumes "run_state (run_main p args waits w) t = (eff, u)"
  shows "e_exit eff \<in> {None, Some 0, Some 1, Some 2}
    \<and> (e_exit eff = Some 2 \<longrightarrow> e_passes eff = [])
    \<and> (e_exit eff = Some 1 \<longleftrightarrow> e_passes eff \<noteq> [] \<and> (r_verdict (fst (last (e_passes eff))) = Trip
        \<or> one_shot args \<and> r_verdict (fst (last (e_passes eff))) = Tolerated))"
  using run_main_split [OF assms] unfolding exit_split_def exit_codes .

theorem exit_status_split_witness:
  "\<exists>eff u. run_state (run_main sample_platform [''--interval'', ''0''] [] heating) 0 = (eff, u)
    \<and> e_exit eff = Some 2 \<and> e_passes eff = []"
proof -
  have e: "e_exit (fst (run_state (run_main sample_platform [''--interval'', ''0''] [] heating) 0)) = Some 2"
    by code_simp
  obtain eff u where r: "run_state (run_main sample_platform [''--interval'', ''0''] [] heating) 0 = (eff, u)"
    by (metis prod.collapse)
  then show ?thesis using exit_status_split [OF r] e by simp
qed

section \<open>The disable file\<close>

definition always_disabled :: "string \<Rightarrow> world \<Rightarrow> nat \<Rightarrow> bool" where
  "always_disabled path w t \<longleftrightarrow> path \<noteq> [] \<and> (\<forall>t' \<ge> t. fs_stat (w t') path)"

lemma always_disabled_later: "always_disabled path w t \<Longrightarrow> t \<le> u \<Longrightarrow> always_disabled path w u"
  by (simp add: always_disabled_def)

lemma always_disabled_present: "always_disabled path w t \<Longrightarrow> \<not> absent path w t"
  by (simp add: always_disabled_def absent_def)

lemma check_disabled:
  assumes "always_disabled (g_disable_path g) w t" "run_state (check g w) t = ((g', res), u)"
  shows "r_verdict res = Disabled \<and> g_disable_path g' = g_disable_path g \<and> t \<le> u"
proof -
  have "\<not> absent (g_disable_path g) w t" using assms(1) by (rule always_disabled_present)
  then show ?thesis using assms(2) by (auto simp: run_check Let_def)
qed

lemma guard_run_disabled:
  assumes "guard_run w g0 t0 ps g t" "always_disabled (g_disable_path g0) w t0"
  shows "(\<forall>p \<in> set ps. r_verdict (fst p) = Disabled) \<and> g_disable_path g = g_disable_path g0 \<and> t0 \<le> t"
  using assms
proof (induction rule: guard_run.induct)
  case (pass ps g t g1 res u g2 lines)
  then have "always_disabled (g_disable_path g) w t" using always_disabled_later by metis
  from check_disabled [OF this pass.hyps(3)] pass show ?case
    using report_guard [OF pass.hyps(4)] by auto
qed simp

definition kept :: "effects \<Rightarrow> bool" where
  "kept eff \<longleftrightarrow> e_exit eff \<in> {None, Some exit_ok} \<and> (\<forall>p \<in> set (e_passes eff). r_verdict (fst p) = Disabled)"

lemma kept_simps [simp]:
  "kept (before lines sent eff) = kept eff" "kept (logged pl fmt lvl eff) = kept eff"
  "kept (exits exit_ok out err lines)" "kept ((exits exit_ok out err lines)\<lparr>e_exit := None\<rparr>)"
  by (simp_all add: kept_def before_def exits_def)

lemma watch_kept:
  assumes "always_disabled (g_disable_path g) w t" "run_state (watch p n g waits w) t = (eff, u)"
  shows "kept eff"
proof -
  obtain out lines ps g' where r: "run_state (run_guard g waits w) t = ((out, lines, ps, g'), u)"
    and e: "e_exit eff = exit_of out" "e_passes eff = ps"
    using assms(2) by (auto simp: watch_def split: prod.splits)
  have run: "guard_run w g t ps g' u" and ok: "outcome_ok waits out ps" using run_guard_run [OF r] by blast+
  have d: "\<forall>p \<in> set ps. r_verdict (fst p) = Disabled" using guard_run_disabled [OF run assms(1)] by blast
  then have "r_verdict (fst (last ps)) = Disabled" using ok by (simp add: outcome_ok_def)
  then show ?thesis using ok d e
    by (cases out) (auto simp: kept_def exit_of_def outcome_ok_def)
qed

lemma arm_guard_paths:
  assumes "run_state (arm p opts w) t = (Inr g, u)"
  shows "g_disable_path g = o_disable_path opts \<and> g_override_path g = o_override_path opts
    \<and> g_interval g = o_interval opts \<and> g_read_retries g = o_read_retries opts"
  using assms by (rule arm_Inr) (simp add: new_guard_def)

lemma daemon_kept:
  assumes d: "always_disabled (o_disable_path opts) w t" "run_state (daemon p opts armed waits w) t = (eff, u)"
    and g: "\<And>g. armed = Inr g \<Longrightarrow> g_disable_path g = o_disable_path opts"
  shows "kept eff"
proof (cases armed)
  case (Inr g)
  then have "run_state (watch p (notifier_new (p_dial p) (p_env p)) g waits w) t = (eff, u)"
    using d(2) by (simp add: daemon_def Let_def)
  from watch_kept [OF _ this] show ?thesis using d(1) g [OF Inr] by simp
next
  case (Inl why)
  define n where "n = notifier_new (p_dial p) (p_env p)"
  obtain out sent rest t1 where h: "run_state (hold_loop p opts n why waits w) t = ((out, sent, rest), t1)"
    by (metis prod_cases3 surj_pair)
  have never: "\<not> retried p opts w t r v" for r v
    using d(1) by (auto simp: retried_def always_disabled_def absent_def)
  have out: "out = Holding \<or> (\<exists>e. out = HeldStopped e)"
    using hold_loop_ended [OF h] never by (cases out) (auto simp: hold_ended_def)
  obtain eff' where a: "run_state (after_hold p n out rest w) t1 = (eff', u)" and eff: "kept eff = kept eff'"
    using d(2) Inl h by (auto simp: daemon_def Let_def rearm_when_resumed_def n_def [symmetric] split: prod.splits)
  have "kept eff'" using a out by (auto simp: after_hold_def)
  then show ?thesis using eff by simp
qed

lemma check_mode_kept:
  assumes d: "always_disabled (o_disable_path opts) w t" "run_state (check_mode p opts armed w) t = (eff, u)"
    and g: "\<And>g. armed = Inr g \<Longrightarrow> g_disable_path g = o_disable_path opts"
  shows "kept eff"
proof (cases armed)
  case (Inr g)
  obtain g' res u' where c: "run_state (check g w) t = ((g', res), u')" by (metis surj_pair)
  have "r_verdict res = Disabled" using check_disabled [OF _ c] d(1) g [OF Inr] by simp
  then show ?thesis using d(2) Inr c by (auto simp: check_mode_def kept_def exits_def)
qed (use d in \<open>auto simp: check_mode_def\<close>)

text \<open>
  C3: the disable file keeps the node. As long as it can be stated, neither the daemon nor a check
  ends with a failure, whatever else happens to the node: an unknown board, a broken table, sensors
  that are hot, unreadable or missing, and whatever changes in between. The process runs on, or
  exits 0 when it is asked to stop, and it takes no reading.
\<close>

theorem disable_file_keeps_node:
  assumes opts: "parse_args default_options args = Inr (opts, [])" "0 < o_interval opts" "0 \<le> o_read_retries opts"
      "\<not> o_list opts" "new_logger (o_log_level opts) (o_log_format opts) = Inr l"
    and present: "o_disable_path opts \<noteq> []" "\<forall>t' \<ge> t. fs_stat (w t') (o_disable_path opts)"
    and run: "run_state (run_main p args waits w) t = (eff, u)"
  shows "e_exit eff \<in> {None, Some 0} \<and> (\<forall>pass \<in> set (e_passes eff). r_verdict (fst pass) = Disabled)"
proof -
  have d: "always_disabled (o_disable_path opts) w t" using present by (simp add: always_disabled_def)
  have "kept eff"
  proof (cases "o_show_version opts")
    case True
    then show ?thesis using run opts(1) by (auto simp: run_main_def run_options_def)
  next
    case False
    then obtain eff' lvl fmt where m: "run_state (guard_modes p opts waits w) t = (eff', u)"
      and e: "eff = logged p fmt lvl eff'"
      using run opts by (auto simp: run_main_def run_options_def split: prod.splits)
    obtain armed t1 where a: "run_state (arm p opts w) t = (armed, t1)" by (cases "run_state (arm p opts w) t")
    have t1: "t \<le> t1" by (rule arm_op.forward_run [OF a])
    have g: "g_disable_path g = o_disable_path opts" if "armed = Inr g" for g
      using arm_guard_paths a that by blast
    have go: "kept eff'" if "run_state (proceed p opts armed waits w) t' = (eff', u)" "t \<le> t'" for t'
      using that check_mode_kept [OF always_disabled_later [OF d] _ g]
        daemon_kept [OF always_disabled_later [OF d] _ g]
      by (auto simp: proceed_def split: if_splits)
    have "\<not> absent (o_disable_path opts) w t1"
      by (rule always_disabled_present [OF always_disabled_later [OF d t1]])
    then have "\<exists>t' \<ge> t. run_state (proceed p opts armed waits w) t' = (eff', u)"
      using m a t1
      by (cases armed)
        (auto simp: guard_modes_def run_present_absent split: if_splits intro: exI [of _ t1] exI [of _ "Suc t1"])
    then show ?thesis using go e by auto
  qed
  then show ?thesis by (simp add: kept_def exit_codes)
qed

theorem disable_file_keeps_node_witness:
  "\<exists>eff u. run_state (run_main sample_platform (sample_args @ [''--config=/none'']) [Tick, Tick]
      (\<lambda>_. node ''n/a'' ''99000'' [(disable_path, [])])) 0 = (eff, u) \<and> e_exit eff \<in> {None, Some 0}"
proof -
  let ?w = "\<lambda>_. node ''n/a'' ''99000'' [(disable_path, [])]"
  let ?opts = "sample_options\<lparr>o_config_path := ''/none''\<rparr>"
  have a: "parse_args default_options (sample_args @ [''--config=/none'']) = Inr (?opts, [])" by code_simp
  have l: "new_logger (o_log_level ?opts) (o_log_format ?opts) = Inr (Info, TextFormat)" by code_simp
  have f: "\<forall>t' \<ge> 0. fs_stat (?w t') (o_disable_path ?opts)"
    by (simp add: sample_options_def node_def table_fs_def)
  have o: "0 < o_interval ?opts" "0 \<le> o_read_retries ?opts" "\<not> o_list ?opts" "o_disable_path ?opts \<noteq> []"
    by (simp_all add: sample_options_def default_options_def second_def disable_path_def)
  obtain eff u
    where r: "run_state (run_main sample_platform (sample_args @ [''--config=/none'']) [Tick, Tick] ?w) 0 = (eff, u)"
    by (metis prod.collapse)
  show ?thesis using disable_file_keeps_node [OF a o(1-3) l o(4) f r] r by blast
qed

section \<open>A node that does not change\<close>

definition stated :: "fs \<Rightarrow> string \<Rightarrow> bool" where
  "stated s path \<longleftrightarrow> path \<noteq> [] \<and> fs_stat s path"

definition source_on :: "guard \<Rightarrow> fs \<Rightarrow> source" where
  "source_on g s = (if stated s (g_override_path g) then file_source (g_override_path g) else g_sensors g)"

definition seen_on :: "guard \<Rightarrow> fs \<Rightarrow> observation" where
  "seen_on g s = (if stated s (g_disable_path g) then Suspension
     else (case snap (src_read (source_on g s)) s of Inl _ \<Rightarrow> Failure | Inr v \<Rightarrow> Reading v))"

definition status_on :: "guard \<Rightarrow> fs \<Rightarrow> int option" where
  "status_on g s = (case seen_on g s of
     Suspension \<Rightarrow> None | Failure \<Rightarrow> Some exit_tripped
   | Reading v \<Rightarrow> if g_max g < v then Some exit_tripped else None)"

lemma absent_const: "absent path (\<lambda>_. s) t \<longleftrightarrow> \<not> stated s path"
  by (simp add: absent_def stated_def)

lemma obs_of_judge: "obs_of (snd (judge g name r)) = (case r of Inl _ \<Rightarrow> Failure | Inr v \<Rightarrow> Reading v)"
  by (simp add: judge_def obs_of_def Let_def split: sum.split)

lemma check_on:
  assumes "reading_source (g_sensors g)" "run_state (check g (\<lambda>_. s)) t = ((g', res), u)"
  shows "obs_of res = seen_on g s"
proof (cases "stated s (g_disable_path g)")
  case True
  then show ?thesis using assms(2) by (auto simp: run_check absent_const Let_def obs_of_def seen_on_def)
next
  case False
  have op: "os_op (src_read (source_on g s))"
    using reading_source.read_op [OF assms(1)] override_source.read_op by (simp add: source_on_def)
  define t2 where "t2 = (if g_override_path g = [] then if g_disable_path g = [] then t else Suc t
    else Suc (if g_disable_path g = [] then t else Suc t))"
  obtain v where r: "run_state (src_read (source_on g s) (\<lambda>_. s)) t2 = (snap (src_read (source_on g s)) s, v)"
    using os_op.steady_run [OF op steady_const] by blast
  then have "(g', res) = judge g (src_name (source_on g s)) (snap (src_read (source_on g s)) s)"
    using assms(2) False unfolding run_check Let_def t2_def by (auto simp: absent_const source_on_def)
  then show ?thesis using False obs_of_judge by (metis seen_on_def snd_conv)
qed

lemma guard_run_on:
  assumes "guard_run (\<lambda>_. s) g0 t0 ps g t" "reading_source (g_sensors g0)" "fresh g0"
  shows "observations ps = replicate (length ps) (seen_on g0 s)"
  using assms
proof (induction rule: guard_run.induct)
  case (pass ps g t g1 res u g2 lines)
  have eq: "g_sensors g = g_sensors g0" "g_disable_path g = g_disable_path g0" "g_override_path g = g_override_path g0"
    using guard_run_budget [OF pass.hyps(1) pass.prems(2)] by auto
  then have "seen_on g s = seen_on g0 s" by (simp add: seen_on_def source_on_def)
  then have "obs_of res = seen_on g0 s" using check_on [OF _ pass.hyps(3)] pass.prems(1) eq by simp
  then show ?case using pass by (simp add: replicate_append_same)
qed simp

text \<open>What comes of watching such a node for more passes than it has retries.\<close>

lemma run_guard_on:
  assumes run: "run_state (run_guard g (replicate k Tick) (\<lambda>_. s)) t = ((out, lines, ps, g'), u)"
    and g: "reading_source (g_sensors g)" "fresh g" "g_read_retries g \<le> int k"
  shows "exit_of out = status_on g s"
proof -
  have r: "guard_run (\<lambda>_. s) g t ps g' u" and ok: "outcome_ok (replicate k Tick) out ps"
    using run_guard_run [OF run] by blast+
  have ne: "ps \<noteq> []" using ok by (simp add: outcome_ok_def)
  have "replicate k Tick ! (length ps - 1) = Tick" if "length ps \<le> k"
    using that ne by (intro nth_replicate) (cases ps, simp_all)
  then have ns: "out \<noteq> Stopped" using ok by (auto simp: outcome_ok_def)
  let ?n = "length ps - 1"
  have obs: "observations ps = replicate (length ps) (seen_on g s)" by (rule guard_run_on [OF r g(1,2)])
  have n: "?n < length ps" using ne by simp
  have v: "r_verdict (fst (last ps)) = spec_verdict (g_read_retries g) (g_max g)
      (replicate ?n (seen_on g s)) (seen_on g s)"
    using guard_run_verdicts [OF r g(2) n] ne n unfolding obs by (simp add: last_conv_nth)
  have tf: "trailing_failures (replicate m Failure) = m" for m
    by (simp add: trailing_failures_def takeWhile_replicate)
  have "(\<exists>why. out = GuardTripped why) \<longleftrightarrow> r_verdict (fst (last ps)) = Trip"
    using ok ns by (cases out) (auto simp: outcome_ok_def)
  moreover have "out = Running \<Longrightarrow> ?n = k" using ok by (auto simp: outcome_ok_def)
  moreover have "r_verdict (fst (last ps)) = Trip \<longleftrightarrow> status_on g s = Some exit_tripped" if "seen_on g s \<noteq> Failure"
    using that v by (cases "seen_on g s") (auto simp: spec_verdict_def status_on_def)
  moreover have "out \<noteq> Running" if "seen_on g s = Failure"
  proof
    assume "out = Running"
    then have "?n = k" "r_verdict (fst (last ps)) \<noteq> Trip" using ok by (auto simp: outcome_ok_def)
    then show False using v that g(3) tf by (simp add: spec_verdict_def)
  qed
  ultimately show ?thesis using ns
    by (cases out; cases "seen_on g s") (auto simp: exit_of_def status_on_def split: if_splits)
qed

lemma arm_armable:
  assumes "run_state (arm p opts w) t = (Inr g, u)"
    and "0 \<le> o_read_retries opts" "o_read_retries opts < 2 ^ 63 - 1"
  shows "reading_source (g_sensors g) \<and> fresh g"
proof -
  from assms(1) obtain name entry selected where "g = new_guard opts name entry selected" by (rule arm_Inr)
  then show ?thesis
    using assms(2,3) hwmon_source.reading_source_axioms by (simp add: new_guard_def fresh_def)
qed

lemma watch_on:
  assumes "reading_source (g_sensors g)" "fresh g" "g_read_retries g \<le> int k"
  shows "e_exit (fst (run_state (watch p n g (replicate k Tick) (\<lambda>_. s)) t)) = status_on g s"
proof -
  obtain out lines ps g' u where r: "run_state (run_guard g (replicate k Tick) (\<lambda>_. s)) t = ((out, lines, ps, g'), u)"
    by (metis prod.collapse)
  then show ?thesis using run_guard_on [OF r assms] by (simp add: watch_def)
qed

lemma hold_loop_on:
  assumes "stated s (o_disable_path opts)"
  shows "\<exists>sent u. run_state (hold_loop p opts n why (replicate k Tick) (\<lambda>_. s)) t = ((Holding, sent, []), u)"
proof -
  obtain out sent rest u
    where h: "run_state (hold_loop p opts n why (replicate k Tick) (\<lambda>_. s)) t = ((out, sent, rest), u)"
    by (metis prod.collapse)
  have "\<not> retried p opts (\<lambda>_. s) t r v" for r v using assms by (simp add: retried_def absent_const)
  moreover have "replicate k Tick \<noteq> replicate j Tick @ Cancel # rest" for j
  proof
    assume "replicate k Tick = replicate j Tick @ Cancel # rest"
    then have "Cancel \<in> set (replicate k Tick)" by simp
    then show False by simp
  qed
  ultimately have "out = Holding \<and> rest = []"
    using hold_loop_ended [OF h] by (cases out) (auto simp: hold_ended_def)
  then show ?thesis using h by blast
qed

lemma daemon_on:
  assumes "case armed of Inl _ \<Rightarrow> stated s (o_disable_path opts)
    | Inr g \<Rightarrow> reading_source (g_sensors g) \<and> fresh g \<and> g_read_retries g \<le> int k"
  shows "e_exit (fst (run_state (daemon p opts armed (replicate k Tick) (\<lambda>_. s)) t))
    = (case armed of Inl _ \<Rightarrow> None | Inr g \<Rightarrow> status_on g s)"
proof (cases armed)
  case (Inr g)
  then show ?thesis using watch_on assms by (simp add: daemon_def Let_def)
next
  case (Inl why)
  let ?n = "notifier_new (p_dial p) (p_env p)"
  obtain sent u where "run_state (hold_loop p opts ?n why (replicate k Tick) (\<lambda>_. s)) t = ((Holding, sent, []), u)"
    using hold_loop_on assms Inl by force
  then show ?thesis using Inl
    by (simp add: daemon_def Let_def rearm_when_resumed_def after_hold_def before_def)
qed

text \<open>What the daemon comes to on such a node, and what a check answers for it.\<close>

definition node_status :: "platform \<Rightarrow> options \<Rightarrow> fs \<Rightarrow> int option" where
  "node_status p opts s =
    (if stated s (o_disable_path opts) then None
     else (case snap (arm p opts) s of Inl _ \<Rightarrow> Some exit_config | Inr g \<Rightarrow> status_on g s))"

definition answer_of :: "int option \<Rightarrow> int option" where
  "answer_of status = Some (case status of None \<Rightarrow> exit_ok | Some c \<Rightarrow> c)"

lemma check_mode_on:
  assumes "case armed of Inl _ \<Rightarrow> True | Inr g \<Rightarrow> reading_source (g_sensors g) \<and> fresh g"
  shows "e_exit (fst (run_state (check_mode p opts armed (\<lambda>_. s)) t))
    = answer_of (case armed of Inl _ \<Rightarrow> None | Inr g \<Rightarrow> status_on g s)"
proof (cases armed)
  case (Inl err)
  then show ?thesis by (simp add: check_mode_def exits_def answer_of_def)
next
  case (Inr g)
  then have g: "reading_source (g_sensors g)" "fresh g" using assms by simp_all
  obtain g' res u where c: "run_state (check g (\<lambda>_. s)) t = ((g', res), u)" by (metis surj_pair)
  have "r_verdict res = spec_verdict (g_read_retries g) (g_max g) [] (seen_on g s)"
    using check_step(1) [OF fresh_budget [OF g(2)] c] check_on [OF g(1) c] by simp
  then have "r_verdict res = Trip \<or> r_verdict res = Tolerated \<longleftrightarrow> status_on g s = Some exit_tripped"
    by (cases "seen_on g s") (auto simp: spec_verdict_def status_on_def)
  moreover have "status_on g s \<in> {None, Some exit_tripped}"
    by (simp add: status_on_def split: observation.split)
  ultimately show ?thesis using Inr c
    by (auto simp: check_mode_def exits_def answer_of_def)
qed

lemma snap_arm_paths:
  assumes "snap (arm p opts) s = Inr g"
  shows "g_disable_path g = o_disable_path opts" "g_override_path g = o_override_path opts"
proof -
  obtain u where "run_state (arm p opts (\<lambda>_. s)) 0 = (snap (arm p opts) s, u)"
    using arm_op.steady_run [OF steady_const] by blast
  then have "run_state (arm p opts (\<lambda>_. s)) 0 = (Inr g, u)" unfolding assms .
  then show "g_disable_path g = o_disable_path opts" "g_override_path g = o_override_path opts"
    using arm_guard_paths by blast+
qed

lemma guard_modes_on:
  assumes opts: "0 \<le> o_read_retries opts" "o_read_retries opts < 2 ^ 63 - 1" "o_read_retries opts \<le> int k"
  shows "e_exit (fst (run_state (guard_modes p opts (replicate k Tick) (\<lambda>_. s)) t))
    = (if o_check opts then answer_of (node_status p opts s) else node_status p opts s)"
proof -
  let ?go = "\<lambda>armed t. e_exit (fst (run_state (proceed p opts armed (replicate k Tick) (\<lambda>_. s)) t))"
  obtain t1 where a: "run_state (arm p opts (\<lambda>_. s)) t = (snap (arm p opts) s, t1)"
    using arm_op.steady_run [OF steady_const] by blast
  show ?thesis
  proof (cases "snap (arm p opts) s")
    case (Inl err)
    show ?thesis
    proof (cases "stated s (o_disable_path opts)")
      case True
      then have "o_disable_path opts \<noteq> []" by (simp add: stated_def)
      moreover have "?go (Inl err) (Suc t1) = (if o_check opts then answer_of None else None)"
        using daemon_on [where armed = "Inl err" and s = s and opts = opts and k = k]
          check_mode_on [of "Inl err"] True by (simp add: proceed_def)
      ultimately show ?thesis using True a Inl
        by (simp add: guard_modes_def run_present_absent absent_const node_status_def)
    next
      case False
      then show ?thesis using a Inl
        by (simp add: guard_modes_def run_present_absent absent_const exits_def node_status_def answer_of_def)
    qed
  next
    case (Inr g)
    have r: "run_state (arm p opts (\<lambda>_. s)) t = (Inr g, t1)" using a Inr by simp
    have g: "reading_source (g_sensors g)" "fresh g" using arm_armable [OF r opts(1,2)] by blast+
    note same = arm_guard_paths [OF r]
    have "?go (Inr g) t1 = (if o_check opts then answer_of (status_on g s) else status_on g s)"
      using daemon_on [where armed = "Inr g" and s = s and opts = opts and k = k]
        check_mode_on [of "Inr g"] g same opts(3) by (simp add: proceed_def)
    moreover have "node_status p opts s = status_on g s"
      using Inr same by (simp add: node_status_def status_on_def seen_on_def)
    ultimately show ?thesis using r by (simp add: guard_modes_def)
  qed
qed

lemma run_main_on:
  assumes opts: "parse_args default_options args = Inr (opts, [])" "0 < o_interval opts"
      "0 \<le> o_read_retries opts" "o_read_retries opts < 2 ^ 63 - 1" "o_read_retries opts \<le> int k"
      "\<not> o_list opts" "\<not> o_show_version opts"
      "new_logger (o_log_level opts) (o_log_format opts) = Inr l"
  shows "e_exit (fst (run_state (run_main p args (replicate k Tick) (\<lambda>_. s)) t))
    = (if o_check opts then answer_of (node_status p opts s) else node_status p opts s)"
proof -
  have "e_exit (fst (run_state (run_main p args (replicate k Tick) (\<lambda>_. s)) t))
      = e_exit (fst (run_state (guard_modes p opts (replicate k Tick) (\<lambda>_. s)) t))"
    using opts by (simp add: run_main_def run_options_def split: prod.split)
  then show ?thesis using guard_modes_on [OF opts(3-5)] by simp
qed

text \<open>
  C1: the truth table of the specification. On a node that does not change, watched for at least as
  many intervals as it has retries, the state of the node decides alone. While the disable file is
  there the daemon runs on; else it exits 2 if the guard cannot be armed, and exits 1 if the
  reading, from the override file when there is one and from the sensors otherwise, cannot be taken
  or is above the board's limit; and it runs on if the reading is at most the limit.
\<close>

theorem truth_table:
  assumes opts: "parse_args default_options args = Inr (opts, [])" "0 < o_interval opts"
      "0 \<le> o_read_retries opts" "o_read_retries opts < 2 ^ 63 - 1" "o_read_retries opts \<le> int k"
      "\<not> o_list opts" "\<not> o_check opts" "\<not> o_show_version opts"
      "new_logger (o_log_level opts) (o_log_format opts) = Inr l"
  shows "e_exit (fst (run_state (run_main p args (replicate k Tick) (\<lambda>_. s)) t)) =
    (if stated s (o_disable_path opts) then None
     else (case snap (arm p opts) s of
         Inl _ \<Rightarrow> Some 2
       | Inr g \<Rightarrow>
          (case snap (src_read (if stated s (o_override_path opts) then file_source (o_override_path opts)
              else g_sensors g)) s of
             Inl _ \<Rightarrow> Some 1
           | Inr v \<Rightarrow> if g_max g < v then Some 1 else None)))"
  using run_main_on [OF opts(1-6,8,9)] opts(7) snap_arm_paths
  by (auto simp: node_status_def status_on_def seen_on_def source_on_def exit_codes split: sum.split)

theorem truth_table_witness:
  "e_exit (fst (run_state (run_main sample_platform sample_args (replicate 2 Tick) (\<lambda>_. hot_node)) 0)) = Some 1"
proof -
  have l: "new_logger (o_log_level sample_options) (o_log_format sample_options) = Inr (Info, TextFormat)" by code_simp
  have o: "0 < o_interval sample_options" "0 \<le> o_read_retries sample_options"
    "o_read_retries sample_options < 2 ^ 63 - 1" "o_read_retries sample_options \<le> int 2"
    "\<not> o_list sample_options" "\<not> o_check sample_options" "\<not> o_show_version sample_options"
    by (simp_all add: sample_options_def default_options_def second_def)
  have f: "\<not> stated hot_node (o_disable_path sample_options)" "\<not> stated hot_node (o_override_path sample_options)"
    by (code_simp, code_simp)
  have "snap (sensor_read (sample_sensors ! 0)) hot_node = Inr 45000"
    "snap (sensor_read (sample_sensors ! 2)) hot_node = Inr 86000" by (code_simp, code_simp)
  moreover have "sample_sensors ! 0 \<noteq> sample_sensors ! 2" by (simp add: sample_sensors_def)
  ultimately have "\<forall>s \<in> set sample_selected. snap (sensor_read s) hot_node
      = Inr (if s = sample_sensors ! 0 then 45000 else 86000)" by (simp add: sample_selected_def)
  from snap_sensors_read [OF this] have r: "snap (src_read (g_sensors armed_sample)) hot_node = Inr 86000"
    using \<open>sample_sensors ! 0 \<noteq> sample_sensors ! 2\<close>
    by (simp add: armed_sample_def new_guard_def new_sensors_def sample_selected_def)
  have "g_max armed_sample = 85000" by (simp add: armed_sample_def new_guard_def sample_board_def)
  then show ?thesis
    using truth_table [OF parse_sample_args o l, of sample_platform hot_node 0] f arm_hot r by simp
qed

text \<open>
  C9: a check answers for the daemon. On a node that does not change, \<open>--check\<close> exits with the
  status the daemon with the same options would come to, and 0 where the daemon would run on: it
  fails exactly on a node that would not be guarded, a reading the daemon would tolerate at first
  included, and it needs one pass for what takes the daemon as many as it has retries.
\<close>

theorem check_answers_for_daemon:
  assumes opts: "parse_args default_options args = Inr (opts, [])" "0 < o_interval opts"
      "0 \<le> o_read_retries opts" "o_read_retries opts < 2 ^ 63 - 1" "o_read_retries opts \<le> int k"
      "\<not> o_list opts" "\<not> o_check opts" "\<not> o_show_version opts"
      "new_logger (o_log_level opts) (o_log_format opts) = Inr l"
    and once: "parse_args default_options args' = Inr (opts\<lparr>o_check := True\<rparr>, [])"
  shows "e_exit (fst (run_state (run_main p args' [] (\<lambda>_. s)) t)) =
    (case e_exit (fst (run_state (run_main p args (replicate k Tick) (\<lambda>_. s)) t)) of
       None \<Rightarrow> Some 0 | Some status \<Rightarrow> Some status)"
proof -
  let ?opts = "opts\<lparr>o_check := True\<rparr>"
  have "arm p ?opts = arm p opts" by (intro ext) (simp add: arm_def new_guard_def cong: if_cong)
  then have st: "node_status p ?opts s = node_status p opts s" by (simp add: node_status_def)
  have waits: "run_state (run_main p args' [] (\<lambda>_. s)) t = run_state (run_main p args' (replicate k Tick) (\<lambda>_. s)) t"
    using once opts by (simp add: run_main_def run_options_def guard_modes_def proceed_def split: prod.split sum.split)
  have "e_exit (fst (run_state (run_main p args' (replicate k Tick) (\<lambda>_. s)) t)) = answer_of (node_status p opts s)"
    using run_main_on [OF once, of k l p s t] opts(2-9) st by simp
  moreover have "e_exit (fst (run_state (run_main p args (replicate k Tick) (\<lambda>_. s)) t)) = node_status p opts s"
    using run_main_on [OF opts(1-6,8,9)] opts(7) by simp
  ultimately show ?thesis unfolding waits by (simp add: answer_of_def exit_codes split: option.split)
qed

theorem check_answers_for_daemon_witness:
  "e_exit (fst (run_state (run_main sample_platform (sample_args @ [''--check'']) [] (\<lambda>_. hot_node)) 0)) =
    (case e_exit (fst (run_state (run_main sample_platform sample_args (replicate 2 Tick) (\<lambda>_. hot_node)) 0)) of
       None \<Rightarrow> Some 0 | Some status \<Rightarrow> Some status)"
proof (rule check_answers_for_daemon [OF parse_sample_args])
  show "new_logger (o_log_level sample_options) (o_log_format sample_options) = Inr (Info, TextFormat)" by code_simp
  show "parse_args default_options (sample_args @ [''--check'']) = Inr (sample_options\<lparr>o_check := True\<rparr>, [])"
    by code_simp
qed (simp_all add: sample_options_def default_options_def second_def)

end
