(* ===== verification/Status.thy ===== *)
theory Status
  imports Command_Safety Guard_Safety Sample_Run
begin

text \<open>
  What the service manager is told of a watched node, and that nothing read from a file can be
  taken for an assignment of its own.
\<close>

section \<open>The status line\<close>

lemma report_status_adj:
  "report_status n g prev rs = concat (map (notify_status n) (tl (remdups_adj (prev # map (status_line g) rs))))"
proof (induction rs arbitrary: prev)
  case (Cons r rs)
  have hd: "remdups_adj (l # ls) = l # tl (remdups_adj (l # ls))" for l and ls :: "string list"
    by (metis hd_Cons_tl hd_remdups_adj list.distinct(1) list.sel(1) remdups_adj_Nil_iff)
  show ?case
  proof (cases "status_line g r = prev")
    case False
    have "report_status n g prev (r # rs)
        = concat (map (notify_status n) (status_line g r # tl (remdups_adj (status_line g r # map (status_line g) rs))))"
      using False by (simp only: report_status.simps Let_def Cons if_False list.map concat.simps)
    also have "\<dots> = concat (map (notify_status n) (remdups_adj (status_line g r # map (status_line g) rs)))"
      by (subst hd [symmetric]) (rule refl)
    finally show ?thesis using False by simp
  qed (use Cons in simp)
qed simp

lemma status_line_nonempty: "status_line g res \<noteq> []"
  by (simp add: status_line_def split: verdict.split)

text \<open>The line for a pass, as the operator reads it.\<close>

lemma status_line_shown:
  "status_line g res = (if r_verdict res = Disabled then ''Suspended: '' @ r_source res @ '' is present''
    else if r_verdict res = Tolerated then ''Reading '' @ r_source res @ '' failed, within the retry budget''
    else ''Watching '' @ r_source res @ '', limit '' @ mc_string (g_max g))"
  by (simp add: status_line_def split: verdict.split)

lemma notify_status_lines: "concat (map (notify_status n) ls) =
    (case n of None \<Rightarrow> [] | Some addr \<Rightarrow> map (\<lambda>l. (addr, ''STATUS='' @ l @ [newline])) ls)"
  by (induction ls) (simp_all add: notify_status_def send_def newline_def split: option.split)

lemma watch_sent:
  assumes "run_state (watch p n g waits w) t = (eff, u)"
  shows "e_sent eff =
    notify_ready n (''Watching '' @ src_name (g_sensors g) @ '', limit '' @ mc_string (g_max g))
    @ concat (map (notify_status n) (remdups_adj (map (\<lambda>pass. status_line g (fst pass)) (e_passes eff))
        @ (if e_exit eff = Some 1
           then [''Tripped: '' @ tripped_text (p_printable p) (r_err (fst (last (e_passes eff))))] else [])))"
proof -
  obtain out lines ps g' where r: "run_state (run_guard g waits w) t = ((out, lines, ps, g'), u)"
    by (cases "run_state (run_guard g waits w) t") (use assms in \<open>auto simp: watch_def split: prod.splits\<close>)
  have ok: "outcome_ok waits out ps" using run_guard_run [OF r] by blast
  have "report_status n g [] (map fst ps)
      = concat (map (notify_status n) (remdups_adj (map (\<lambda>pass. status_line g (fst pass)) ps)))"
    using status_line_nonempty [symmetric] by (cases ps) (simp_all add: report_status_adj comp_def)
  then show ?thesis using assms r ok
    by (cases out) (auto simp: watch_def exit_of_def exit_codes outcome_ok_def)
qed

text \<open>
  C23: the status is in step with the loop. A watched node is announced ready with the sensors and the
  limit it was armed with. Then every pass has its line: that checking is suspended and by which file,
  that a reading failed and of what, or what is being watched and the limit; a line is sent when it
  differs from the line before, and never for a pass that changes nothing, so that the line sent last
  is that of the last pass, whatever is read. A trip ends with its reason. Each is one datagram, and
  nothing else is sent.
\<close>

theorem status_in_step:
  assumes "run_state (watch p n g waits w) t = (eff, u)"
  shows "e_sent eff = (case n of None \<Rightarrow> [] | Some addr \<Rightarrow>
    (addr, ''READY=1'' @ [newline] @ ''STATUS=Watching '' @ src_name (g_sensors g) @ '', limit '' @ mc_string (g_max g) @ [newline])
    # map (\<lambda>l. (addr, ''STATUS='' @ l @ [newline]))
        (remdups_adj (map (\<lambda>(res, _).
            if r_verdict res = Disabled then ''Suspended: '' @ r_source res @ '' is present''
            else if r_verdict res = Tolerated then ''Reading '' @ r_source res @ '' failed, within the retry budget''
            else ''Watching '' @ r_source res @ '', limit '' @ mc_string (g_max g)) (e_passes eff))
          @ (if e_exit eff = Some 1
             then [''Tripped: '' @ tripped_text (p_printable p) (r_err (fst (last (e_passes eff))))] else [])))"
  unfolding watch_sent [OF assms] notify_status_lines
  by (cases n) (simp_all add: notify_ready_def send_def newline_def status_line_shown case_prod_unfold)

text \<open>A first socket that cannot be read: two passes tolerated, the third one trips.\<close>

theorem status_in_step_witness:
  "\<exists>eff u. run_state (watch sample_platform (Some ''s'') sample_guard [Tick, Tick] broken) 0 = (eff, u)
    \<and> map snd (take 3 (e_sent eff)) =
      [''READY=1'' @ [newline] @ ''STATUS=Watching k10temp-pci-00c3/Tctl+k10temp-pci-00cb/Tctl, limit 85.000C'' @ [newline],
       ''STATUS=Reading k10temp-pci-00c3/Tctl+k10temp-pci-00cb/Tctl failed, within the retry budget'' @ [newline],
       ''STATUS=Watching k10temp-pci-00c3/Tctl+k10temp-pci-00cb/Tctl, limit 85.000C'' @ [newline]]
    \<and> length (e_sent eff) = 4"
proof -
  obtain eff u where r: "run_state (watch sample_platform (Some ''s'') sample_guard [Tick, Tick] broken) 0 = (eff, u)"
    by (metis prod.collapse)
  let ?name = "''k10temp-pci-00c3/Tctl+k10temp-pci-00cb/Tctl''"
  have "map (\<lambda>(res, _). (r_verdict res, r_source res))
      (e_passes (fst (run_state (watch sample_platform (Some ''s'') sample_guard [Tick, Tick] broken) 0)))
      = [(Tolerated, ?name), (Tolerated, ?name), (Trip, ?name)]"
    "e_exit (fst (run_state (watch sample_platform (Some ''s'') sample_guard [Tick, Tick] broken) 0)) = Some 1"
    "src_name (g_sensors sample_guard) = ?name" "mc_string (g_max sample_guard) = ''85.000C''"
    by (code_simp, code_simp, code_simp, code_simp)
  then have e: "map (\<lambda>(res, _). (r_verdict res, r_source res)) (e_passes eff)
      = [(Tolerated, ?name), (Tolerated, ?name), (Trip, ?name)]" "e_exit eff = Some 1"
    and s: "src_name (g_sensors sample_guard) = ?name" "mc_string (g_max sample_guard) = ''85.000C''"
    using r by simp_all
  let ?line = "\<lambda>(v, src). if v = Disabled then ''Suspended: '' @ src @ '' is present''
      else if v = Tolerated then ''Reading '' @ src @ '' failed, within the retry budget''
      else ''Watching '' @ src @ '', limit '' @ mc_string (g_max sample_guard)"
  have "map (\<lambda>(res, _).
            if r_verdict res = Disabled then ''Suspended: '' @ r_source res @ '' is present''
            else if r_verdict res = Tolerated then ''Reading '' @ r_source res @ '' failed, within the retry budget''
            else ''Watching '' @ r_source res @ '', limit '' @ mc_string (g_max sample_guard)) (e_passes eff)
      = map ?line (map (\<lambda>(res, _). (r_verdict res, r_source res)) (e_passes eff))"
    by (simp add: case_prod_unfold comp_def)
  from status_in_step [OF r, unfolded this e] show ?thesis using r s by simp
qed

section \<open>Text from files\<close>

text \<open>Nothing but the contents of files is taken as it comes: names, paths and the system's own texts.\<close>

definition one_line :: "string \<Rightarrow> bool" where
  "one_line s \<longleftrightarrow> newline \<notin> set s"



lemma one_line_append [simp]: "one_line (a @ b) \<longleftrightarrow> one_line a \<and> one_line b"
  by (auto simp: one_line_def)

lemma one_line_Cons [simp]: "one_line (c # s) \<longleftrightarrow> c \<noteq> newline \<and> one_line s"
  by (auto simp: one_line_def)

lemma one_line_Nil [simp]: "one_line []"
  by (simp add: one_line_def)

lemma one_line_quote [simp]: "one_line (quote ip s)"
  using no_control_newline [OF no_control_quote] by (simp add: one_line_def newline_def)






















text \<open>
  A name does go in as it is: a label with a line in the middle adds that line to the datagram that
  announces the node.
\<close>

theorem name_adds_line:
  "let s = (hd sample_sensors)\<lparr>s_label := trim_space (''Tctl'' @ [newline] @ ''MAINPID=1'' @ [newline])\<rparr> in
    map (raw_lines \<circ> snd)
      (notify_ready (Some ''s'') (''Watching '' @ sensors_name [s] @ '', limit '' @ mc_string 85000))
    = [[''READY=1'', ''STATUS=Watching k10temp-pci-00c3/Tctl'', ''MAINPID=1, limit 85.000C'']]"
  by code_simp

end
