(* ===== verification/Failure_Kind.thy ===== *)
theory Failure_Kind
  imports Command_Safety
begin

text \<open>
  \<open>packaging/libexec/failure-kind\<close>: the condition under which each of the two units runs that
  \<open>OnFailure=\<close> starts, and what it makes of the statuses the program exits with.
\<close>

section \<open>The script\<close>

definition unit_name :: string where
  "unit_name = ''slurm-temperature-check.service''"

text \<open>
  The output of a command in \<open>$(...)\<close>, less the newlines at its end; a command that fails
  leaves the variable empty.
\<close>

definition captured :: "string option \<Rightarrow> string" where
  "captured out = (case out of None \<Rightarrow> [] | Some s \<Rightarrow> rev (dropWhile (\<lambda>c. c = newline) (rev s)))"

definition main_code :: "string \<Rightarrow> string" where
  "main_code raw = (if raw = ''1'' then ''exited'' else if raw = ''2'' then ''killed''
     else if raw = ''3'' then ''dumped'' else [])"

text \<open>
  \<open>code\<close> and \<open>status\<close>: what systemd set in the environment, or what \<open>systemctl show\<close>
  answers for the two properties.
\<close>

definition failure_status :: "environment \<Rightarrow> string option \<Rightarrow> string option \<Rightarrow> string \<times> string" where
  "failure_status env shown_code shown_status =
    (if env ''MONITOR_EXIT_CODE'' = [] then (main_code (captured shown_code), captured shown_status)
     else (env ''MONITOR_EXIT_CODE'', env ''MONITOR_EXIT_STATUS''))"

definition never_armed :: "string \<Rightarrow> string \<Rightarrow> bool" where
  "never_armed code status \<longleftrightarrow> code = ''exited'' \<and> status = ''2''"

text \<open>The exit status and what is written to the two streams, for \<open>$0\<close> and the arguments.\<close>

definition failure_kind ::
    "environment \<Rightarrow> string option \<Rightarrow> string option \<Rightarrow> string \<Rightarrow> string list \<Rightarrow> int \<times> string \<times> string" where
  "failure_kind env shown_code shown_status prog args =
    (let (code, status) = failure_status env shown_code shown_status;
         arg = (case args of [] \<Rightarrow> [] | a # _ \<Rightarrow> a) in
     if arg = ''unarmed'' then
       (if \<not> never_armed code status then (1, [], [])
        else (0, unit_name @ '' exited 2 without ever taking a reading: draining this node, its running job steps are left alone''
          @ [newline], []))
     else if arg = ''armed'' then
       (if never_armed code status then (1, [], [])
        else (0, unit_name @ '' failed while the node was being watched (''
          @ (if code = [] then ''reason unknown'' else code) @ (if status = [] then [] else '' '' @ status)
          @ ''): killing the job steps and stopping slurmd'' @ [newline], []))
     else (255, [], ''usage: '' @ (case after_last (CHR ''/'') prog of None \<Rightarrow> prog | Some b \<Rightarrow> b)
       @ '' armed|unarmed'' @ [newline]))"

section \<open>Properties\<close>

text \<open>
  One response to every failure. Whatever the environment and systemd say, the condition holds for
  exactly one of the two units, the other is skipped without failing; the gentler response is for a
  guard that positively exited with status 2 and for nothing else, a process killed by signal 2 or an
  unreadable status included.
\<close>

lemma one_response:
  "{fst (failure_kind env c s prog [''armed'']), fst (failure_kind env c s prog [''unarmed''])} = {0, 1}
    \<and> (fst (failure_kind env c s prog [''unarmed'']) = 0 \<longleftrightarrow>
        (if env ''MONITOR_EXIT_CODE'' \<noteq> []
         then env ''MONITOR_EXIT_CODE'' = ''exited'' \<and> env ''MONITOR_EXIT_STATUS'' = ''2''
         else captured c = ''1'' \<and> captured s = ''2''))"
  by (simp add: failure_kind_def failure_status_def never_armed_def main_code_def insert_commute)

text \<open>What systemd tells the units it starts for a main process that exited by itself.\<close>

definition monitor :: "int \<Rightarrow> environment" where
  "monitor status = (\<lambda>v. if v = ''MONITOR_EXIT_CODE'' then ''exited''
     else if v = ''MONITOR_EXIT_STATUS'' then itoa status else [])"

text \<open>
  C5: jobs are killed only for a guard that watched. Whatever the arguments, the node and the signals,
  when the program exits with a failure the drain is what follows exactly if it never made a pass,
  and the emergency stop exactly if it made one.
\<close>

theorem response_fits_failure:
  assumes "run_state (run_main p args waits w) t = (eff, u)" "e_exit eff = Some status" "status \<noteq> 0"
  shows "(fst (failure_kind (monitor status) c s prog [''unarmed'']) = 0 \<longleftrightarrow> e_passes eff = [])
    \<and> (fst (failure_kind (monitor status) c s prog [''armed'']) = 0 \<longleftrightarrow> e_passes eff \<noteq> [])"
proof -
  have i: "itoa 1 = ''1''" "itoa 2 = ''2''" by code_simp+
  have "exit_split (one_shot args) eff" by (rule run_main_split [OF assms(1)])
  then consider "status = 1" "e_passes eff \<noteq> []" | "status = 2" "e_passes eff = []"
    using assms(2,3) unfolding exit_split_def exit_codes by auto
  then show ?thesis
    by cases (simp_all add: failure_kind_def failure_status_def never_armed_def monitor_def i)
qed

theorem response_fits_failure_witness:
  "fst (failure_kind (monitor 2) None None ''failure-kind'' [''unarmed'']) = 0"
proof -
  let ?r = "run_state (run_main sample_platform [''--interval'', ''0''] [] heating) 0"
  have e: "e_exit (fst ?r) = Some 2" "e_passes (fst ?r) = []" by (code_simp, code_simp)
  obtain eff u where r: "?r = (eff, u)" by (metis prod.collapse)
  then show ?thesis using response_fits_failure [OF r] e by simp
qed

end
