(* ===== verification/Watchdog.thy ===== *)
theory Watchdog
  imports Command
begin

text \<open>
  \<open>watchdog\<close> of \<open>cmd/slurm-temperature-check/main.go\<close>: the goroutine that sends the
  keep-alive while the loop makes passes, and withholds it when it does not.
\<close>

section \<open>The goroutine\<close>

text \<open>
  What happens to it, with the time since it was started: the loop completes a pass and stores that
  time, the ticker fires, the context is cancelled. It answers each tick with a keep-alive or, if the
  pass stored last is overdue, by logging its age.
\<close>

datatype wd_event = Passed | PingDue | StopAsked

datatype answer = Fed "datagram list" | Withheld int

type_synonym timeline = "(int \<times> wd_event) list"

definition answer_ping :: "notifier \<Rightarrow> int \<Rightarrow> int \<Rightarrow> int \<Rightarrow> answer" where
  "answer_ping n stale last_pass now =
    (let since = i64 (now - last_pass) in
     if stale < since then Withheld since else Fed (notify_alive n))"

fun watchdog_loop :: "notifier \<Rightarrow> int \<Rightarrow> int \<Rightarrow> timeline \<Rightarrow> (int \<times> answer) list" where
  "watchdog_loop n stale last_pass [] = []"
| "watchdog_loop n stale last_pass ((now, Passed) # evs) = watchdog_loop n stale now evs"
| "watchdog_loop n stale last_pass ((now, StopAsked) # evs) = []"
| "watchdog_loop n stale last_pass ((now, PingDue) # evs) =
    (now, answer_ping n stale last_pass now) # watchdog_loop n stale last_pass evs"

text \<open>Without a watchdog there is no goroutine; with one, it starts with no pass on record.\<close>

definition watchdog :: "platform \<Rightarrow> notifier \<Rightarrow> int \<Rightarrow> timeline \<Rightarrow> (int \<times> answer) list" where
  "watchdog p n interval evs =
    (let every = watchdog_interval (p_env p) (p_pid p) in
     if every \<le> 0 then [] else watchdog_loop n (stale_after interval every) 0 evs)"

definition watchdog_log :: "(int \<times> answer) list \<Rightarrow> journal" where
  "watchdog_log answers = concat (map (\<lambda>(_, a).
     case a of Withheld since \<Rightarrow> [(Error, KeepAliveWithheld since)] | Fed _ \<Rightarrow> []) answers)"

section \<open>Timelines\<close>

definition timeline_from :: "int \<Rightarrow> timeline \<Rightarrow> bool" where
  "timeline_from start evs \<longleftrightarrow> 0 \<le> start \<and> sorted (start # map fst evs) \<and> (\<forall>ev \<in> set evs. fst ev < 2 ^ 63)"

lemma timeline_Nil [simp]: "timeline_from start [] \<longleftrightarrow> 0 \<le> start"
  by (simp add: timeline_from_def)

lemma timeline_Cons [simp]:
  "timeline_from start ((now, e) # evs) \<longleftrightarrow> 0 \<le> start \<and> start \<le> now \<and> now < 2 ^ 63 \<and> timeline_from now evs"
  by (auto simp: timeline_from_def)

lemma timeline_mono: "timeline_from start evs \<Longrightarrow> 0 \<le> s \<Longrightarrow> s \<le> start \<Longrightarrow> timeline_from s evs"
  by (auto simp: timeline_from_def)

text \<open>The time of the last pass completed in a stretch of the timeline, and the answer it deserves.\<close>

definition last_pass_in :: "int \<Rightarrow> timeline \<Rightarrow> int" where
  "last_pass_in l evs = last (l # map fst (filter (\<lambda>ev. snd ev = Passed) evs))"

definition deserved :: "notifier \<Rightarrow> int \<Rightarrow> int \<Rightarrow> timeline \<Rightarrow> nat \<Rightarrow> (int \<times> answer) option" where
  "deserved n stale l evs k =
    (if snd (evs ! k) = PingDue then
       let now = fst (evs ! k); since = now - last_pass_in l (take k evs) in
       Some (now, if stale < since then Withheld since else Fed (notify_alive n))
     else None)"

definition until_stop :: "timeline \<Rightarrow> timeline" where
  "until_stop evs = takeWhile (\<lambda>ev. snd ev \<noteq> StopAsked) evs"

lemma last_pass_Cons:
  "last_pass_in l ((now, e) # evs) = last_pass_in (if e = Passed then now else l) evs"
  by (simp add: last_pass_in_def)

lemma deserved_Suc:
  "deserved n stale l ((now, e) # evs) (Suc k) = deserved n stale (if e = Passed then now else l) evs k"
  by (simp add: deserved_def last_pass_Cons)

lemma deserved_Cons:
  "List.map_filter (deserved n stale l ((now, e) # us)) [0..<Suc (length us)] =
    (case deserved n stale l ((now, e) # us) 0 of None \<Rightarrow> [] | Some a \<Rightarrow> [a])
    @ List.map_filter (deserved n stale (if e = Passed then now else l) us) [0..<length us]"
proof -
  have upt: "[0..<Suc m] = 0 # map Suc [0..<m]" for m by (metis map_Suc_upt upt_conv_Cons zero_less_Suc)
  have mf: "List.map_filter f (map Suc xs) = List.map_filter (\<lambda>k. f (Suc k)) xs" for f :: "nat \<Rightarrow> (int \<times> answer) option" and xs
    by (simp add: map_filter_def comp_def filter_map)
  note step = mf [of "deserved n stale l ((now, e) # us)" "[0..<length us]", unfolded deserved_Suc]
  show ?thesis unfolding upt map_filter_simps(1)
    by (simp add: step split: option.split split del: if_split del: map_Suc_upt)
qed

text \<open>Times that can be subtracted from one another without wrapping around.\<close>

definition time_ok :: "int \<Rightarrow> bool" where
  "time_ok t \<longleftrightarrow> 0 \<le> t \<and> t < 2 ^ 63"

lemma i64_time_diff: "time_ok a \<Longrightarrow> time_ok b \<Longrightarrow> i64 (a - b) = a - b"
  by (intro i64_id) (simp add: time_ok_def in_i64_def)

lemma timeline_times:
  assumes "timeline_from start evs" "ev \<in> set evs"
  shows "time_ok (fst ev)"
proof -
  have "start \<le> fst ev" "0 \<le> start" "fst ev < 2 ^ 63" using assms by (auto simp: timeline_from_def)
  then show ?thesis by (simp add: time_ok_def)
qed

lemma watchdog_loop_deserved:
  assumes "\<forall>ev \<in> set evs. time_ok (fst ev)" "time_ok l"
  shows "watchdog_loop n stale l evs
    = List.map_filter (deserved n stale l (until_stop evs)) [0..<length (until_stop evs)]"
  using assms
proof (induction evs arbitrary: l)
  case Nil
  then show ?case by (simp add: until_stop_def map_filter_def)
next
  case (Cons ev evs)
  obtain now e where ev: "ev = (now, e)" by (cases ev)
  have now: "time_ok now" using Cons.prems(1) ev by simp
  have i: "i64 (now - l) = now - l" by (rule i64_time_diff [OF now Cons.prems(2)])
  have ih: "watchdog_loop n stale m evs
      = List.map_filter (deserved n stale m (until_stop evs)) [0..<length (until_stop evs)]"
    if "m = now \<or> m = l" for m
    using Cons.IH [of m] that now Cons.prems by auto
  show ?case
  proof (cases e)
    case StopAsked
    then show ?thesis using ev by (simp add: until_stop_def map_filter_def)
  next
    case Passed
    then have u: "until_stop (ev # evs) = (now, Passed) # until_stop evs" using ev by (simp add: until_stop_def)
    show ?thesis unfolding u length_Cons deserved_Cons using Passed ev ih by (simp add: deserved_def)
  next
    case PingDue
    then have u: "until_stop (ev # evs) = (now, PingDue) # until_stop evs" using ev by (simp add: until_stop_def)
    show ?thesis unfolding u length_Cons deserved_Cons
      using PingDue ev ih i by (simp add: deserved_def last_pass_in_def answer_ping_def Let_def)
  qed
qed

lemma watchdog_loop_append:
  "StopAsked \<notin> snd ` set evs \<Longrightarrow>
    watchdog_loop n stale l (evs @ q) = watchdog_loop n stale l evs @ watchdog_loop n stale (last_pass_in l evs) q"
  by (induction n stale l evs rule: watchdog_loop.induct) (auto simp: last_pass_Cons, simp add: last_pass_in_def)

lemma watchdog_loop_stopped:
  "StopAsked \<in> snd ` set evs \<Longrightarrow> watchdog_loop n stale l (evs @ q) = watchdog_loop n stale l evs"
  by (induction n stale l evs rule: watchdog_loop.induct) auto

section \<open>Properties\<close>

lemma last_pass_before:
  assumes "timeline_from start evs" "0 \<le> l" "l \<le> start" "k < length evs"
  shows "last_pass_in l (take k evs) \<le> fst (evs ! k) \<and> 0 \<le> last_pass_in l (take k evs)"
  using assms
proof (induction evs arbitrary: start l k)
  case (Cons ev evs)
  obtain now e where ev: "ev = (now, e)" by (cases ev)
  show ?case
  proof (cases k)
    case 0
    then show ?thesis using Cons.prems ev by (simp add: last_pass_in_def)
  next
    case (Suc j)
    then show ?thesis
      using Cons.IH [of now "if e = Passed then now else l" j] Cons.prems ev by (auto simp: last_pass_Cons)
  qed
qed simp

lemma last_pass_bound:
  assumes "\<forall>ev \<in> set evs. snd ev = Passed \<longrightarrow> fst ev \<le> b" "l \<le> b"
  shows "last_pass_in l (take k evs) \<le> b"
proof -
  let ?ps = "map fst (filter (\<lambda>ev. snd ev = Passed) (take k evs))"
  have "set ?ps \<subseteq> {x. x \<le> b}" using assms(1) set_take_subset [of k evs] by fastforce
  then show ?thesis using assms(2) last_in_set [of ?ps] by (auto simp: last_pass_in_def)
qed

lemma until_stop_prefix: "until_stop evs = take (length (until_stop evs)) evs"
  unfolding until_stop_def by (rule takeWhile_eq_take)

text \<open>Every answer is to a tick, and the one the passes before it call for.\<close>

lemma watchdog_loop_mem:
  assumes "\<forall>ev \<in> set evs. time_ok (fst ev)" "time_ok l" "(now, a) \<in> set (watchdog_loop n stale l evs)"
  shows "\<exists>k < length evs. evs ! k = (now, PingDue) \<and> a = (let since = now - last_pass_in l (take k evs) in
    if stale < since then Withheld since else Fed (notify_alive n))"
proof -
  let ?live = "until_stop evs"
  obtain k where k: "k < length ?live" "deserved n stale l ?live k = Some (now, a)"
    using assms(3) unfolding watchdog_loop_deserved [OF assms(1,2)] by (auto simp: in_map_filter)
  have "?live ! k = evs ! k" "take k ?live = take k evs" "length ?live \<le> length evs"
    using k(1) arg_cong [OF until_stop_prefix [of evs], of "\<lambda>xs. xs ! k"]
      arg_cong [OF until_stop_prefix [of evs], of "take k"]
    by (simp_all add: until_stop_def length_takeWhile_le)
  then show ?thesis using k
    by (intro exI [of _ k]) (auto simp: deserved_def Let_def prod_eq_iff split: if_splits)
qed

lemma i64_double:
  assumes "2 ^ 62 \<le> (n::int)" "n < 2 ^ 63"
  shows "i64 (2 * n) = 2 * n - 2 ^ 64"
proof -
  have "(2 * n + 2 ^ 63 - 2 ^ 64) mod 2 ^ 64 = 2 * n + 2 ^ 63 - 2 ^ 64"
    by (rule mod_pos_pos_trivial; use assms in simp)
  then have "(2 * n + 2 ^ 63) mod 2 ^ 64 = 2 * n + 2 ^ 63 - 2 ^ 64"
    unfolding minus_mod_self2 .
  then show ?thesis unfolding i64_def by linarith
qed

text \<open>
  C26: the age that makes a pass overdue. It is at least twice the interval and at least the watchdog's
  whole timeout as long as the sums fit; an interval of 146 years or more wraps around, and then only
  the timeout counts.
\<close>

theorem stale_after_bounds:
  assumes "0 < interval" "interval < 2 ^ 63" "0 < every" "every < 2 ^ 62"
  shows "stale_after interval every = (if interval < 2 ^ 62 then max (2 * interval) (2 * every) else 2 * every)"
proof -
  have e: "i64 (2 * every) = 2 * every" using assms by (intro i64_id) (simp add: in_i64_def)
  show ?thesis
  proof (cases "interval < 2 ^ 62")
    case True
    then have "i64 (2 * interval) = 2 * interval" using assms by (intro i64_id) (simp add: in_i64_def)
    then show ?thesis using True e by (simp add: stale_after_def Let_def)
  next
    case False
    then have "i64 (2 * interval) = 2 * interval - 2 ^ 64" using assms by (intro i64_double) simp_all
    moreover have "2 * interval - 2 ^ 64 < 2 * every" using assms by simp
    ultimately show ?thesis using False e unfolding stale_after_def Let_def by simp
  qed
qed

text \<open>
  C7: the keep-alive goes out exactly while the loop turns. At every tick before the process is asked
  to stop, the answer depends on the age of the last pass completed before it, or of the start: a
  keep-alive if that is not overdue, and otherwise none. So a loop that makes a pass often enough is
  always fed, and one that has stopped making passes gets no keep-alive from the age of overdue on,
  so that the service manager ends it a timeout later.
\<close>

theorem watchdog_follows_loop:
  assumes "timeline_from 0 evs"
  shows "watchdog_loop n stale 0 evs
      = List.map_filter (deserved n stale 0 (until_stop evs)) [0..<length (until_stop evs)]
    \<and> ((\<forall>k < length evs. fst (evs ! k) - last_pass_in 0 (take k evs) \<le> stale) \<longrightarrow>
        (\<forall>(now, a) \<in> set (watchdog_loop n stale 0 evs). a = Fed (notify_alive n)))
    \<and> ((\<forall>ev \<in> set evs. snd ev = Passed \<longrightarrow> fst ev \<le> wedged) \<and> 0 \<le> wedged \<longrightarrow>
        (\<forall>(now, a) \<in> set (watchdog_loop n stale 0 evs). wedged + stale < now \<longrightarrow> (\<exists>since. a = Withheld since)))"
proof -
  have times: "\<forall>ev \<in> set evs. time_ok (fst ev)" using timeline_times [OF assms] by blast
  have zero: "time_ok 0" by (simp add: time_ok_def)
  note eq = watchdog_loop_deserved [OF times zero]
  have mem: "\<exists>k < length evs. evs ! k = (now, PingDue) \<and> a = (let since = now - last_pass_in 0 (take k evs) in
        if stale < since then Withheld since else Fed (notify_alive n))"
    if "(now, a) \<in> set (watchdog_loop n stale 0 evs)" for now a
    using watchdog_loop_mem [OF times zero that] .
  have "a = Fed (notify_alive n)"
    if "\<forall>k < length evs. fst (evs ! k) - last_pass_in 0 (take k evs) \<le> stale"
      "(now, a) \<in> set (watchdog_loop n stale 0 evs)" for now a
  proof -
    note in_run = that(2)
    then obtain k where k: "k < length evs" "evs ! k = (now, PingDue)"
      "a = (let since = now - last_pass_in 0 (take k evs) in if stale < since then Withheld since else Fed (notify_alive n))"
      using mem by blast
    have "fst (evs ! k) - last_pass_in 0 (take k evs) \<le> stale" using that(1) k(1) by simp
    then show ?thesis using k(2,3) by (auto simp: Let_def)
  qed
  moreover have "\<exists>since. a = Withheld since"
    if "\<forall>ev \<in> set evs. snd ev = Passed \<longrightarrow> fst ev \<le> wedged" "0 \<le> wedged"
      "(now, a) \<in> set (watchdog_loop n stale 0 evs)" "wedged + stale < now" for now a
  proof -
    note in_run = that(3)
    then obtain k where k: "a = (let since = now - last_pass_in 0 (take k evs) in
        if stale < since then Withheld since else Fed (notify_alive n))" using mem by blast
    have "last_pass_in 0 (take k evs) \<le> wedged" by (rule last_pass_bound [OF that(1,2)])
    then show ?thesis using k that(4) by (auto simp: Let_def)
  qed
  ultimately show ?thesis using eq by blast
qed

theorem stale_after_bounds_witness: "stale_after (5 * second) 15000000000 = 30000000000"
  using stale_after_bounds [of "5 * second" 15000000000] by (simp add: second_def)

text \<open>A loop that makes passes every five seconds until it wedges at ten, pinged every fifteen.\<close>

definition wedging :: timeline where
  "wedging = map (\<lambda>(t, e). (t * second, e))
    [(0, Passed), (5, Passed), (10, Passed), (15, PingDue), (30, PingDue), (45, PingDue), (60, PingDue)]"

theorem watchdog_follows_loop_witness:
  "\<exists>since. (60 * second, Withheld since) \<in> set (watchdog_loop (Some ''s'') 30000000000 0 wedging)"
proof -
  have t: "timeline_from 0 wedging" by (simp add: wedging_def second_def)
  have p: "\<forall>ev \<in> set wedging. snd ev = Passed \<longrightarrow> fst ev \<le> 10 * second" "0 \<le> 10 * second"
    by (simp_all add: wedging_def second_def)
  have "\<exists>a. (60 * second, a) \<in> set (watchdog_loop (Some ''s'') 30000000000 0 wedging)"
    by (simp add: wedging_def) blast
  then obtain a where a: "(60 * second, a) \<in> set (watchdog_loop (Some ''s'') 30000000000 0 wedging)" by blast
  moreover have "10 * second + 30000000000 < 60 * second" by (simp add: second_def)
  ultimately have "\<exists>since. a = Withheld since"
    using watchdog_follows_loop [OF t, of "Some ''s''" 30000000000 "10 * second"] p by blast
  then show ?thesis using a by blast
qed

end
