(* ===== verification/Protection.thy ===== *)
theory Protection
  imports Failure_Kind Watchdog
begin

text \<open>
  What a node gets from the program and the units together: heat stops the jobs, and a loop that
  hangs is ended in time.
\<close>

section \<open>A hot node\<close>

text \<open>
  From some instant on: neither file is there, and whenever the sensor can be read it is above the
  limit.
\<close>

definition unsuspended :: "guard \<Rightarrow> world \<Rightarrow> nat \<Rightarrow> bool" where
  "unsuspended g w t0 \<longleftrightarrow>
    (\<forall>t \<ge> t0. absent (g_disable_path g) w t \<and> absent (g_override_path g) w t)"

definition hot_sensor :: "sensor \<Rightarrow> milli_celsius \<Rightarrow> world \<Rightarrow> nat \<Rightarrow> bool" where
  "hot_sensor s limit w t0 \<longleftrightarrow> (\<forall>t \<ge> t0. \<forall>v u. run_state (sensor_read s w) t = (Inr v, u) \<longrightarrow> limit < v)"

definition same_guard :: "guard \<Rightarrow> guard \<Rightarrow> bool" where
  "same_guard g g' \<longleftrightarrow> g_max g' = g_max g \<and> g_sensors g' = g_sensors g \<and> g_disable_path g' = g_disable_path g
    \<and> g_override_path g' = g_override_path g"

lemma same_guard_refl [simp]: "same_guard g g"
  by (simp add: same_guard_def)

lemma same_guard_step:
  assumes "same_guard g0 g" "run_state (check g w) t = ((g1, res), u)" "report g1 res = (g2, lines)"
  shows "same_guard g0 g2"
proof -
  have "\<exists>n. g1 = g\<lparr>g_failures := n\<rparr>" using assms(2) by (rule check_guard)
  then show ?thesis using assms(1) report_guard [OF assms(3)] by (auto simp: same_guard_def)
qed

lemma hot_pass:
  assumes g: "g_sensors g = new_sensors ss" "s \<in> set ss"
    and hot: "hot_sensor s (g_max g) w t" "unsuspended g w t"
    and run: "run_state (check g w) t = ((g', res), u)"
  shows "obs_of res = Failure \<or> (\<exists>v. obs_of res = Reading v \<and> g_max g < v)"
  using run
proof (cases rule: check_cases)
  case disabled
  then show ?thesis using hot(2) by (simp add: unsuspended_def)
next
  case (override t1 r)
  then show ?thesis using hot(2) by (simp add: unsuspended_def)
next
  case (sensors t1 t2 r)
  show ?thesis
  proof (cases r)
    case (Inl e)
    then show ?thesis using sensors(6) by (auto simp: judge_def Let_def obs_of_def split: if_splits)
  next
    case (Inr v)
    then have "run_state (sensors_read ss w) t2 = (Inr v, u)"
      using sensors(5) by (simp add: g new_sensors_def)
    then obtain vs where vs: "list_all2 (read_during w t2 u) ss vs" "v = Max (set vs)"
      using sensors_read_Inr by blast
    obtain i where i: "i < length ss" "ss ! i = s" using g(2) by (auto simp: in_set_conv_nth)
    have "read_during w t2 u s (vs ! i)" "i < length vs"
      using list_all2_nthD [OF vs(1) i(1)] i list_all2_lengthD [OF vs(1)] by simp_all
    then have "g_max g < vs ! i" "vs ! i \<le> v"
      using hot(1) sensors(2,4) vs(2) unfolding hot_sensor_def by (meson le_trans, simp)
    then have "g_max g < v" by simp
    then show ?thesis using sensors(6) Inr by (auto simp: judge_def Let_def obs_of_def)
  qed
qed

lemma hot_run:
  assumes run: "guard_run w g0 t0 ps g t"
    and g: "g_sensors g0 = new_sensors ss" "s \<in> set ss"
    and hot: "hot_sensor s (g_max g0) w t0" "unsuspended g0 w t0"
  shows "t0 \<le> t \<and> same_guard g0 g
    \<and> (\<forall>ob \<in> set (observations ps). ob = Failure \<or> (\<exists>v. ob = Reading v \<and> g_max g0 < v))"
  using run
proof (induction rule: guard_run.induct)
  case (pass ps g t g1 res u g2 lines)
  then have t: "t0 \<le> t" and same: "same_guard g0 g" by simp_all
  have "hot_sensor s (g_max g0) w t" using hot(1) t unfolding hot_sensor_def by (meson le_trans)
  moreover have "unsuspended g0 w t" using hot(2) t unfolding unsuspended_def by (meson le_trans)
  ultimately have later: "hot_sensor s (g_max g) w t" "unsuspended g w t"
    using same by (simp_all add: unsuspended_def same_guard_def)
  have src: "g_sensors g = new_sensors ss" using same g(1) by (simp add: same_guard_def)
  have "os_op (check g)" by (intro os_op_check) (simp add: src hwmon_source.read_op)
  from os_op.forward_run [OF this pass.hyps(3)] have u: "t0 \<le> u" using t by simp
  have obs: "\<forall>ob \<in> set (observations ps). ob = Failure \<or> (\<exists>v. ob = Reading v \<and> g_max g0 < v)"
    using pass.IH by blast
  have "obs_of res = Failure \<or> (\<exists>v. obs_of res = Reading v \<and> g_max g0 < v)"
    using hot_pass [OF src g(2) later pass.hyps(3)] same by (simp add: same_guard_def)
  then show ?case using u obs same_guard_step [OF same pass.hyps(3,4)] by simp
qed simp

lemma hot_run_trips:
  assumes run: "run_state (run_guard g (replicate k Tick) w) t = ((out, lines, ps, g'), u)"
    and g: "g_sensors g = new_sensors ss" "s \<in> set ss" "fresh g" "g_read_retries g \<le> int k"
    and hot: "hot_sensor s (g_max g) w t" "unsuspended g w t"
  shows "exit_of out = Some exit_tripped \<and> length ps \<le> nat (g_read_retries g) + 1"
proof -
  let ?n = "nat (g_read_retries g)"
  have r: "guard_run w g t ps g' u" and ok: "outcome_ok (replicate k Tick) out ps"
    using run_guard_run [OF run] by blast+
  have obs: "observations ps ! j = Failure \<or> (\<exists>v. observations ps ! j = Reading v \<and> g_max g < v)"
    if "j < length ps" for j
    using hot_run [OF r g(1,2) hot] that by (metis nth_mem observations_simps(3))
  have verdict: "r_verdict (fst (ps ! j))
      = spec_verdict (g_read_retries g) (g_max g) (take j (observations ps)) (observations ps ! j)"
    if "j < length ps" for j
    using guard_run_verdicts [OF r g(3) that] .
  have failed: "observations ps ! j = Failure" if "j < length ps" "r_verdict (fst (ps ! j)) \<noteq> Trip" for j
    using obs [OF that(1)] verdict [OF that(1)] that(2) by (auto simp: spec_verdict_def)
  have trip: "r_verdict (fst (ps ! ?n)) = Trip" if "?n < length ps"
  proof (cases "observations ps ! ?n = Failure")
    case True
    have "observations ps ! j = Failure" if "j < ?n" for j
      using failed [of j] guard_run_trips_last [OF r, of j] that \<open>?n < length ps\<close> by simp
    then have "?n \<le> trailing_failures (take ?n (observations ps))"
      unfolding trailing_failures_ge using that by simp
    then have "g_read_retries g \<le> int (trailing_failures (take ?n (observations ps)))" by linarith
    then show ?thesis using True verdict [OF that] by (simp add: spec_verdict_def)
  next
    case False
    then show ?thesis using obs [OF that] verdict [OF that] by (auto simp: spec_verdict_def)
  qed
  have len: "length ps \<le> ?n + 1"
  proof (rule ccontr)
    assume "\<not> length ps \<le> ?n + 1"
    then have "?n < length ps" "?n < length ps - 1" by simp_all
    then show False using trip guard_run_trips_last [OF r] by blast
  qed
  have ne: "ps \<noteq> []" using ok by (simp add: outcome_ok_def)
  have "replicate k Tick ! (length ps - 1) = Tick" if "length ps \<le> k"
    using that ne by (intro nth_replicate) (cases ps, simp_all)
  then have "out \<noteq> Stopped" using ok by (auto simp: outcome_ok_def)
  moreover have "out \<noteq> Running"
  proof
    assume "out = Running"
    then have "length ps = k + 1" "r_verdict (fst (last ps)) \<noteq> Trip" using ok by (simp_all add: outcome_ok_def)
    then have "length ps - 1 = ?n" "?n < length ps" using len g(3,4) by (simp_all add: fresh_def)
    then show False using trip ne \<open>r_verdict (fst (last ps)) \<noteq> Trip\<close> by (simp add: last_conv_nth)
  qed
  ultimately show ?thesis using len by (cases out) (simp_all add: exit_of_def)
qed

text \<open>
  C2: heat stops the jobs. Take any course of the node on which the guard arms, and from then on
  neither the disable file nor the override file appears and one of the selected sensors, whenever it
  can be read at all, is above the board's limit; the other sensors, the failures of reads and
  everything else may be as they like. Then the daemon exits 1 after at most one pass more than
  it has retries, and the unit whose condition holds is the one that kills the job steps.
\<close>

theorem hot_node_stopped:
  assumes opts: "parse_args default_options args = Inr (opts, [])" "0 < o_interval opts"
      "0 \<le> o_read_retries opts" "o_read_retries opts < 2 ^ 63 - 1" "o_read_retries opts \<le> int k"
      "\<not> o_list opts" "\<not> o_check opts" "\<not> o_show_version opts"
      "new_logger (o_log_level opts) (o_log_format opts) = Inr l"
    and armed: "run_state (arm p opts w) t = (Inr g, u)" "g_sensors g = new_sensors ss" "s \<in> set ss"
    and hot: "hot_sensor s (g_max g) w u" "unsuspended g w u"
  shows "\<exists>eff v. run_state (run_main p args (replicate k Tick) w) t = (eff, v)
    \<and> e_exit eff = Some 1 \<and> length (e_passes eff) \<le> nat (o_read_retries opts) + 1
    \<and> fst (failure_kind (monitor 1) shown_code shown_status prog [''armed'']) = 0
    \<and> fst (failure_kind (monitor 1) shown_code shown_status prog [''unarmed'']) = 1"
proof -
  obtain out lines ps g' v where r: "run_state (run_guard g (replicate k Tick) w) u = ((out, lines, ps, g'), v)"
    by (metis prod.collapse)
  have f: "fresh g" using arm_armable [OF armed(1) opts(3,4)] by blast
  have n: "g_read_retries g = o_read_retries opts"
    using armed(1) by (rule arm_Inr) (simp add: new_guard_def)
  have trip: "exit_of out = Some exit_tripped \<and> length ps \<le> nat (o_read_retries opts) + 1"
    using hot_run_trips [OF r armed(2,3) f _ hot] opts(5) unfolding n by blast
  have "itoa 1 = ''1''" by code_simp
  then have units: "fst (failure_kind (monitor 1) shown_code shown_status prog [''armed'']) = 0"
    "fst (failure_kind (monitor 1) shown_code shown_status prog [''unarmed'']) = 1"
    by (simp_all add: failure_kind_def failure_status_def never_armed_def monitor_def)
  obtain fmt lvl where l: "l = (lvl, fmt)" by (cases l)
  have "\<exists>eff. run_state (run_main p args (replicate k Tick) w) t = (eff, v)
      \<and> e_exit eff = exit_of out \<and> e_passes eff = ps"
    using opts l armed(1) r
    by (simp add: run_main_def run_options_def guard_modes_def proceed_def daemon_def watch_def Let_def)
  then show ?thesis using trip units by (auto simp: exit_tripped_def)
qed

theorem hot_node_stopped_witness:
  "\<exists>eff v. run_state (run_main sample_platform sample_args (replicate 2 Tick) (\<lambda>_. hot_node)) 0 = (eff, v)
    \<and> e_exit eff = Some 1 \<and> length (e_passes eff) \<le> 3"
proof -
  have l: "new_logger (o_log_level sample_options) (o_log_format sample_options) = Inr (Info, TextFormat)" by code_simp
  have o: "0 < o_interval sample_options" "0 \<le> o_read_retries sample_options"
    "o_read_retries sample_options < 2 ^ 63 - 1" "o_read_retries sample_options \<le> int 2"
    "\<not> o_list sample_options" "\<not> o_check sample_options" "\<not> o_show_version sample_options"
    by (simp_all add: sample_options_def default_options_def second_def)
  obtain u where a: "run_state (arm sample_platform sample_options (\<lambda>_. hot_node)) 0 = (Inr armed_sample, u)"
    using arm_op.steady_run [OF steady_const, of sample_platform sample_options hot_node 0] arm_hot by auto
  have g: "g_sensors armed_sample = new_sensors sample_selected" "sample_sensors ! 2 \<in> set sample_selected"
    by (simp_all add: armed_sample_def new_guard_def sample_selected_def)
  have "snap (sensor_read (sample_sensors ! 2)) hot_node = Inr 86000" by code_simp
  then have "v = 86000" if "run_state (sensor_read (sample_sensors ! 2) (\<lambda>_. hot_node)) t = (Inr v, u')" for t v u'
    using sensor_read_op.steady_run [OF steady_const, of "sample_sensors ! 2" hot_node t] that by auto
  then have hot: "hot_sensor (sample_sensors ! 2) (g_max armed_sample) (\<lambda>_. hot_node) u"
    by (fastforce simp: hot_sensor_def armed_sample_def new_guard_def sample_board_def)
  have "\<not> fs_stat hot_node (g_disable_path armed_sample)" "\<not> fs_stat hot_node (g_override_path armed_sample)"
    by (code_simp, code_simp)
  then have "unsuspended armed_sample (\<lambda>_. hot_node) u" by (simp add: unsuspended_def absent_def)
  from hot_node_stopped [OF parse_sample_args o l a g hot this, of None None "''failure-kind''"] show ?thesis
    by (auto simp: sample_options_def default_options_def)
qed

section \<open>A wedged loop\<close>

text \<open>The ticker's ticks, and when systemd ends a service that last sent a keep-alive when it did.\<close>

definition ticks :: "int \<Rightarrow> nat \<Rightarrow> nat \<Rightarrow> timeline" where
  "ticks every m m' = map (\<lambda>j. (int j * every, PingDue)) [m..<m']"

definition fed_times :: "(int \<times> answer) list \<Rightarrow> int list" where
  "fed_times answers = map fst (filter (\<lambda>(_, a). case a of Fed _ \<Rightarrow> True | Withheld _ \<Rightarrow> False) answers)"

definition ended_at :: "int \<Rightarrow> (int \<times> answer) list \<Rightarrow> int" where
  "ended_at timeout answers = last (0 # fed_times answers) + timeout"

lemma watchdog_loop_ticks:
  "watchdog_loop n stale l (ticks every m m') = map (\<lambda>j. (int j * every, answer_ping n stale l (int j * every))) [m..<m']"
proof -
  have "watchdog_loop n stale l (map (\<lambda>j. (int j * every, PingDue)) js)
      = map (\<lambda>j. (int j * every, answer_ping n stale l (int j * every))) js" for js
    by (induction js) simp_all
  then show ?thesis by (simp add: ticks_def)
qed

lemma answer_fed:
  assumes "0 \<le> l" "l \<le> now" "now < 2 ^ 63"
  shows "(case answer_ping n stale l now of Fed _ \<Rightarrow> True | Withheld _ \<Rightarrow> False) \<longleftrightarrow> now - l \<le> stale"
proof -
  have "i64 (now - l) = now - l" using assms by (intro i64_id) (simp add: in_i64_def)
  then show ?thesis by (simp add: answer_ping_def Let_def)
qed

lemma last_fed:
  assumes e: "0 < every" "0 \<le> l" "l < int m * every" "int m * every \<le> l + stale"
      "l + stale < int m' * every" "int m' * every < 2 ^ 63"
  shows "\<exists>time. last (0 # fed_times (before_answers @ watchdog_loop n stale l (ticks every m m'))) = time
    \<and> l + stale - every < time \<and> time \<le> l + stale"
proof -
  define j where "j = nat ((l + stale) div every)"
  have d: "0 \<le> (l + stale) div every" using e by (simp add: pos_imp_zdiv_nonneg_iff)
  have j: "int j * every \<le> l + stale" "l + stale < (int j + 1) * every"
  proof -
    have "(l + stale) div every * every + (l + stale) mod every = l + stale" by (rule div_mult_mod_eq)
    moreover have "0 \<le> (l + stale) mod every" "(l + stale) mod every < every" using e(1) by simp_all
    moreover have "int j * every = (l + stale) div every * every" using d by (simp add: j_def)
    ultimately show "int j * every \<le> l + stale" "l + stale < (int j + 1) * every"
      unfolding distrib_right mult_1 by linarith+
  qed
  have le: "int x * every \<le> int y * every \<longleftrightarrow> x \<le> y" for x y using e(1) by simp
  have mj: "m \<le> j"
  proof -
    have "int m * every < (int j + 1) * every" using e(4) j(2) by linarith
    then show ?thesis using e(1) by (simp add: mult_less_cancel_right)
  qed
  have jm: "j < m'"
  proof -
    have "int j * every < int m' * every" using e(5) j(1) by linarith
    then show ?thesis using e(1) by (simp add: mult_less_cancel_right)
  qed
  have upt: "[m..<m'] = [m..<j] @ j # [Suc j..<m']"
    using mj jm by (metis upt_conv_Cons le_add_diff_inverse upt_add_eq_append less_imp_le)
  have fed: "(case answer_ping n stale l (int i * every) of Fed _ \<Rightarrow> True | Withheld _ \<Rightarrow> False) \<longleftrightarrow> i \<le> j"
    if "m \<le> i" "i < m'" for i
  proof -
    have b: "int m * every \<le> int i * every" "int i * every \<le> int m' * every" using le that by simp_all
    have "int i * every - l \<le> stale \<longleftrightarrow> i \<le> j"
    proof
      assume "int i * every - l \<le> stale"
      then have "int i * every < (int j + 1) * every" using j(2) by linarith
      then show "i \<le> j" using e(1) by (simp add: mult_less_cancel_right)
    next
      assume "i \<le> j"
      then have "int i * every \<le> int j * every" using le by simp
      then show "int i * every - l \<le> stale" using j(1) by linarith
    qed
    moreover have "l \<le> int i * every" "int i * every < 2 ^ 63" using b e(3,6) by linarith+
    ultimately show ?thesis using answer_fed [OF e(2)] by simp
  qed
  let ?fed = "\<lambda>p :: int \<times> answer. case p of (_, a) \<Rightarrow> (case a of Fed _ \<Rightarrow> True | Withheld _ \<Rightarrow> False)"
  let ?at = "\<lambda>i. (int i * every, answer_ping n stale l (int i * every))"
  have "filter ?fed (map ?at [Suc j..<m']) = []"
    using fed mj by (auto simp: filter_empty_conv)
  moreover have "?fed (?at j)" using fed [OF mj jm] by simp
  ultimately have "fed_times (before_answers @ watchdog_loop n stale l (ticks every m m'))
      = (fed_times before_answers @ fed_times (map ?at [m..<j])) @ [int j * every]"
    unfolding fed_times_def watchdog_loop_ticks upt by simp
  then show ?thesis using j by (simp add: algebra_simps)
qed

text \<open>
  C8: a wedged loop is ended in time. Let the ticker fire at every multiple of the period, half the
  unit's timeout, and let the loop complete its last pass at some instant, whatever happened before
  it. Then the last keep-alive goes out when that pass has become overdue or up to one period before,
  and systemd, which waits one timeout for the next, ends the service within the time the unit file
  states: for an interval of at most half the timeout, more than one and at most two timeouts after
  the loop stopped turning; and for a longer one, at most twice the interval and one timeout after.
\<close>

theorem wedged_loop_ended:
  assumes every: "watchdog_interval (p_env p) (p_pid p) = every" "0 < every" "every < 2 ^ 62"
    and interval: "0 < interval" "interval < 2 ^ 62"
    and past: "StopAsked \<notin> snd ` set past" "0 \<le> l"
    and ticking: "l < int m * every" "int m * every \<le> l + every"
      "l + max (2 * interval) (2 * every) < int m' * every" "int m' * every < 2 ^ 63"
  shows "let over = ended_at (2 * every) (watchdog p n interval (past @ (l, Passed) # ticks every m m')) in
      l + max (2 * interval) (2 * every) + every < over \<and> over \<le> l + max (2 * interval) (2 * every) + 2 * every
    \<and> (interval \<le> every \<longrightarrow> l + 2 * every < over \<and> over \<le> l + 2 * (2 * every))"
proof -
  let ?stale = "max (2 * interval) (2 * every)"
  have "stale_after interval every = ?stale"
    unfolding stale_after_def Let_def using every interval by (simp add: i64_id in_i64_def max_def)
  then have w: "watchdog p n interval (past @ (l, Passed) # ticks every m m')
      = watchdog_loop n ?stale 0 past @ watchdog_loop n ?stale l (ticks every m m')"
    using every past by (simp add: watchdog_def watchdog_loop_append)
  have "int m * every \<le> l + ?stale" using ticking(2) every(2) by linarith
  then obtain time where "last (0 # fed_times (watchdog_loop n ?stale 0 past @ watchdog_loop n ?stale l (ticks every m m'))) = time"
    "l + ?stale - every < time" "time \<le> l + ?stale"
    using last_fed [OF every(2) past(2) ticking(1) _ ticking(3,4)] by blast
  then show ?thesis unfolding w ended_at_def Let_def by auto
qed

theorem wedged_loop_ended_witness:
  "let over = ended_at (30 * second) (watchdog sample_platform (Some ''s'') (5 * second)
      ([(0, Passed), (5 * second, Passed)] @ (10 * second, Passed) # ticks (15 * second) 1 4)) in
    10 * second + 30 * second < over \<and> over \<le> 10 * second + 60 * second"
proof -
  have "watchdog_interval (p_env sample_platform) (p_pid sample_platform) = 15 * second" by code_simp
  from wedged_loop_ended [OF this, of "5 * second" "[(0, Passed), (5 * second, Passed)]" "10 * second" 1 4 "Some ''s''"]
  show ?thesis by (simp add: second_def Let_def)
qed

end
