(* ===== verification/Threads.thy ===== *)
theory Threads
  imports Watchdog
begin

text \<open>
  The two goroutines of a watching daemon together: the loop of \<open>internal/guard/guard.go\<close> with the
  observer \<open>run\<close> gives it, and the watchdog of \<open>cmd/slurm-temperature-check/main.go\<close>. They share
  the time of the last pass, an atomic variable, and the streams they write to; their steps interleave
  in any order. When the loop has ended, the watchdog may still run until the process is gone.
\<close>

section \<open>State\<close>

text \<open>
  Where the main goroutine is: between two of its effects on what the other one can see. A check is
  one step, since the other goroutine does not look at the file system. \<open>Storing\<close> holds the time that
  has been read and not yet been stored.
\<close>

datatype stage =
    Announcing
  | Starting
  | Checking guard
  | Reporting guard result
  | Passing guard result
  | Storing guard result int
  | Telling guard result
  | Deciding guard result
  | Waiting guard
  | Tripping "reason option"
  | Ended outcome

text \<open>
  Where the watchdog is. It answers a tick in three steps: it reads the clock, it loads the time of
  the last pass, and it sends or logs; the loop may store a pass in between.
\<close>

datatype watcher = Absent | Idle | Asking int | Answering int answer | Gone

datatype thread = Loop | Watcher

text \<open>
  The clock is the time since the watchdog was wired up. What is written carries the thread that
  wrote it. The last four fields are history: how each wait of the loop ended, its passes, the loads
  and stores of the shared variable in their order, and the answers given.
\<close>

record threads =
  t_stage :: stage
  t_watcher :: watcher
  t_last_pass :: int
  t_now :: int
  t_asked :: bool
  t_calls :: nat
  t_status :: string
  t_sent :: "(thread \<times> datagram) list"
  t_log :: "(thread \<times> level \<times> event) list"
  t_waits :: "wait list"
  t_passes :: "pass list"
  t_marks :: timeline
  t_answers :: "(int \<times> answer) list"

definition ping_period :: "platform \<Rightarrow> int" where
  "ping_period p = watchdog_interval (p_env p) (p_pid p)"

definition start_threads :: "platform \<Rightarrow> guard \<Rightarrow> nat \<Rightarrow> threads" where
  "start_threads p g t =
    \<lparr>t_stage = Announcing, t_watcher = (if ping_period p \<le> 0 then Absent else Idle), t_last_pass = 0,
     t_now = 0, t_asked = False, t_calls = t, t_status = [], t_sent = [],
     t_log = map (Pair Loop) (watchdog_lines p (g_interval g)), t_waits = [], t_passes = [],
     t_marks = [], t_answers = []\<rparr>"

definition tell :: "thread \<Rightarrow> datagram list \<Rightarrow> threads \<Rightarrow> threads" where
  "tell th ds st = st\<lparr>t_sent := t_sent st @ map (Pair th) ds\<rparr>"

definition jot :: "thread \<Rightarrow> journal \<Rightarrow> threads \<Rightarrow> threads" where
  "jot th ls st = st\<lparr>t_log := t_log st @ map (Pair th) ls\<rparr>"

section \<open>The loop\<close>

definition guard_lines :: "log_line list \<Rightarrow> journal" where
  "guard_lines lines = map (\<lambda>(l, m). (l, GuardEvent m)) lines"

text \<open>\<open>Run\<close>, but for what it waits for.\<close>

definition run_step :: "guard \<Rightarrow> world \<Rightarrow> threads \<Rightarrow> threads option" where
  "run_step g0 w st = (case t_stage st of
     Starting \<Rightarrow> Some (jot Loop (guard_lines [armed_line g0]) st\<lparr>t_stage := Checking g0\<rparr>)
   | Checking g \<Rightarrow>
       (case run_state (check g w) (t_calls st) of
          ((g', res), u) \<Rightarrow> Some (st\<lparr>t_stage := Reporting g' res, t_calls := u\<rparr>))
   | Reporting g res \<Rightarrow>
       (case report g res of
          (g', lines) \<Rightarrow> Some (jot Loop (guard_lines lines)
            st\<lparr>t_stage := Passing g' res, t_passes := t_passes st @ [(res, lines)]\<rparr>))
   | Deciding g res \<Rightarrow>
       Some (st\<lparr>t_stage := if r_verdict res = Trip then Tripping (r_err res) else Waiting g\<rparr>)
   | _ \<Rightarrow> None)"

text \<open>What its wait ends with: the ticker, or the cancelled context; if both are ready, either.\<close>

definition wait_step :: "wait \<Rightarrow> threads \<Rightarrow> threads option" where
  "wait_step wt st = (case t_stage st of
     Waiting g \<Rightarrow>
       (case wt of
          Tick \<Rightarrow> Some (st\<lparr>t_stage := Checking g, t_waits := t_waits st @ [Tick]\<rparr>)
        | Cancel \<Rightarrow>
            if t_asked st
            then Some (jot Loop (guard_lines (stop_lines g Stopped))
              st\<lparr>t_stage := Ended Stopped, t_waits := t_waits st @ [Cancel]\<rparr>)
            else None)
   | _ \<Rightarrow> None)"

text \<open>What \<open>run\<close> does around the loop, and the observer in it: the recorded pass, and the status.\<close>

definition store_pass :: "int \<Rightarrow> threads \<Rightarrow> threads" where
  "store_pass now st = st\<lparr>t_last_pass := now, t_marks := t_marks st @ [(now, Passed)]\<rparr>"

definition observe_status :: "notifier \<Rightarrow> guard \<Rightarrow> result \<Rightarrow> threads \<Rightarrow> threads" where
  "observe_status n g res st =
    (let line = status_line g res in
     if line = t_status st then st else tell Loop (notify_status n line) st\<lparr>t_status := line\<rparr>)"

definition command_step :: "platform \<Rightarrow> notifier \<Rightarrow> guard \<Rightarrow> threads \<Rightarrow> threads option" where
  "command_step p n g0 st = (case t_stage st of
     Announcing \<Rightarrow>
       Some (tell Loop
         (notify_ready n (''Watching '' @ src_name (g_sensors g0) @ '', limit '' @ mc_string (g_max g0)))
         st\<lparr>t_stage := Starting\<rparr>)
   | Passing g res \<Rightarrow>
       Some (st\<lparr>t_stage := if ping_period p \<le> 0 then Telling g res else Storing g res (t_now st)\<rparr>)
   | Storing g res now \<Rightarrow> Some (store_pass now st\<lparr>t_stage := Telling g res\<rparr>)
   | Telling g res \<Rightarrow> Some (observe_status n g0 res st\<lparr>t_stage := Deciding g res\<rparr>)
   | Tripping why \<Rightarrow>
       Some (tell Loop (notify_status n (''Tripped: '' @ tripped_text (p_printable p) why))
         st\<lparr>t_stage := Ended (GuardTripped why)\<rparr>)
   | _ \<Rightarrow> None)"

section \<open>The watchdog\<close>

text \<open>A tick answered, step by step, and the end of the goroutine once the context is cancelled.\<close>

definition act_on :: "int \<Rightarrow> answer \<Rightarrow> threads \<Rightarrow> threads" where
  "act_on now a st = jot Watcher (watchdog_log [(now, a)])
    (tell Watcher (case a of Fed ds \<Rightarrow> ds | Withheld _ \<Rightarrow> []) st\<lparr>t_answers := t_answers st @ [(now, a)]\<rparr>)"

definition watcher_step :: "notifier \<Rightarrow> int \<Rightarrow> threads \<Rightarrow> threads option" where
  "watcher_step n stale st = (case t_watcher st of
     Idle \<Rightarrow> Some (st\<lparr>t_watcher := Asking (t_now st)\<rparr>)
   | Asking now \<Rightarrow>
       Some (st\<lparr>t_watcher := Answering now (answer_ping n stale (t_last_pass st) now),
         t_marks := t_marks st @ [(now, PingDue)]\<rparr>)
   | Answering now a \<Rightarrow> Some (act_on now a st\<lparr>t_watcher := Idle\<rparr>)
   | _ \<Rightarrow> None)"

definition watcher_stop :: "threads \<Rightarrow> threads option" where
  "watcher_stop st =
    (if t_watcher st = Idle \<and> t_asked st
     then Some (st\<lparr>t_watcher := Gone, t_marks := t_marks st @ [(t_now st, StopAsked)]\<rparr>) else None)"

section \<open>Their interleavings\<close>

text \<open>Besides the goroutines, time passes and a signal cancels the context.\<close>

datatype action = Command | Run | Wait wait | Watch | Leave | Elapse nat | Signal

definition advance :: "platform \<Rightarrow> notifier \<Rightarrow> guard \<Rightarrow> world \<Rightarrow> action \<Rightarrow> threads \<Rightarrow> threads option" where
  "advance p n g w a st = (case a of
     Command \<Rightarrow> command_step p n g st
   | Run \<Rightarrow> run_step g w st
   | Wait wt \<Rightarrow> wait_step wt st
   | Watch \<Rightarrow> watcher_step n (stale_after (g_interval g) (ping_period p)) st
   | Leave \<Rightarrow> watcher_stop st
   | Elapse ns \<Rightarrow> if t_now st + int ns < 2 ^ 63 then Some (st\<lparr>t_now := t_now st + int ns\<rparr>) else None
   | Signal \<Rightarrow> Some (st\<lparr>t_asked := True\<rparr>))"

fun schedule :: "platform \<Rightarrow> notifier \<Rightarrow> guard \<Rightarrow> world \<Rightarrow> action list \<Rightarrow> threads \<Rightarrow> threads option" where
  "schedule p n g w [] st = Some st"
| "schedule p n g w (a # as) st =
    (case advance p n g w a st of None \<Rightarrow> None | Some st' \<Rightarrow> schedule p n g w as st')"

inductive reached :: "platform \<Rightarrow> notifier \<Rightarrow> guard \<Rightarrow> world \<Rightarrow> nat \<Rightarrow> threads \<Rightarrow> bool" for p n g w t0 where
  initial: "reached p n g w t0 (start_threads p g t0)"
| further: "reached p n g w t0 st'" if "reached p n g w t0 st" "advance p n g w a st = Some st'"

lemma schedule_reached:
  "reached p n g w t0 st \<Longrightarrow> schedule p n g w as st = Some st' \<Longrightarrow> reached p n g w t0 st'"
  by (induction "as" arbitrary: st) (auto split: option.splits intro: reached.further)

end
