(* ===== verification/Threads_Invariant.thy ===== *)
theory Threads_Invariant
  imports Threads
begin

text \<open>
  One invariant per goroutine, each kept by the steps of both: the loop has done what the sequential
  loop does, and the watchdog has answered as the sequential one does that sees the loads and stores
  of the shared variable in their order.
\<close>

section \<open>A thread's share of what is written\<close>

definition share :: "thread \<Rightarrow> (thread \<times> 'a) list \<Rightarrow> 'a list" where
  "share th xs = map snd (filter (\<lambda>x. fst x = th) xs)"

lemma share_simps [simp]:
  "share th [] = []" "share th (xs @ ys) = share th xs @ share th ys"
  "share th (map (Pair th') zs) = (if th = th' then zs else [])"
  "share th [(th', z)] = (if th = th' then [z] else [])"
  by (simp_all add: share_def filter_map comp_def)

lemma share_shuffles: "map snd xs \<in> shuffles (share Loop xs) (share Watcher xs)"
proof (induction xs)
  case (Cons x xs)
  obtain th y where x: "x = (th, y)" by (cases x)
  show ?case
    using Cons x by (cases th) (simp_all add: share_def Cons_in_shuffles_leftI Cons_in_shuffles_rightI)
qed simp

lemma written [simp]:
  "t_sent (tell th ds st) = t_sent st @ map (Pair th) ds" "t_log (tell th ds st) = t_log st"
  "t_sent (jot th ls st) = t_sent st" "t_log (jot th ls st) = t_log st @ map (Pair th) ls"
  "t_stage (tell th ds st) = t_stage st" "t_stage (jot th ls st) = t_stage st"
  "t_passes (tell th ds st) = t_passes st" "t_passes (jot th ls st) = t_passes st"
  "t_waits (tell th ds st) = t_waits st" "t_waits (jot th ls st) = t_waits st"
  "t_calls (tell th ds st) = t_calls st" "t_calls (jot th ls st) = t_calls st"
  "t_status (tell th ds st) = t_status st" "t_status (jot th ls st) = t_status st"
  "t_watcher (tell th ds st) = t_watcher st" "t_watcher (jot th ls st) = t_watcher st"
  "t_last_pass (tell th ds st) = t_last_pass st" "t_last_pass (jot th ls st) = t_last_pass st"
  "t_now (tell th ds st) = t_now st" "t_now (jot th ls st) = t_now st"
  "t_asked (tell th ds st) = t_asked st" "t_asked (jot th ls st) = t_asked st"
  "t_marks (tell th ds st) = t_marks st" "t_marks (jot th ls st) = t_marks st"
  "t_answers (tell th ds st) = t_answers st" "t_answers (jot th ls st) = t_answers st"
  by (simp_all add: tell_def jot_def)

section \<open>The loop, resumed\<close>

definition untripped :: "pass list \<Rightarrow> bool" where
  "untripped ps \<longleftrightarrow> (\<forall>p \<in> set ps. r_verdict (fst p) \<noteq> Trip)"

lemma untripped_simps [simp]:
  "untripped []" "untripped (ps @ [p]) \<longleftrightarrow> untripped ps \<and> r_verdict (fst p) \<noteq> Trip"
  by (auto simp: untripped_def)

lemma untripped_last: "untripped ps \<Longrightarrow> ps = [] \<or> r_verdict (fst (last ps)) \<noteq> Trip"
  by (auto simp: untripped_def)

lemma run_loop_resumed:
  assumes "guard_run w g0 t0 ps g t" "untripped ps"
  shows "run_state (run_loop g0 (replicate (length ps) Tick @ ws) w) t0
    = (case run_state (run_loop g ws w) t of ((out, qs, g'), u) \<Rightarrow> ((out, ps @ qs, g'), u))"
  using assms
proof (induction arbitrary: ws rule: guard_run.induct)
  case start
  then show ?case by (simp split: prod.splits)
next
  case (pass ps g t g1 res u g2 lines)
  have "replicate (length (ps @ [(res, lines)])) Tick @ ws = replicate (length ps) Tick @ (Tick # ws)"
    by (simp add: replicate_app_Cons_same)
  moreover have "run_state (run_loop g (Tick # ws) w) t
      = (case run_state (run_loop g2 ws w) u of ((out, qs, g3), v) \<Rightarrow> ((out, (res, lines) # qs, g3), v))"
    using pass.hyps(3,4) pass.prems by (simp add: run_loop_step [of g])
  ultimately show ?case using pass.IH [of "Tick # ws"] pass.prems by (auto split: prod.splits)
qed

text \<open>What the loop returns from its last pass on, if it waits no more, is stopped, or has tripped.\<close>

lemma run_loop_last:
  assumes "guard_run w g0 t0 ps g t" "ps \<noteq> []" "untripped (butlast ps)" "ws = [] \<or> hd ws = Cancel"
  shows "run_state (run_loop g0 (replicate (length ps - 1) Tick @ ws) w) t0 =
    ((if r_verdict (fst (last ps)) = Trip then GuardTripped (r_err (fst (last ps)))
      else if ws = [] then Running else Stopped, ps, g), t)"
  using assms(1)
proof (cases rule: guard_run.cases)
  case start
  then show ?thesis using assms(2) by simp
next
  case (pass qs g1 t1 g2 res lines)
  have "untripped qs" using assms(3) pass(1) by simp
  from run_loop_resumed [OF pass(2) this, of ws] show ?thesis
    using pass assms(4) by (cases ws) (auto simp: run_loop_step [of g1] split: wait.split)
qed

lemma report_status_snoc:
  "report_status n g prev (rs @ [r]) = report_status n g prev rs
    @ (if status_line g r = last (prev # map (status_line g) rs) then [] else notify_status n (status_line g r))"
  by (induction rs arbitrary: prev) (simp_all add: Let_def)

section \<open>The loop's invariant\<close>

text \<open>What the loop has written when it has logged some passes and told the status of some of them.\<close>

definition ready_sent :: "notifier \<Rightarrow> guard \<Rightarrow> datagram list" where
  "ready_sent n g = notify_ready n (''Watching '' @ src_name (g_sensors g) @ '', limit '' @ mc_string (g_max g))"

definition loop_log :: "platform \<Rightarrow> guard \<Rightarrow> pass list \<Rightarrow> journal" where
  "loop_log p g ps = watchdog_lines p (g_interval g) @ guard_lines (armed_line g # concat (map snd ps))"

definition so_far :: "platform \<Rightarrow> notifier \<Rightarrow> guard \<Rightarrow> threads \<Rightarrow> pass list \<Rightarrow> nat \<Rightarrow> bool" where
  "so_far p n g st told k \<longleftrightarrow>
    share Loop (t_sent st) = ready_sent n g @ report_status n g [] (map fst told)
    \<and> t_status st = last ([] # map (status_line g) (map fst told))
    \<and> share Loop (t_log st) = loop_log p g (t_passes st) \<and> t_waits st = replicate k Tick"

text \<open>A loop that has ended has done what \<open>watch\<close> does.\<close>

definition ended_as :: "platform \<Rightarrow> notifier \<Rightarrow> guard \<Rightarrow> world \<Rightarrow> nat \<Rightarrow> threads \<Rightarrow> outcome \<Rightarrow> bool" where
  "ended_as p n g w t0 st out \<longleftrightarrow>
    (\<exists>g'. run_state (run_loop g (t_waits st) w) t0 = ((out, t_passes st, g'), t_calls st)
      \<and> share Loop (t_log st) = loop_log p g (t_passes st) @ guard_lines (stop_lines g' out)
      \<and> share Loop (t_sent st) = ready_sent n g @ report_status n g [] (map fst (t_passes st))
        @ (case out of GuardTripped why \<Rightarrow> notify_status n (''Tripped: '' @ tripped_text (p_printable p) why)
           | _ \<Rightarrow> []))"

definition loop_inv :: "platform \<Rightarrow> notifier \<Rightarrow> guard \<Rightarrow> world \<Rightarrow> nat \<Rightarrow> threads \<Rightarrow> bool" where
  "loop_inv p n g0 w t0 st \<longleftrightarrow>
    (let ps = t_passes st;
         logged_pass = (\<lambda>g res told. \<exists>qs lines. ps = qs @ [(res, lines)] \<and> untripped qs
           \<and> guard_run w g0 t0 ps g (t_calls st) \<and> so_far p n g0 st (told ps qs) (length qs))
     in case t_stage st of
       Announcing \<Rightarrow> ps = [] \<and> t_waits st = [] \<and> t_calls st = t0 \<and> t_status st = []
         \<and> share Loop (t_sent st) = [] \<and> share Loop (t_log st) = watchdog_lines p (g_interval g0)
     | Starting \<Rightarrow> ps = [] \<and> t_waits st = [] \<and> t_calls st = t0 \<and> t_status st = []
         \<and> share Loop (t_sent st) = ready_sent n g0 \<and> share Loop (t_log st) = watchdog_lines p (g_interval g0)
     | Checking g \<Rightarrow> guard_run w g0 t0 ps g (t_calls st) \<and> untripped ps \<and> so_far p n g0 st ps (length ps)
     | Reporting g res \<Rightarrow> (\<exists>g1 t. guard_run w g0 t0 ps g1 t \<and> untripped ps
         \<and> run_state (check g1 w) t = ((g, res), t_calls st) \<and> so_far p n g0 st ps (length ps))
     | Passing g res \<Rightarrow> logged_pass g res (\<lambda>ps qs. qs)
     | Storing g res _ \<Rightarrow> logged_pass g res (\<lambda>ps qs. qs)
     | Telling g res \<Rightarrow> logged_pass g res (\<lambda>ps qs. qs)
     | Deciding g res \<Rightarrow> logged_pass g res (\<lambda>ps qs. ps)
     | Waiting g \<Rightarrow> guard_run w g0 t0 ps g (t_calls st) \<and> untripped ps \<and> ps \<noteq> []
         \<and> so_far p n g0 st ps (length ps - 1)
     | Tripping why \<Rightarrow> (\<exists>g res lines qs. ps = qs @ [(res, lines)] \<and> untripped qs
         \<and> guard_run w g0 t0 ps g (t_calls st) \<and> so_far p n g0 st ps (length qs)
         \<and> r_verdict res = Trip \<and> why = r_err res)
     | Ended out \<Rightarrow> out \<noteq> Running \<and> ended_as p n g0 w t0 st out)"

lemmas loop_inv_defs = loop_inv_def so_far_def Let_def

lemma loop_inv_start: "loop_inv p n g w t0 (start_threads p g t0)"
  by (simp add: loop_inv_def start_threads_def Let_def)

lemma guard_lines_append [simp]: "guard_lines (xs @ ys) = guard_lines xs @ guard_lines ys"
  by (simp add: guard_lines_def)

lemma loop_log_snoc [simp]: "loop_log p g (ps @ [(res, lines)]) = loop_log p g ps @ guard_lines lines"
  by (simp add: loop_log_def guard_lines_def)

lemma run_step_inv:
  assumes "loop_inv p n g0 w t0 st" "run_step g0 w st = Some st'"
  shows "loop_inv p n g0 w t0 st'"
proof (cases "t_stage st")
  case Starting
  then show ?thesis using assms
    by (auto simp: run_step_def loop_inv_defs loop_log_def guard_lines_def guard_run.start)
next
  case (Checking g)
  obtain g1 res u where c: "run_state (check g w) (t_calls st) = ((g1, res), u)" by (metis prod.collapse)
  then have "st' = st\<lparr>t_stage := Reporting g1 res, t_calls := u\<rparr>" using assms(2) Checking by (simp add: run_step_def)
  then show ?thesis using assms(1) Checking c by (simp add: loop_inv_defs) blast
next
  case (Reporting g res)
  obtain g2 lines where r: "report g res = (g2, lines)" by (cases "report g res")
  obtain g1 t where g1: "guard_run w g0 t0 (t_passes st) g1 t" "untripped (t_passes st)"
    "run_state (check g1 w) t = ((g, res), t_calls st)" "so_far p n g0 st (t_passes st) (length (t_passes st))"
    using assms(1) Reporting by (auto simp: loop_inv_def Let_def)
  have "guard_run w g0 t0 (t_passes st @ [(res, lines)]) g2 (t_calls st)"
    by (rule guard_run.pass [OF g1(1) untripped_last [OF g1(2)] g1(3) r])
  then show ?thesis using assms(2) Reporting r g1(2,4)
    by (auto simp: run_step_def loop_inv_defs)
next
  case (Deciding g res)
  then show ?thesis using assms by (auto simp: run_step_def loop_inv_defs)
qed (use assms in \<open>simp_all add: run_step_def\<close>)

lemma wait_step_inv:
  assumes "loop_inv p n g0 w t0 st" "wait_step wt st = Some st'"
  shows "loop_inv p n g0 w t0 st'"
proof (cases "t_stage st")
  case (Waiting g)
  then have inv: "guard_run w g0 t0 (t_passes st) g (t_calls st)" "untripped (t_passes st)" "t_passes st \<noteq> []"
    "so_far p n g0 st (t_passes st) (length (t_passes st) - 1)"
    using assms(1) by (auto simp: loop_inv_def Let_def)
  show ?thesis
  proof (cases wt)
    case Tick
    have "replicate (length (t_passes st) - 1) Tick @ [Tick] = replicate (length (t_passes st)) Tick"
      using inv(3) by (metis Suc_pred' length_greater_0_conv replicate_Suc replicate_append_same)
    then show ?thesis using assms(2) Waiting Tick inv
      by (auto simp: wait_step_def loop_inv_defs)
  next
    case Cancel
    have "untripped (butlast (t_passes st))" "r_verdict (fst (last (t_passes st))) \<noteq> Trip"
      using inv(2,3) by (auto simp: untripped_def dest: in_set_butlastD)
    then have "run_state (run_loop g0 (replicate (length (t_passes st) - 1) Tick @ [Cancel]) w) t0
        = ((Stopped, t_passes st, g), t_calls st)"
      using run_loop_last [OF inv(1,3), of "[Cancel]"] by simp
    then show ?thesis using assms(2) Waiting Cancel inv(4)
      by (auto simp: wait_step_def loop_inv_defs ended_as_def stop_lines_def split: if_splits)
  qed
qed (use assms in \<open>simp_all add: wait_step_def\<close>)

lemma command_step_inv:
  assumes "loop_inv p n g0 w t0 st" "command_step p n g0 st = Some st'"
  shows "loop_inv p n g0 w t0 st'"
proof (cases "t_stage st")
  case Announcing
  then show ?thesis using assms by (auto simp: command_step_def loop_inv_defs ready_sent_def)
next
  case (Passing g res)
  then show ?thesis using assms by (auto simp: command_step_def loop_inv_defs)
next
  case (Storing g res now)
  then show ?thesis using assms by (auto simp: command_step_def loop_inv_defs store_pass_def)
next
  case (Telling g res)
  obtain qs lines where qs: "t_passes st = qs @ [(res, lines)]" "untripped qs"
    "guard_run w g0 t0 (t_passes st) g (t_calls st)" "so_far p n g0 st qs (length qs)"
    using assms(1) Telling by (auto simp: loop_inv_def Let_def)
  have o: "t_passes (observe_status n g0 res st) = t_passes st" "t_calls (observe_status n g0 res st) = t_calls st"
    by (simp_all add: observe_status_def Let_def)
  have "so_far p n g0 (observe_status n g0 res st) (qs @ [(res, lines)]) (length qs)"
    using qs(4) by (simp add: so_far_def observe_status_def Let_def report_status_snoc del: map_map)
  then have "so_far p n g0 (observe_status n g0 res st\<lparr>t_stage := Deciding g res\<rparr>) (t_passes st) (length qs)"
    using qs(1) by (simp add: so_far_def)
  then show ?thesis using assms(2) Telling qs o by (auto simp: command_step_def loop_inv_def Let_def)
next
  case (Tripping why)
  then obtain g res lines qs where qs: "t_passes st = qs @ [(res, lines)]" "untripped qs"
    "guard_run w g0 t0 (t_passes st) g (t_calls st)" "so_far p n g0 st (t_passes st) (length qs)"
    "r_verdict res = Trip" "why = r_err res"
    using assms(1) by (auto simp: loop_inv_def Let_def)
  have "run_state (run_loop g0 (replicate (length qs) Tick) w) t0 = ((GuardTripped why, t_passes st, g), t_calls st)"
    using run_loop_last [OF qs(3), of "[]"] qs(1,2,5,6) by simp
  then show ?thesis using assms(2) Tripping qs(4)
    by (auto simp: command_step_def loop_inv_defs ended_as_def stop_lines_def guard_lines_def)
qed (use assms in \<open>simp_all add: command_step_def\<close>)

text \<open>The watchdog's steps, the clock and the signal do not touch what the loop has done.\<close>

definition same_loop :: "threads \<Rightarrow> threads \<Rightarrow> bool" where
  "same_loop st st' \<longleftrightarrow> t_stage st' = t_stage st \<and> t_passes st' = t_passes st \<and> t_waits st' = t_waits st
    \<and> t_calls st' = t_calls st \<and> t_status st' = t_status st
    \<and> share Loop (t_sent st') = share Loop (t_sent st) \<and> share Loop (t_log st') = share Loop (t_log st)"

lemma same_loop_inv: "same_loop st st' \<Longrightarrow> loop_inv p n g w t0 st \<Longrightarrow> loop_inv p n g w t0 st'"
  by (cases "t_stage st") (simp_all add: same_loop_def loop_inv_defs ended_as_def)

lemma watcher_same_loop: "watcher_step n stale st = Some st' \<Longrightarrow> same_loop st st'"
  by (auto simp: watcher_step_def act_on_def same_loop_def split: watcher.splits)

lemma other_same_loop:
  "watcher_stop st = Some st' \<Longrightarrow> same_loop st st'"
  "same_loop st (st\<lparr>t_now := t\<rparr>)" "same_loop st (st\<lparr>t_asked := b\<rparr>)"
  by (auto simp: watcher_stop_def same_loop_def split: if_splits)

lemma reached_loop_inv: "reached p n g w t0 st \<Longrightarrow> loop_inv p n g w t0 st"
proof (induction rule: reached.induct)
  case (further st a st')
  then show ?case
    by (cases a) (auto simp: advance_def split: if_splits
        intro: run_step_inv command_step_inv wait_step_inv same_loop_inv other_same_loop watcher_same_loop)
qed (rule loop_inv_start)

section \<open>The watchdog's invariant\<close>

definition passed_at :: "timeline \<Rightarrow> int list" where
  "passed_at evs = map fst (filter (\<lambda>ev. snd ev = Passed) evs)"

lemma passed_at_snoc [simp]:
  "passed_at [] = []" "passed_at (evs @ [(t, e)]) = passed_at evs @ (if e = Passed then [t] else [])"
  by (simp_all add: passed_at_def)

lemma last_pass_at: "last_pass_in l evs = last (l # passed_at evs)"
  by (simp add: last_pass_in_def passed_at_def)

lemma sorted_last: "sorted (l # xs) \<Longrightarrow> v \<in> set (l # xs) \<Longrightarrow> v \<le> last (l # xs :: int list)"
  by (induction xs arbitrary: l) auto

text \<open>A history of the shared variable, and what it holds in the end.\<close>

definition stores_ok :: "int \<Rightarrow> timeline \<Rightarrow> bool" where
  "stores_ok l evs \<longleftrightarrow> l = last (0 # passed_at evs) \<and> sorted (0 # passed_at evs) \<and> (\<forall>ev \<in> set evs. time_ok (fst ev))"

lemma stores_ok_Nil [simp]: "stores_ok 0 []"
  by (simp add: stores_ok_def)

lemma stores_ok_other: "stores_ok l evs \<Longrightarrow> time_ok t \<Longrightarrow> e \<noteq> Passed \<Longrightarrow> stores_ok l (evs @ [(t, e)])"
  by (auto simp: stores_ok_def)

lemma stores_ok_pass:
  assumes "stores_ok l evs" "l \<le> t" "time_ok t"
  shows "stores_ok t (evs @ [(t, Passed)])"
proof -
  have s: "sorted (0 # passed_at evs)" "l = last (0 # passed_at evs)" using assms(1) by (simp_all add: stores_ok_def)
  have "\<forall>v \<in> set (0 # passed_at evs). v \<le> t" using sorted_last [OF s(1)] s(2) assms(2) by fastforce
  then show ?thesis using assms s(1) by (auto simp: stores_ok_def sorted_append)
qed

definition pending :: "threads \<Rightarrow> (int \<times> answer) list" where
  "pending st = (case t_watcher st of Answering now a \<Rightarrow> [(now, a)] | _ \<Rightarrow> [])"

definition alive_sent :: "(int \<times> answer) list \<Rightarrow> datagram list" where
  "alive_sent answers = concat (map (\<lambda>(_, a). case a of Fed ds \<Rightarrow> ds | Withheld _ \<Rightarrow> []) answers)"

text \<open>
  The clock has not wrapped around, and nothing holds a time that is still to come. The passes are
  stored in the order of their times, and the watchdog has answered, or is about to, as the sequential
  one does that sees the loads and the stores in their order.
\<close>

definition times_inv :: "threads \<Rightarrow> bool" where
  "times_inv st \<longleftrightarrow> 0 \<le> t_last_pass st \<and> t_last_pass st \<le> t_now st \<and> t_now st < 2 ^ 63
    \<and> (\<forall>g res t. t_stage st = Storing g res t \<longrightarrow> t_last_pass st \<le> t \<and> t \<le> t_now st)
    \<and> (\<forall>t. t_watcher st = Asking t \<longrightarrow> 0 \<le> t \<and> t \<le> t_now st)
    \<and> stores_ok (t_last_pass st) (t_marks st)"

definition answers_inv :: "platform \<Rightarrow> notifier \<Rightarrow> guard \<Rightarrow> threads \<Rightarrow> bool" where
  "answers_inv p n g st \<longleftrightarrow>
    t_answers st @ pending st = watchdog_loop n (stale_after (g_interval g) (ping_period p)) 0 (t_marks st)
    \<and> (StopAsked \<in> snd ` set (t_marks st) \<longleftrightarrow> t_watcher st = Gone)
    \<and> share Watcher (t_sent st) = alive_sent (t_answers st)
    \<and> share Watcher (t_log st) = watchdog_log (t_answers st)
    \<and> (t_watcher st = Absent \<longleftrightarrow> ping_period p \<le> 0) \<and> (ping_period p \<le> 0 \<longrightarrow> t_marks st = [])
    \<and> (\<forall>g' res t. t_stage st = Storing g' res t \<longrightarrow> 0 < ping_period p)"

lemma alive_sent_snoc [simp]:
  "alive_sent [] = []" "alive_sent (as @ [(now, a)]) = alive_sent as @ (case a of Fed ds \<Rightarrow> ds | Withheld _ \<Rightarrow> [])"
  by (simp_all add: alive_sent_def)

lemma watchdog_log_snoc [simp]:
  "watchdog_log [] = []" "watchdog_log (as @ [x]) = watchdog_log as @ watchdog_log [x]"
  by (simp_all add: watchdog_log_def)

text \<open>The steps of the loop, but for the store, leave the watchdog's part as it is.\<close>

definition same_watcher :: "platform \<Rightarrow> threads \<Rightarrow> threads \<Rightarrow> bool" where
  "same_watcher p st st' \<longleftrightarrow> t_watcher st' = t_watcher st \<and> t_last_pass st' = t_last_pass st
    \<and> t_marks st' = t_marks st \<and> t_answers st' = t_answers st \<and> t_now st' = t_now st
    \<and> share Watcher (t_sent st') = share Watcher (t_sent st)
    \<and> share Watcher (t_log st') = share Watcher (t_log st)
    \<and> (\<forall>g res t. t_stage st' = Storing g res t \<longrightarrow> t = t_now st \<and> 0 < ping_period p)"

lemma same_watcher_inv:
  assumes "same_watcher p st st'" "times_inv st" "answers_inv p n g st"
  shows "times_inv st' \<and> answers_inv p n g st'"
proof -
  have e: "t_watcher st' = t_watcher st" "t_last_pass st' = t_last_pass st" "t_marks st' = t_marks st"
    "t_answers st' = t_answers st" "t_now st' = t_now st" "share Watcher (t_sent st') = share Watcher (t_sent st)"
    "share Watcher (t_log st') = share Watcher (t_log st)"
    and s: "\<And>g res t. t_stage st' = Storing g res t \<Longrightarrow> t = t_now st \<and> 0 < ping_period p"
    using assms(1) by (simp_all add: same_watcher_def)
  have "times_inv st'" using assms(2) by (simp add: times_inv_def e) (use s in blast)
  moreover have "answers_inv p n g st'" using assms(3) by (simp add: answers_inv_def pending_def e) (use s in blast)
  ultimately show ?thesis by blast
qed

lemma run_same_watcher: "run_step g w st = Some st' \<Longrightarrow> same_watcher p st st'"
  by (auto simp: run_step_def same_watcher_def split: stage.splits prod.splits if_splits)

lemma wait_same_watcher: "wait_step wt st = Some st' \<Longrightarrow> same_watcher p st st'"
  by (auto simp: wait_step_def same_watcher_def split: stage.splits wait.splits if_splits)

lemma observe_same [simp]:
  "t_watcher (observe_status n g res st) = t_watcher st" "t_last_pass (observe_status n g res st) = t_last_pass st"
  "t_marks (observe_status n g res st) = t_marks st" "t_answers (observe_status n g res st) = t_answers st"
  "t_now (observe_status n g res st) = t_now st" "t_log (observe_status n g res st) = t_log st"
  "share Watcher (t_sent (observe_status n g res st)) = share Watcher (t_sent st)"
  by (simp_all add: observe_status_def Let_def)

lemma command_same_watcher:
  "command_step p n g st = Some st' \<Longrightarrow> (\<And>g res t. t_stage st \<noteq> Storing g res t) \<Longrightarrow> same_watcher p st st'"
  by (cases "t_stage st") (auto simp: command_step_def same_watcher_def split: if_splits)

lemma store_inv:
  assumes "times_inv st" "answers_inv p n g0 st" "t_stage st = Storing g res t"
  shows "times_inv (store_pass t st\<lparr>t_stage := Telling g res\<rparr>)
    \<and> answers_inv p n g0 (store_pass t st\<lparr>t_stage := Telling g res\<rparr>)"
proof
  have t: "t_last_pass st \<le> t" "t \<le> t_now st" "0 \<le> t_last_pass st" "t_now st < 2 ^ 63"
    using assms by (auto simp: times_inv_def)
  then have "stores_ok t (t_marks st @ [(t, Passed)])"
    using assms(1) by (intro stores_ok_pass) (simp_all add: times_inv_def time_ok_def)
  then show "times_inv (store_pass t st\<lparr>t_stage := Telling g res\<rparr>)"
    using assms(1) t by (simp add: times_inv_def store_pass_def)
  have "watchdog_loop n stale 0 (t_marks st @ [(t, Passed)]) = watchdog_loop n stale 0 (t_marks st)" for stale
    by (cases "StopAsked \<in> snd ` set (t_marks st)") (simp_all add: watchdog_loop_append watchdog_loop_stopped)
  then show "answers_inv p n g0 (store_pass t st\<lparr>t_stage := Telling g res\<rparr>)"
    using assms by (auto simp: answers_inv_def store_pass_def pending_def)
qed

lemma watcher_step_inv:
  assumes "times_inv st" "answers_inv p n g st"
    and "watcher_step n (stale_after (g_interval g) (ping_period p)) st = Some st'"
  shows "times_inv st' \<and> answers_inv p n g st'"
proof (cases "t_watcher st")
  case Idle
  then have "st' = st\<lparr>t_watcher := Asking (t_now st)\<rparr>" using assms(3) by (simp add: watcher_step_def)
  then show ?thesis using assms(1,2) Idle
    by (simp add: times_inv_def answers_inv_def pending_def)
next
  case (Asking now)
  let ?a = "answer_ping n (stale_after (g_interval g) (ping_period p)) (t_last_pass st) now"
  have "StopAsked \<notin> snd ` set (t_marks st)" "t_last_pass st = last_pass_in 0 (t_marks st)" "time_ok now"
    "0 < ping_period p"
    using assms(1,2) Asking by (auto simp: answers_inv_def times_inv_def last_pass_at time_ok_def stores_ok_def)
  moreover have "st' = st\<lparr>t_watcher := Answering now ?a, t_marks := t_marks st @ [(now, PingDue)]\<rparr>"
    using assms(3) Asking by (simp add: watcher_step_def)
  ultimately show ?thesis using assms(1,2) Asking
    by (simp add: times_inv_def answers_inv_def pending_def watchdog_loop_append stores_ok_other)
next
  case (Answering now a)
  then have st: "st' = act_on now a st\<lparr>t_watcher := Idle\<rparr>" using assms(3) by (simp add: watcher_step_def)
  have "t_answers st' = t_answers st @ [(now, a)]" by (simp add: st act_on_def)
  moreover have "share Watcher (t_sent st') = alive_sent (t_answers st @ [(now, a)])"
    "share Watcher (t_log st') = watchdog_log (t_answers st @ [(now, a)])"
    using assms(2) by (simp_all add: st act_on_def answers_inv_def)
  moreover have "watchdog_loop n (stale_after (g_interval g) (ping_period p)) 0 (t_marks st) = t_answers st @ [(now, a)]"
    using assms(2) Answering by (simp add: answers_inv_def pending_def)
  ultimately have "answers_inv p n g st'" using assms(2) Answering
    by (simp add: answers_inv_def pending_def) (simp add: st act_on_def)
  then show ?thesis using assms(1) Answering by (simp add: st act_on_def times_inv_def)
qed (use assms(3) in \<open>simp_all add: watcher_step_def\<close>)

lemma watcher_stop_inv:
  assumes "times_inv st" "answers_inv p n g st" "watcher_stop st = Some st'"
  shows "times_inv st' \<and> answers_inv p n g st'"
proof -
  have idle: "t_watcher st = Idle" "st' = st\<lparr>t_watcher := Gone, t_marks := t_marks st @ [(t_now st, StopAsked)]\<rparr>"
    using assms(3) by (auto simp: watcher_stop_def split: if_splits)
  have "StopAsked \<notin> snd ` set (t_marks st)" "0 < ping_period p" "time_ok (t_now st)"
    using assms(1,2) idle(1) by (auto simp: answers_inv_def times_inv_def time_ok_def)
  then show ?thesis using assms(1,2) idle
    by (simp add: times_inv_def answers_inv_def pending_def watchdog_loop_append stores_ok_other)
qed

lemma elapse_inv:
  assumes "times_inv st" "answers_inv p n g st" "t_now st + int ns < 2 ^ 63"
  shows "times_inv (st\<lparr>t_now := t_now st + int ns\<rparr>) \<and> answers_inv p n g (st\<lparr>t_now := t_now st + int ns\<rparr>)"
  using assms by (fastforce simp: times_inv_def answers_inv_def pending_def)

lemma signal_inv:
  "times_inv st \<Longrightarrow> answers_inv p n g st \<Longrightarrow> times_inv (st\<lparr>t_asked := True\<rparr>) \<and> answers_inv p n g (st\<lparr>t_asked := True\<rparr>)"
  by (simp add: times_inv_def answers_inv_def pending_def)

lemma watcher_inv_start: "times_inv (start_threads p g t) \<and> answers_inv p n g (start_threads p g t)"
  by (auto simp: times_inv_def answers_inv_def pending_def start_threads_def)

lemma command_step_watcher_inv:
  assumes "times_inv st" "answers_inv p n g st" "command_step p n g st = Some st'"
  shows "times_inv st' \<and> answers_inv p n g st'"
proof (cases "\<exists>g res t. t_stage st = Storing g res t")
  case True
  then obtain g' res t where s: "t_stage st = Storing g' res t" by blast
  then have "st' = store_pass t st\<lparr>t_stage := Telling g' res\<rparr>" using assms(3) by (simp add: command_step_def)
  then show ?thesis using store_inv [OF assms(1,2) s] by simp
next
  case False
  then have "same_watcher p st st'" using command_same_watcher [OF assms(3)] by blast
  then show ?thesis using same_watcher_inv assms(1,2) by blast
qed

lemma reached_watcher_inv: "reached p n g w t0 st \<Longrightarrow> times_inv st \<and> answers_inv p n g st"
proof (induction rule: reached.induct)
  case initial
  show ?case by (rule watcher_inv_start)
next
  case (further st a st')
  then have inv: "times_inv st" "answers_inv p n g st" by blast+
  note step = further.hyps(2) [unfolded advance_def]
  show ?case
  proof (cases a)
    case Command
    then show ?thesis using step command_step_watcher_inv [OF inv] by simp
  next
    case Run
    then show ?thesis using step same_watcher_inv [OF run_same_watcher inv] by simp
  next
    case (Wait wt)
    then show ?thesis using step same_watcher_inv [OF wait_same_watcher inv] by simp
  next
    case Watch
    then show ?thesis using step watcher_step_inv [OF inv] by simp
  next
    case Leave
    then show ?thesis using step watcher_stop_inv [OF inv] by simp
  next
    case (Elapse ns)
    then show ?thesis using step elapse_inv [OF inv] by (auto split: if_splits)
  next
    case Signal
    then show ?thesis using step signal_inv [OF inv] by auto
  qed
qed

end
