(* ===== verification/Threads_Safety.thy ===== *)
theory Threads_Safety
  imports Threads_Invariant Protection
begin

text \<open>
  What the two goroutines guarantee together, whatever the order of their steps: they refine the
  sequential models of both, their race is harmless, and a loop that hangs is starved of keep-alives
  wherever it hangs.
\<close>

section \<open>The loop can make every run\<close>

text \<open>A state no step of the watchdog has led to, and in which the process has been asked to stop.\<close>

definition quiet :: "threads \<Rightarrow> bool" where
  "quiet st \<longleftrightarrow> t_answers st = [] \<and> t_watcher st \<in> {Absent, Idle} \<and> t_asked st"

lemma observe_more [simp]:
  "t_stage (observe_status n g res st) = t_stage st" "t_passes (observe_status n g res st) = t_passes st"
  "t_calls (observe_status n g res st) = t_calls st" "t_asked (observe_status n g res st) = t_asked st"
  by (simp_all add: observe_status_def Let_def)

lemma pass_reached:
  assumes st: "reached p n g0 w t0 st" "t_stage st = Checking g" "quiet st"
    and pass: "run_state (check g w) (t_calls st) = ((g1, res), u)" "report g1 res = (g2, lines)"
  shows "\<exists>st'. reached p n g0 w t0 st' \<and> quiet st' \<and> t_passes st' = t_passes st @ [(res, lines)] \<and> t_calls st' = u
    \<and> t_stage st' = (if r_verdict res = Trip then Tripping (r_err res) else Waiting g2)"
proof -
  define path where "path = [Run, Run] @ (if ping_period p \<le> 0 then [Command, Command] else [Command, Command, Command]) @ [Run]"
  have "\<exists>st'. schedule p n g0 w path st = Some st' \<and> quiet st' \<and> t_passes st' = t_passes st @ [(res, lines)]
    \<and> t_calls st' = u \<and> t_stage st' = (if r_verdict res = Trip then Tripping (r_err res) else Waiting g2)"
    using st pass by (auto simp: path_def advance_def run_step_def command_step_def store_pass_def quiet_def)
  then show ?thesis using schedule_reached [OF st(1)] by metis
qed

lemma run_reached:
  assumes "guard_run w g t ps g' u" "untripped ps"
  shows "\<exists>st. reached p n g w t st \<and> quiet st \<and> t_passes st = ps \<and> t_calls st = u \<and> t_stage st = Checking g'"
  using assms
proof (induction rule: guard_run.induct)
  case start
  have "\<exists>st. schedule p n g w [Signal, Command, Run] (start_threads p g t) = Some st \<and> quiet st \<and> t_passes st = []
      \<and> t_calls st = t \<and> t_stage st = Checking g"
    by (auto simp: advance_def command_step_def run_step_def start_threads_def quiet_def)
  then show ?case using schedule_reached [OF reached.initial] by metis
next
  case (pass ps g1 t1 g2 res u2 g3 lines)
  then obtain st where st: "reached p n g w t st" "t_stage st = Checking g1" "quiet st" "t_passes st = ps" "t_calls st = t1"
    by auto
  obtain st1 where st1: "reached p n g w t st1" "quiet st1" "t_passes st1 = ps @ [(res, lines)]" "t_calls st1 = u2"
    "t_stage st1 = Waiting g3"
    using pass_reached [OF st(1-3), of g2 res u2 g3 lines] pass.hyps(3,4) pass.prems st(4,5) by auto
  let ?st2 = "st1\<lparr>t_stage := Checking g3, t_waits := t_waits st1 @ [Tick]\<rparr>"
  have "advance p n g w (Wait Tick) st1 = Some ?st2" using st1(5) by (simp add: advance_def wait_step_def)
  then have "reached p n g w t ?st2" by (rule reached.further [OF st1(1)])
  then show ?case using st1 by (intro exI [of _ ?st2]) (simp add: quiet_def)
qed

lemma guard_run_det:
  "guard_run w g0 t0 ps g t \<Longrightarrow> guard_run w g0 t0 ps g' t' \<Longrightarrow> g' = g \<and> t' = t"
proof (induction arbitrary: g' t' rule: guard_run.induct)
  case start
  then show ?case by (auto elim: guard_run_NilE)
next
  case (pass ps g t g1 res u g2 lines)
  from pass.prems show ?case
  proof (cases rule: guard_run.cases)
    case (pass qs h s h1 res' lines')
    then show ?thesis using pass.IH pass.hyps by fastforce
  qed simp
qed

lemma outcome_reached:
  assumes "run_state (run_loop g ws w) t = ((out, ps, g'), u)" "out \<noteq> Running"
  shows "\<exists>st. reached p n g w t st \<and> t_answers st = [] \<and> t_passes st = ps \<and> t_calls st = u \<and> t_stage st = Ended out"
proof -
  have run: "guard_run w g t ps g' u" and ok: "outcome_ok ws out ps" using run_loop_run [OF assms(1)] by blast+
  show ?thesis
    using run
  proof (cases rule: guard_run.cases)
    case start
    then show ?thesis using ok by (simp add: outcome_ok_def)
  next
    case (pass qs g1 t1 g2 res lines)
    have "untripped qs"
      unfolding untripped_def all_set_conv_all_nth
      using guard_run_trips_last [OF run] pass(1) by (auto simp: nth_append)
    then obtain st where st: "reached p n g w t st" "t_stage st = Checking g1" "quiet st" "t_passes st = qs" "t_calls st = t1"
      using run_reached [OF pass(2)] by blast
    obtain st1 where st1: "reached p n g w t st1" "quiet st1" "t_passes st1 = ps" "t_calls st1 = u"
      "t_stage st1 = (if r_verdict res = Trip then Tripping (r_err res) else Waiting g')"
      using pass_reached [OF st(1-3), of g2 res u g' lines] pass st(4,5) by auto
    define a where "a = (if r_verdict res = Trip then Command else Wait Cancel)"
    have "\<exists>st2. advance p n g w a st1 = Some st2 \<and> t_answers st2 = [] \<and> t_passes st2 = ps \<and> t_calls st2 = u
        \<and> t_stage st2 = Ended out"
      using st1 ok pass(1) assms(2)
      by (cases out) (auto simp: a_def advance_def command_step_def wait_step_def quiet_def outcome_ok_def)
    then show ?thesis using reached.further [OF st1(1)] by metis
  qed
qed

section \<open>Properties\<close>

text \<open>What the loop has written when it has ended is what the run of \<open>watch\<close> has.\<close>

lemma ended_as_watch:
  assumes "ended_as p n g w t st out"
  shows "\<exists>eff. run_state (watch p n g (t_waits st) w) t = (eff, t_calls st) \<and> e_exit eff = exit_of out
    \<and> e_passes eff = t_passes st \<and> e_sent eff = share Loop (t_sent st) \<and> e_journal eff = share Loop (t_log st)"
proof -
  obtain g' where r: "run_state (run_loop g (t_waits st) w) t = ((out, t_passes st, g'), t_calls st)"
    and l: "share Loop (t_log st) = loop_log p g (t_passes st) @ guard_lines (stop_lines g' out)"
    and s: "share Loop (t_sent st) = ready_sent n g @ report_status n g [] (map fst (t_passes st))
        @ (case out of GuardTripped why \<Rightarrow> notify_status n (''Tripped: '' @ tripped_text (p_printable p) why)
           | _ \<Rightarrow> [])"
    using assms unfolding ended_as_def by blast
  show ?thesis
    using r by (simp add: watch_def run_guard_def s l loop_log_def ready_sent_def guard_lines_def)
qed

text \<open>
  C12: the two goroutines do what the daemon's model says, in whatever order their steps fall. Once the
  loop has ended, there is the run of \<open>watch\<close> with the waits it went through, with the same exit
  status, the same passes and as many system calls; what the service manager received is an
  interleaving of that run's datagrams and of the watchdog's keep-alives, and the log one of their
  lines; and the watchdog's answers are those of the sequential one that sees the loads and stores of
  the shared variable in their order. Conversely every run of \<open>watch\<close> that ends is one of theirs.
\<close>

theorem threads_refine_watch:
  shows "(\<forall>st out. reached p n g w t st \<and> t_stage st = Ended out \<longrightarrow>
      (\<exists>eff late. run_state (watch p n g (t_waits st) w) t = (eff, t_calls st)
        \<and> e_exit eff = exit_of out \<and> e_exit eff \<noteq> None \<and> e_passes eff = t_passes st
        \<and> map snd (t_sent st) \<in> shuffles (e_sent eff) (alive_sent (t_answers st))
        \<and> map snd (t_log st) \<in> shuffles (e_journal eff) (watchdog_log (t_answers st))
        \<and> watchdog p n (g_interval g) (t_marks st) = t_answers st @ late \<and> length late \<le> 1))
    \<and> (\<forall>ws eff u. run_state (watch p n g ws w) t = (eff, u) \<and> e_exit eff \<noteq> None \<longrightarrow>
      (\<exists>st out. reached p n g w t st \<and> t_stage st = Ended out \<and> exit_of out = e_exit eff
        \<and> t_passes st = e_passes eff \<and> t_calls st = u
        \<and> map snd (t_sent st) = e_sent eff \<and> map snd (t_log st) = e_journal eff))"
proof (intro conjI allI impI)
  fix st out assume a: "reached p n g w t st \<and> t_stage st = Ended out"
  then have inv: "out \<noteq> Running" "ended_as p n g w t st out"
    using reached_loop_inv [of p n g w t st] by (simp_all add: loop_inv_def Let_def)
  have b: "t_answers st @ pending st = watchdog p n (g_interval g) (t_marks st)"
    "share Watcher (t_sent st) = alive_sent (t_answers st)" "share Watcher (t_log st) = watchdog_log (t_answers st)"
    using reached_watcher_inv [of p n g w t st] a
    by (auto simp: answers_inv_def watchdog_def ping_period_def Let_def)
  have "exit_of out \<noteq> None" using inv(1) by (cases out) (simp_all add: exit_of_def)
  moreover have "length (pending st) \<le> 1" by (simp add: pending_def split: watcher.split)
  ultimately show "\<exists>eff late. run_state (watch p n g (t_waits st) w) t = (eff, t_calls st)
      \<and> e_exit eff = exit_of out \<and> e_exit eff \<noteq> None \<and> e_passes eff = t_passes st
      \<and> map snd (t_sent st) \<in> shuffles (e_sent eff) (alive_sent (t_answers st))
      \<and> map snd (t_log st) \<in> shuffles (e_journal eff) (watchdog_log (t_answers st))
      \<and> watchdog p n (g_interval g) (t_marks st) = t_answers st @ late \<and> length late \<le> 1"
    using ended_as_watch [OF inv(2)] b share_shuffles [of "t_sent st"] share_shuffles [of "t_log st"] by metis
next
  fix ws eff u assume a: "run_state (watch p n g ws w) t = (eff, u) \<and> e_exit eff \<noteq> None"
  obtain out ps g' where r: "run_state (run_loop g ws w) t = ((out, ps, g'), u)"
    by (cases "run_state (run_loop g ws w) t") (use a in \<open>auto simp: watch_def run_guard_def split: prod.splits\<close>)
  have e: "e_exit eff = exit_of out" "e_passes eff = ps"
    "e_sent eff = ready_sent n g @ report_status n g [] (map fst ps)
      @ (case out of GuardTripped why \<Rightarrow> notify_status n (''Tripped: '' @ tripped_text (p_printable p) why) | _ \<Rightarrow> [])"
    "e_journal eff = loop_log p g ps @ guard_lines (stop_lines g' out)"
    using a r by (auto simp: watch_def run_guard_def ready_sent_def loop_log_def guard_lines_def)
  have "out \<noteq> Running" using a e(1) by (auto simp: exit_of_def)
  then obtain st where st: "reached p n g w t st" "t_answers st = []" "t_passes st = ps" "t_calls st = u" "t_stage st = Ended out"
    using outcome_reached [OF r] by blast
  have "ended_as p n g w t st out" using reached_loop_inv [OF st(1)] st(5) by (simp add: loop_inv_def Let_def)
  then obtain h where h: "run_state (run_loop g (t_waits st) w) t = ((out, ps, h), u)"
    and s: "share Loop (t_sent st) = e_sent eff"
    and l: "share Loop (t_log st) = loop_log p g ps @ guard_lines (stop_lines h out)"
    unfolding ended_as_def e st(3,4) by blast
  have "h = g'" using guard_run_det run_loop_run [OF r] run_loop_run [OF h] by blast
  moreover have "share Watcher (t_sent st) = []" "share Watcher (t_log st) = []"
    using reached_watcher_inv [OF st(1)] st(2) by (simp_all add: answers_inv_def)
  ultimately have "map snd (t_sent st) = e_sent eff" "map snd (t_log st) = e_journal eff"
    using share_shuffles [of "t_sent st"] share_shuffles [of "t_log st"] s l e(4) by simp_all
  then show "\<exists>st out. reached p n g w t st \<and> t_stage st = Ended out \<and> exit_of out = e_exit eff
      \<and> t_passes st = e_passes eff \<and> t_calls st = u \<and> map snd (t_sent st) = e_sent eff \<and> map snd (t_log st) = e_journal eff"
    using st e by metis
qed

text \<open>What an answer given at any point of any interleaving rests on.\<close>

lemma answer_rests_on:
  assumes "reached p n g w t st" "stale = stale_after (g_interval g) (watchdog_interval (p_env p) (p_pid p))"
    and "(now, a) \<in> set (t_answers st)"
  shows "\<exists>k < length (t_marks st). t_marks st ! k = (now, PingDue) \<and>
    (case a of
       Withheld since \<Rightarrow> stale < since \<and> since \<le> now \<and> (\<forall>v \<in> set (passed_at (take k (t_marks st))). v + stale < now)
     | Fed ds \<Rightarrow> ds = notify_alive n \<and> (\<exists>v \<in> insert 0 (set (passed_at (take k (t_marks st)))). now \<le> v + stale))"
proof -
  let ?evs = "t_marks st"
  have inv: "times_inv st" "answers_inv p n g st" using reached_watcher_inv [OF assms(1)] by blast+
  then have ok: "\<forall>ev \<in> set ?evs. time_ok (fst ev)" "sorted (0 # passed_at ?evs)"
    by (simp_all add: times_inv_def stores_ok_def)
  have zero: "time_ok 0" by (simp add: time_ok_def)
  have "set (t_answers st) \<subseteq> set (watchdog_loop n stale 0 ?evs)"
    using inv(2) unfolding answers_inv_def assms(2) ping_period_def by (metis set_append sup_ge1)
  then have "(now, a) \<in> set (watchdog_loop n stale 0 ?evs)" using assms(3) by blast
  then obtain k where k: "k < length ?evs" "?evs ! k = (now, PingDue)"
    "a = (let since = now - last_pass_in 0 (take k ?evs) in
      if stale < since then Withheld since else Fed (notify_alive n))"
    using watchdog_loop_mem [OF ok(1) zero] by blast
  define ts where "ts = 0 # passed_at (take k ?evs)"
  have "passed_at ?evs = passed_at (take k ?evs) @ passed_at (drop k ?evs)"
    by (simp add: passed_at_def flip: map_append filter_append)
  then have "sorted ts" using ok(2) by (auto simp: ts_def sorted_append)
  then have upper: "\<forall>v \<in> set ts. v \<le> last ts" unfolding ts_def using sorted_last by blast
  have l: "last_pass_in 0 (take k ?evs) = last ts" "last ts \<in> set ts" "0 \<in> set ts"
    by (simp_all add: last_pass_at ts_def)
  have ts: "insert 0 (set (passed_at (take k ?evs))) = set ts" by (simp add: ts_def)
  have "0 \<le> last ts" using upper l(3) by blast
  show ?thesis
  proof (cases "stale < now - last ts")
    case True
    then have "a = Withheld (now - last ts)" using k(3) l(1) by (simp add: Let_def)
    moreover have "v + stale < now" if "v \<in> set (passed_at (take k ?evs))" for v
    proof -
      have "v \<le> last ts" using upper ts that by blast
      then show ?thesis using True by linarith
    qed
    ultimately show ?thesis using k(1,2) True \<open>0 \<le> last ts\<close> by (intro exI [of _ k]) simp
  next
    case False
    then have "a = Fed (notify_alive n)" "now \<le> last ts + stale" using k(3) l(1) by (simp_all add: Let_def)
    then show ?thesis unfolding ts using k(1,2) l(2) ts by (intro exI [of _ k]) auto
  qed
qed

text \<open>
  C13: the race between the loop and the watchdog errs on the safe side. The watchdog reads the clock
  before it loads the last pass, and the loop reads it before it stores one, so that either may see the
  other late. Still, whenever the keep-alive is withheld, every pass stored by then was overdue at the
  tick; whenever it is sent, the watchdog was started or a pass was stored no more than the limit
  before the tick, or after it. The times stored never run backwards, and none is later than the clock.
\<close>

theorem race_is_safe:
  assumes "reached p n g w t st" "stale = stale_after (g_interval g) (watchdog_interval (p_env p) (p_pid p))"
  shows "sorted (passed_at (t_marks st)) \<and> t_last_pass st \<le> t_now st \<and> t_now st < 2 ^ 63
    \<and> (\<forall>(now, a) \<in> set (t_answers st). \<exists>k < length (t_marks st). t_marks st ! k = (now, PingDue) \<and>
      (case a of
         Withheld since \<Rightarrow> stale < since \<and> since \<le> now \<and> (\<forall>v \<in> set (passed_at (take k (t_marks st))). v + stale < now)
       | Fed ds \<Rightarrow> ds = notify_alive n \<and> (\<exists>v \<in> insert 0 (set (passed_at (take k (t_marks st)))). now \<le> v + stale)))"
proof -
  have "times_inv st" using reached_watcher_inv [OF assms(1)] by blast
  then show ?thesis using answer_rests_on [OF assms] by (auto simp: times_inv_def stores_ok_def)
qed

section \<open>A loop that hangs\<close>

definition loop_action :: "action \<Rightarrow> bool" where
  "loop_action a \<longleftrightarrow> (case a of Command \<Rightarrow> True | Run \<Rightarrow> True | Wait wt \<Rightarrow> True | _ \<Rightarrow> False)"

lemma idle_loop:
  assumes "schedule p n g w as st = Some st'" "\<forall>a \<in> set as. \<not> loop_action a"
  shows "t_last_pass st' = t_last_pass st \<and> share Loop (t_sent st') = share Loop (t_sent st)"
  using assms
proof (induction "as" arbitrary: st)
  case (Cons a "as")
  then obtain st1 where st1: "advance p n g w a st = Some st1" "schedule p n g w as st1 = Some st'"
    by (auto split: option.splits)
  have "t_last_pass st1 = t_last_pass st \<and> share Loop (t_sent st1) = share Loop (t_sent st)"
    using st1(1) Cons.prems(2)
    by (cases a) (auto simp: advance_def loop_action_def watcher_step_def act_on_def watcher_stop_def
        split: watcher.splits if_splits)
  then show ?case using Cons.IH [OF st1(2)] Cons.prems(2) by simp
qed simp

text \<open>What the watchdog is about to send, and has sent, is the keep-alive.\<close>

lemma fed_alive:
  assumes "reached p n g w t st" "(now, Fed ds) \<in> set (t_answers st @ pending st)"
  shows "ds = notify_alive n"
proof -
  have inv: "times_inv st" "answers_inv p n g st" using reached_watcher_inv [OF assms(1)] by blast+
  then have "\<forall>ev \<in> set (t_marks st). time_ok (fst ev)" by (simp add: times_inv_def stores_ok_def)
  moreover have "time_ok 0" by (simp add: time_ok_def)
  moreover have "(now, Fed ds) \<in> set (watchdog_loop n (stale_after (g_interval g) (ping_period p)) 0 (t_marks st))"
    using inv(2) assms(2) by (simp add: answers_inv_def)
  ultimately show ?thesis using watchdog_loop_mem by (fastforce simp: Let_def split: if_splits)
qed

lemma alive_sent_fed:
  "\<forall>(now, a) \<in> set as. \<forall>ds. a = Fed ds \<longrightarrow> ds = d \<Longrightarrow> alive_sent as = concat (replicate (length (fed_times as)) d)"
  by (induction "as") (auto simp: alive_sent_def fed_times_def split: answer.splits)

text \<open>From a state in which the last pass is overdue: the watchdog cannot come to send any more.\<close>

definition starved :: "int \<Rightarrow> threads \<Rightarrow> bool" where
  "starved limit st \<longleftrightarrow> (\<forall>t. t_watcher st = Asking t \<longrightarrow> limit < t) \<and> (\<forall>t ds. t_watcher st \<noteq> Answering t (Fed ds))"

lemma starved_step:
  assumes st: "reached p n g w t0 st" "advance p n g w a st = Some st1" "\<not> loop_action a"
    and limit: "limit = t_last_pass st + stale_after (g_interval g) (ping_period p)" "limit < t_now st"
  shows "limit < t_now st1 \<and> (if starved limit st then starved limit st1 \<and> t_sent st1 = t_sent st
    else t_sent st1 = t_sent st \<or> starved limit st1 \<and> t_sent st1 = t_sent st @ map (Pair Watcher) (notify_alive n))"
proof -
  have inv: "times_inv st" using reached_watcher_inv [OF st(1)] by blast
  show ?thesis
  proof (cases a)
    case Watch
    then have step: "watcher_step n (stale_after (g_interval g) (ping_period p)) st = Some st1"
      using st(2) by (simp add: advance_def)
    show ?thesis
    proof (cases "t_watcher st")
      case Idle
      then show ?thesis using step limit(2) by (auto simp: watcher_step_def starved_def)
    next
      case (Asking t)
      have "time_ok t" "time_ok (t_last_pass st)" using inv Asking by (auto simp: times_inv_def time_ok_def)
      then have "i64 (t - t_last_pass st) = t - t_last_pass st" by (rule i64_time_diff)
      then show ?thesis using step Asking limit
        by (auto simp: watcher_step_def starved_def answer_ping_def Let_def split: if_splits)
    next
      case (Answering t ans)
      then have "ans = Fed ds \<Longrightarrow> ds = notify_alive n" for ds
        using fed_alive [OF st(1), of t ds] by (simp add: pending_def)
      then show ?thesis using step Answering limit(2)
        by (cases ans) (auto simp: watcher_step_def act_on_def starved_def)
    qed (use step in \<open>simp_all add: watcher_step_def\<close>)
  next
    case Leave
    then show ?thesis using st(2) limit(2)
      by (auto simp: advance_def watcher_stop_def starved_def split: if_splits)
  qed (use st(2,3) limit(2) in \<open>auto simp: advance_def loop_action_def starved_def split: if_splits\<close>)
qed

lemma starved_schedule:
  assumes "reached p n g w t0 st" "schedule p n g w as st = Some st'" "\<forall>a \<in> set as. \<not> loop_action a"
    and "limit = t_last_pass st + stale_after (g_interval g) (ping_period p)" "limit < t_now st"
  shows "if starved limit st then t_sent st' = t_sent st
    else t_sent st' = t_sent st \<or> t_sent st' = t_sent st @ map (Pair Watcher) (notify_alive n)"
  using assms
proof (induction "as" arbitrary: st)
  case (Cons a "as")
  then obtain st1 where st1: "advance p n g w a st = Some st1" "schedule p n g w as st1 = Some st'"
    by (auto split: option.splits)
  have "\<not> loop_action a" using Cons.prems(3) by simp
  note step = starved_step [OF Cons.prems(1) st1(1) this Cons.prems(4,5)]
  have "schedule p n g w [a] st = Some st1" using st1(1) by simp
  then have "t_last_pass st1 = t_last_pass st" using idle_loop \<open>\<not> loop_action a\<close> by fastforce
  then have "if starved limit st1 then t_sent st' = t_sent st1
    else t_sent st' = t_sent st1 \<or> t_sent st' = t_sent st1 @ map (Pair Watcher) (notify_alive n)"
    using Cons.IH [OF reached.further [OF Cons.prems(1) st1(1)] st1(2)] Cons.prems(3,4) step by simp
  then show ?case using step by (auto split: if_splits)
qed simp

text \<open>
  C14: a loop that hangs is starved wherever it hangs. Let the loop make no step from some moment on,
  at any point of its code, also between reading the clock and storing it, while the watchdog, the
  clock and signals go on in any order. What the watchdog sends is one keep-alive per tick it feeds,
  and it feeds none later than the limit after the last pass stored, so that the service manager, which
  waits one timeout for the next, ends the process at most that long after. Once that limit has passed,
  not one more datagram leaves the process, but for the keep-alive of a tick the watchdog was then
  in the middle of answering.
\<close>

theorem wedged_anywhere_starved:
  assumes "reached p n g w t st" "schedule p n g w as st = Some st'" "\<forall>a \<in> set as. \<not> loop_action a"
    and "stale = stale_after (g_interval g) (watchdog_interval (p_env p) (p_pid p))" "0 \<le> stale"
  shows "share Watcher (t_sent st') = concat (replicate (length (fed_times (t_answers st'))) (notify_alive n))
    \<and> share Loop (t_sent st') = share Loop (t_sent st)
    \<and> (\<forall>time \<in> set (fed_times (t_answers st')). time \<le> t_last_pass st + stale)
    \<and> ended_at timeout (t_answers st') \<le> t_last_pass st + stale + timeout
    \<and> (t_last_pass st + stale < t_now st \<longrightarrow> t_sent st' = t_sent st
        \<or> t_watcher st \<noteq> Idle \<and> t_sent st' = t_sent st @ map (Pair Watcher) (notify_alive n))"
proof -
  have r: "reached p n g w t st'" by (rule schedule_reached [OF assms(1,2)])
  have l: "t_last_pass st' = t_last_pass st" "share Loop (t_sent st') = share Loop (t_sent st)"
    using idle_loop [OF assms(2,3)] by blast+
  have inv: "times_inv st'" "answers_inv p n g st'" using reached_watcher_inv [OF r] by blast+
  then have s: "sorted (0 # passed_at (t_marks st'))" "t_last_pass st = last (0 # passed_at (t_marks st'))" "0 \<le> t_last_pass st"
    using l by (simp_all add: times_inv_def stores_ok_def)
  have fed: "now \<le> t_last_pass st + stale" if "(now, Fed ds) \<in> set (t_answers st')" for now ds
  proof -
    have "\<exists>k. \<exists>v \<in> insert 0 (set (passed_at (take k (t_marks st')))). now \<le> v + stale"
      using answer_rests_on [OF r assms(4) that] by auto
    then obtain k v where v: "v \<in> insert 0 (set (passed_at (take k (t_marks st'))))" "now \<le> v + stale"
      by blast
    have "set (passed_at (take k (t_marks st'))) \<subseteq> set (passed_at (t_marks st'))"
      using set_take_subset [of k "t_marks st'"] by (auto simp: passed_at_def)
    then have "v \<in> set (0 # passed_at (t_marks st'))" using v(1) by auto
    then show ?thesis using sorted_last [OF s(1)] s(2) v(2) by fastforce
  qed
  have due: "time \<le> t_last_pass st + stale" if due: "time \<in> set (fed_times (t_answers st'))" for time
  proof -
    obtain a where "(time, a) \<in> set (t_answers st')" "case a of Fed _ \<Rightarrow> True | Withheld _ \<Rightarrow> False"
      using due by (auto simp: fed_times_def)
    then show ?thesis using fed by (cases a) auto
  qed
  then have "\<forall>time \<in> set (0 # fed_times (t_answers st')). time \<le> t_last_pass st + stale"
    using s(3) assms(5) by simp
  then have "ended_at timeout (t_answers st') \<le> t_last_pass st + stale + timeout"
    unfolding ended_at_def using last_in_set [of "0 # fed_times (t_answers st')"] by force
  moreover have "share Watcher (t_sent st') = concat (replicate (length (fed_times (t_answers st'))) (notify_alive n))"
  proof -
    have "ds = notify_alive n" if "(now, Fed ds) \<in> set (t_answers st')" for now ds
      using fed_alive [OF r, of now ds] that by simp
    then have "alive_sent (t_answers st') = concat (replicate (length (fed_times (t_answers st'))) (notify_alive n))"
      by (intro alive_sent_fed) blast
    then show ?thesis using inv(2) unfolding answers_inv_def by metis
  qed
  moreover have "t_sent st' = t_sent st \<or> t_watcher st \<noteq> Idle \<and> t_sent st' = t_sent st @ map (Pair Watcher) (notify_alive n)"
    if "t_last_pass st + stale < t_now st"
    using starved_schedule [OF assms(1-3) refl] that assms(4)
    by (auto simp: ping_period_def starved_def split: if_splits)
  ultimately show ?thesis using l(2) due by blast
qed

section \<open>A schedule\<close>

text \<open>
  A drill, with 999 degrees in the override file: the watchdog reads the clock while the pass is on its way, the pass is stored
  before the watchdog loads it, and the keep-alive goes out between the status and the reason.
\<close>

definition drill_schedule :: "action list" where
  "drill_schedule = [Command, Run, Elapse 15000000000, Run, Watch, Elapse 1, Run, Command, Command, Watch,
     Command, Watch, Run, Command]"

definition drill_node :: fs where
  "drill_node = node ''45000'' ''46500'' [(override_path, ''999'')]"

abbreviation drill :: world where
  "drill \<equiv> \<lambda>_. drill_node"

definition drill_end :: "threads option" where
  "drill_end = schedule sample_platform (Some ''s'') sample_guard drill drill_schedule
    (start_threads sample_platform sample_guard 0)"

definition seen_end :: "threads \<Rightarrow> thread list \<times> bool \<times> timeline \<times> (int \<times> answer) list \<times> int" where
  "seen_end st = (map fst (t_sent st), (case t_stage st of Ended (GuardTripped _) \<Rightarrow> True | _ \<Rightarrow> False),
     t_marks st, t_answers st, t_last_pass st)"

lemma drill_period: "ping_period sample_platform = 15000000000"
  by code_simp

lemma drill_stale: "stale_after (g_interval sample_guard) 15000000000 = 30000000000"
  by code_simp

definition drill_result :: result where
  "drill_result = \<lparr>r_verdict = Trip, r_reading = 999000, r_has_reading = True, r_source = override_path,
     r_err = Some (OverLimit 999000 85000 ''H11DSi-NT'')\<rparr>"

lemma drill_check: "run_state (check sample_guard drill) 0 = ((sample_guard, drill_result), 3)"
proof -
  have f: "file_temperature override_path (trim_space ''999'') = Inr 999000" by code_simp
  have d: "\<not> fs_stat drill_node disable_path" and o: "fs_stat drill_node override_path"
    and r: "fs_read drill_node override_path = Inr ''999''"
    by (code_simp, code_simp, code_simp)
  have p: "disable_path \<noteq> []" "override_path \<noteq> []" by (simp_all add: disable_path_def override_path_def)
  have g: "sample_guard\<lparr>g_failures := 0\<rparr> = sample_guard" by (simp add: sample_guard_def)
  have s: "g_disable_path sample_guard = disable_path" "g_override_path sample_guard = override_path"
    "g_max sample_guard = 85000" "g_board sample_guard = ''H11DSi-NT''"
    by (simp_all add: sample_guard_def)
  show ?thesis
    using d o r p f
    by (simp add: run_check s absent_def file_source_def run_file_read judge_def Let_def g drill_result_def)
qed

lemma drill_end: "map_option seen_end drill_end
  = Some ([Loop, Loop, Watcher, Loop], True, [(15000000001, Passed), (15000000000, PingDue)],
    [(15000000000, Fed [(''s'', ''WATCHDOG=1'' @ [CHR 0x0A])])], 15000000001)"
proof -
  have r: "report sample_guard drill_result = (sample_guard\<lparr>g_last_verdict := Trip, g_last_source := override_path,
      g_started := True\<rparr>, [(Error, Tripped ''H11DSi-NT'' override_path (r_err drill_result))])"
    by (simp add: report_def drill_result_def Let_def) (simp add: sample_guard_def)
  have v: "r_verdict drill_result = Trip" by (simp add: drill_result_def)
  have n: "status_line sample_guard drill_result \<noteq> []" by (simp add: status_line_def v)
  have a: "i64 (- 1) = - 1" by (simp add: i64_def)
  show ?thesis using n
    by (simp add: drill_end_def drill_schedule_def start_threads_def advance_def command_step_def run_step_def
        watcher_step_def act_on_def store_pass_def observe_status_def drill_period drill_stale drill_check r v
        seen_end_def tell_def jot_def answer_ping_def a Let_def notify_status_def notify_ready_def notify_alive_def send_def)
qed

lemma drill_ends:
  obtains st why where "drill_end = Some st" "reached sample_platform (Some ''s'') sample_guard drill 0 st"
    "t_stage st = Ended (GuardTripped why)" "t_answers st = [(15000000000, Fed [(''s'', ''WATCHDOG=1'' @ [CHR 0x0A])])]"
    "length (t_sent st) = 4"
proof -
  obtain st where st: "drill_end = Some st" "map fst (t_sent st) = [Loop, Loop, Watcher, Loop]"
    "case t_stage st of Ended (GuardTripped _) \<Rightarrow> True | _ \<Rightarrow> False"
    "t_answers st = [(15000000000, Fed [(''s'', ''WATCHDOG=1'' @ [CHR 0x0A])])]"
    using drill_end by (auto simp: seen_end_def)
  have "reached sample_platform (Some ''s'') sample_guard drill 0 st"
    using schedule_reached [OF reached.initial] st(1) unfolding drill_end_def by blast
  moreover obtain why where "t_stage st = Ended (GuardTripped why)"
    using st(3) by (cases "t_stage st") (auto split: outcome.splits)
  moreover have "length (t_sent st) = 4" using arg_cong [OF st(2), of length] by simp
  ultimately show ?thesis using that st(1,4) by blast
qed

theorem threads_refine_watch_witness:
  "\<exists>st eff. drill_end = Some st
    \<and> run_state (watch sample_platform (Some ''s'') sample_guard (t_waits st) drill) 0 = (eff, t_calls st)
    \<and> e_exit eff = Some 1 \<and> length (e_sent eff) = 3
    \<and> map snd (t_sent st) \<in> shuffles (e_sent eff) [(''s'', ''WATCHDOG=1'' @ [CHR 0x0A])]"
proof -
  obtain st why where st: "drill_end = Some st" "reached sample_platform (Some ''s'') sample_guard drill 0 st"
    "t_stage st = Ended (GuardTripped why)" "t_answers st = [(15000000000, Fed [(''s'', ''WATCHDOG=1'' @ [CHR 0x0A])])]"
    "length (t_sent st) = 4" by (rule drill_ends)
  obtain eff where eff: "run_state (watch sample_platform (Some ''s'') sample_guard (t_waits st) drill) 0 = (eff, t_calls st)"
    "e_exit eff = exit_of (GuardTripped why)" "map snd (t_sent st) \<in> shuffles (e_sent eff) (alive_sent (t_answers st))"
    using threads_refine_watch [of sample_platform "Some ''s''" sample_guard drill 0] st(2,3) by metis
  have a: "alive_sent (t_answers st) = [(''s'', ''WATCHDOG=1'' @ [CHR 0x0A])]" unfolding st(4) by (simp add: alive_sent_def)
  have "length (e_sent eff) = 3" using length_shuffles [OF eff(3)] st(5) unfolding a by simp
  then show ?thesis using st(1) eff a by (auto simp: exit_of_def exit_tripped_def)
qed

theorem race_is_safe_witness:
  "\<exists>st. drill_end = Some st \<and> sorted (passed_at (t_marks st)) \<and> t_last_pass st \<le> t_now st"
proof -
  obtain st where st: "drill_end = Some st" "reached sample_platform (Some ''s'') sample_guard drill 0 st"
    by (rule drill_ends)
  from race_is_safe [OF st(2) refl] show ?thesis using st(1) by blast
qed

text \<open>The loop hangs before its first pass; the last tick it is fed for is the one thirty seconds in.\<close>

theorem wedged_anywhere_starved_witness:
  "\<exists>st st'. schedule sample_platform (Some ''s'') sample_guard drill
        [Command, Run, Elapse 30000000000, Watch, Watch, Watch, Elapse 1] (start_threads sample_platform sample_guard 0) = Some st
    \<and> schedule sample_platform (Some ''s'') sample_guard drill [Elapse 15000000000, Watch, Watch, Watch, Signal] st = Some st'
    \<and> length (t_sent st) = 2 \<and> t_sent st' = t_sent st \<and> length (t_answers st') = 2
    \<and> ended_at 30000000000 (t_answers st') \<le> 60000000000"
proof -
  let ?go = "schedule sample_platform (Some ''s'') sample_guard drill"
  let ?as = "[Command, Run, Elapse 30000000000, Watch, Watch, Watch, Elapse 1]"
  let ?bs = "[Elapse 15000000000, Watch, Watch, Watch, Signal]"
  have i: "i64 30000000000 = 30000000000" "i64 45000000001 = 45000000001" by (simp_all add: i64_def)
  note steps = start_threads_def advance_def command_step_def run_step_def watcher_step_def act_on_def answer_ping_def
    drill_period drill_stale tell_def jot_def Let_def notify_ready_def notify_alive_def send_def i
  obtain st where st: "?go ?as (start_threads sample_platform sample_guard 0) = Some st" "t_watcher st = Idle"
    "t_last_pass st = 0" "t_now st = 30000000001" "length (t_sent st) = 2"
    "length (t_answers st) = 1"
    by (simp add: steps)
  obtain st' where st': "?go ?bs st = Some st'" "length (t_answers st') = 2"
    using st(2-4,6) by (simp add: advance_def watcher_step_def act_on_def tell_def jot_def)
  have stale: "30000000000 = stale_after (g_interval sample_guard) (watchdog_interval (p_env sample_platform) (p_pid sample_platform))"
    using drill_stale drill_period by (simp add: ping_period_def)
  have "\<forall>a \<in> set ?bs. \<not> loop_action a" by (simp add: loop_action_def)
  from wedged_anywhere_starved [OF schedule_reached [OF reached.initial st(1)] st'(1) this stale, of 30000000000]
  have "ended_at 30000000000 (t_answers st') \<le> 60000000000" "t_sent st' = t_sent st" using st(2-4) by auto
  then show ?thesis using st(1,5) st' by blast
qed

end
