(* ===== verification/Options_Roundtrip.thy ===== *)
theory Options_Roundtrip
  imports Options Go_Duration
begin

text \<open>
  Options written as arguments are the options the arguments are parsed to: integers, the interval as
  \<open>Duration.String\<close> writes it, and the flags around them.
\<close>

section \<open>Integers\<close>

text \<open>A base of 0 takes decimal digits for what they are: they do not begin with a zero.\<close>

lemma parse_uint_0:
  assumes "n < 2 ^ 64"
  shows "parse_uint 0 64 (digits 10 n) = Inr n"
proof (cases "n = 0")
  case True
  have "parse_uint 0 64 (digits 10 0) = Inr 0" by code_simp
  then show ?thesis using True by simp
next
  case False
  then obtain d where "0 < d" "d < 10" "hd (digits 10 n) = digit_char d" using hd_digits_nonzero [of n] by blast
  then have "hd (digits 10 n) \<noteq> CHR ''0''" using digit_char_nonzero by simp
  then have b: "base_prefix (digits 10 n) = (10, digits 10 n)"
    by (simp add: base_prefix_def hd_conv_nth digits_length_pos)
  have "uint_loop 10 True (2 ^ 64 - 1) (digits 10 n) 0 False = Inr (n, False)"
    using assms by (intro uint_loop_digits) simp_all
  then show ?thesis by (simp add: parse_uint_def b digits_length_pos)
qed

lemma digits_no_sign:
  "drop_sign (digits 10 n) = digits 10 n" "hd (digits 10 n) \<noteq> CHR ''-''"
  using drop_sign_pad [of 10 0 n] by (simp_all add: zero_pad_def)

lemma itoa_cases: "itoa n = (if n < 0 then CHR ''-'' # digits 10 (nat (- n)) else digits 10 (nat n))"
  by (simp add: itoa_def fmt_int_def zero_pad_def)

lemma parse_int_0:
  assumes "in_i64 n"
  shows "parse_int 0 64 (itoa n) = Inr n"
proof (cases "n < 0")
  case True
  then have "parse_uint 0 64 (digits 10 (nat (- n))) = Inr (nat (- n))"
    using assms by (intro parse_uint_0) (simp add: in_i64_def nat_less_iff)
  moreover have "nat (- n) \<le> 2 ^ 63" using True assms by (simp add: in_i64_def nat_le_iff)
  ultimately show ?thesis using True by (simp add: parse_int_def itoa_cases drop_sign_def)
next
  case False
  then have "parse_uint 0 64 (digits 10 (nat n)) = Inr (nat n)"
    using assms by (intro parse_uint_0) (simp add: in_i64_def nat_less_iff)
  moreover have "nat n < 2 ^ 63" using False assms by (simp add: in_i64_def nat_less_iff)
  ultimately show ?thesis using False
    by (simp add: parse_int_def itoa_cases digits_no_sign digits_length_pos)
qed

section \<open>Flags\<close>

definition flag_text :: "string \<Rightarrow> string \<Rightarrow> string" where
  "flag_text name v = ''--'' @ name @ ''='' @ v"

definition bool_text :: "bool \<Rightarrow> string" where
  "bool_text b = (if b then ''true'' else ''false'')"

definition option_args :: "options \<Rightarrow> string list" where
  "option_args opts =
    [flag_text ''config'' (o_config_path opts), flag_text ''hwmon.path'' (o_hwmon_path opts),
     flag_text ''board-name-path'' (o_board_path opts), flag_text ''disable-file'' (o_disable_path opts),
     flag_text ''override-file'' (o_override_path opts),
     flag_text ''interval'' (duration_string (o_interval opts)),
     flag_text ''read-retries'' (itoa (o_read_retries opts)),
     flag_text ''log.level'' (o_log_level opts), flag_text ''log.format'' (o_log_format opts),
     flag_text ''list'' (bool_text (o_list opts)), flag_text ''check'' (bool_text (o_check opts)),
     flag_text ''version'' (bool_text (o_show_version opts))]"

lemma split_flag_text:
  assumes "name \<noteq> []" "hd name \<noteq> CHR ''-''" "CHR ''='' \<notin> set name"
  shows "split_flag (flag_text name v) = FlagArg name (Some v)"
proof -
  have "cut (CHR ''='') (name @ CHR ''='' # v) = Some (name, v)"
  proof -
    have "\<forall>x \<in> set name. x \<noteq> CHR ''=''" using assms(3) by auto
    then show ?thesis
      using takeWhile_append_stop [of name "\<lambda>x. x \<noteq> CHR ''=''" "CHR ''=''" v]
        dropWhile_append_stop [of name "\<lambda>x. x \<noteq> CHR ''=''" "CHR ''=''" v]
      by (simp add: cut_def)
  qed
  moreover have "hd (name @ CHR ''='' # v) \<noteq> CHR ''=''" using assms by (cases name) auto
  ultimately show ?thesis using assms by (simp add: split_flag_def flag_text_def Let_def)
qed

lemma parse_args_flag:
  assumes "name \<noteq> []" "hd name \<noteq> CHR ''-''" "CHR ''='' \<notin> set name"
    and "map_of flags name = Some (kind, info)" "set_flag name kind v opts = Inr opts'"
  shows "parse_args opts (flag_text name v # args) = parse_args opts' args"
  using assms(4,5)
  by (cases "kind = BoolFlag") (simp_all add: parse_args.simps(2) split_flag_text [OF assms(1-3)] Let_def)

lemma parse_bool_text [simp]: "parse_bool (bool_text b) = Some b"
  by (simp add: parse_bool_def bool_text_def)

text \<open>
  C25: writing options as arguments and parsing them gives the options back, whatever was set before:
  every path as it is, whatever characters it holds, the retries exact over the whole range of an
  \<open>int64\<close>, and the interval too in the form \<open>Duration.String\<close> gives it, which is the
  form the log shows it in.
\<close>

theorem options_roundtrip:
  assumes "in_i64 (o_interval opts)" "in_i64 (o_read_retries opts)"
  shows "parse_args start (option_args opts) = Inr (opts, [])"
proof -
  note d = parse_duration_string [OF assms(1)] and r = parse_int_0 [OF assms(2)]
  show ?thesis unfolding option_args_def
    by (simp add: parse_args_flag flags_def set_flag_def set_string_def set_bool_def d r)
qed

theorem options_roundtrip_witness:
  "parse_args default_options (option_args (default_options\<lparr>o_interval := - 1, o_config_path := ''=--''\<rparr>))
    = Inr (default_options\<lparr>o_interval := - 1, o_config_path := ''=--''\<rparr>, [])"
  using options_roundtrip [of "default_options\<lparr>o_interval := - 1, o_config_path := ''=--''\<rparr>"]
  by (simp add: default_options_def in_i64_def)

end
