(* ===== verification/Journal_Safety.thy ===== *)
theory Journal_Safety
  imports Sample_Run
begin

text \<open>
  What reaches standard error: the log, one line for each record, and from each line of text the
  record can be read back.
\<close>

section \<open>The modes print no errors of their own\<close>

definition quiet :: "effects \<Rightarrow> bool" where
  "quiet eff \<longleftrightarrow> e_stderr eff = []"

lemma quiet_exits [simp]: "quiet (exits code out [] lines)" "quiet ((exits code out [] lines)\<lparr>e_exit := e\<rparr>)"
  "quiet ((exits code out [] lines)\<lparr>e_passes := ps\<rparr>)"
  by (simp_all add: quiet_def exits_def)

lemma quiet_before [simp]: "quiet (before lines sent eff) = quiet eff"
  by (simp add: quiet_def before_def)

lemma quiet_list_mode: "quiet (fst (run_state (list_mode p opts w) t))"
  by (auto simp: list_mode_def split: prod.split sum.split)

lemma quiet_check_mode: "quiet (fst (run_state (check_mode p opts armed w) t))"
  by (auto simp: check_mode_def split: prod.split sum.split)

lemma quiet_watch: "quiet (fst (run_state (watch p n g waits w) t))"
  by (auto simp: watch_def quiet_def split: prod.split)

lemma quiet_daemon: "quiet (fst (run_state (daemon p opts armed waits w) t))"
proof -
  have "quiet (fst (run_state (after_hold p n out rest w) t))" for n out rest t
    using quiet_watch by (auto simp: after_hold_def split: held.split prod.split) (metis fst_conv)
  then have "quiet eff" if "run_state (after_hold p n out rest w) t = (eff, u)" for n out rest t eff u
    using that by (metis fst_conv)
  then show ?thesis using quiet_watch
    by (auto simp: daemon_def Let_def split: prod.split sum.split)
qed

lemma quiet_guard_modes: "quiet (fst (run_state (guard_modes p opts waits w) t))"
  using quiet_daemon quiet_check_mode
  by (auto simp: guard_modes_def proceed_def split: prod.split sum.split)

section \<open>The log\<close>

lemma run_options_logged:
  assumes "\<not> o_show_version opts" "new_logger (o_log_level opts) (o_log_format opts) = Inr (lvl, fmt)"
    and "run_state (run_options p opts waits w) t = (eff, u)"
  shows "e_stderr eff = log_text p fmt (e_journal eff)" "\<forall>line \<in> set (e_journal eff). lvl \<le> fst line"
proof -
  note q = quiet_list_mode [of p opts w t] quiet_guard_modes [of p opts waits w t]
  show "e_stderr eff = log_text p fmt (e_journal eff)"
    using assms q by (auto simp: run_options_def quiet_def exits_def split: prod.splits if_splits)
  show "\<forall>line \<in> set (e_journal eff). lvl \<le> fst line"
    using assms by (auto simp: run_options_def emitted_def split: prod.splits if_splits)
qed

lemma raw_lines_log:
  assumes "\<And>line. line \<in> set lines \<Longrightarrow> log_record p fmt line = draw line @ [newline] \<and> no_control (draw line)"
  shows "raw_lines (log_text p fmt lines) = map draw lines"
  using assms
proof (induction lines)
  case (Cons line lines)
  have "CHR 0x0A \<notin> set (draw line)" using Cons.prems [of line] no_control_newline by simp
  then show ?case using Cons raw_lines_line [of "draw line"] by (simp add: log_text_def newline_def)
qed (simp add: log_text_def)

text \<open>
  C10: the journal cannot be forged. With the text format, standard error is exactly one line for each
  record the program logs, in the order it logs them and none below the level asked for; and each
  line reads back, by splitting it at spaces and undoing the quotes, to the level, the message and
  the attributes it was made of, whatever bytes the board table, the override file, a label or a path
  brought into them.
\<close>

theorem journal_reads_back:
  assumes opts: "parse_args default_options args = Inr (opts, [])" "\<not> o_show_version opts"
      "new_logger (o_log_level opts) (o_log_format opts) = Inr (lvl, TextFormat)"
    and run: "run_state (run_main p args waits w) t = (eff, u)"
  shows "map read_record (raw_lines (e_stderr eff)) = map (\<lambda>line. Some (record_shown (p_printable p) line)) (e_journal eff)
    \<and> (\<forall>line \<in> set (e_journal eff). lvl \<le> fst line)"
proof -
  have r: "run_state (run_options p opts waits w) t = (eff, u)" using opts(1) run by (simp add: run_main_def)
  note logged = run_options_logged [OF opts(2,3) r]
  obtain draw where draw: "\<And>line. log_record p TextFormat line = draw line @ [newline] \<and> no_control (draw line)
      \<and> read_record (draw line) = Some (record_shown (p_printable p) line)"
    using log_record_reads [of p] by metis
  then have "raw_lines (e_stderr eff) = map draw (e_journal eff)"
    unfolding logged(1) by (intro raw_lines_log) blast
  then show ?thesis using draw logged(2) by simp
qed

text \<open>A class directory whose name tries to add an attribute and a line to the log.\<close>

theorem journal_reads_back_witness:
  "\<exists>eff u. run_state (run_main sample_platform
      (sample_args @ [''--hwmon.path=/a b=c'' @ [newline] @ ''level=INFO'']) [] (\<lambda>_. hot_node)) 0 = (eff, u)
    \<and> map read_record (raw_lines (e_stderr eff)) =
      [Some [(''level'', ''ERROR''), (''msg'', ''cannot arm the guard''),
        (''error'', ''read the hwmon class at /a b=c'' @ [newline]
          @ ''level=INFO: list hwmon devices: no such file or directory'')]]"
proof -
  let ?path = "''/a b=c'' @ [newline] @ ''level=INFO''"
  let ?err = "''list hwmon devices: '' @ no_entry"
  let ?args = "sample_args @ [''--hwmon.path=/a b=c'' @ [newline] @ ''level=INFO'']"
  let ?opts = "sample_options\<lparr>o_hwmon_path := ?path\<rparr>"
  let ?line = "(Error, CannotArm (NoClass ?path ?err))"
  have a: "parse_args default_options ?args = Inr (?opts, [])" by code_simp
  have l: "new_logger (o_log_level ?opts) (o_log_format ?opts) = Inr (Info, TextFormat)" by code_simp
  have o: "\<not> o_show_version ?opts" "0 < o_interval ?opts" "0 \<le> o_read_retries ?opts" "\<not> o_list ?opts"
    by (simp_all add: sample_options_def default_options_def second_def)
  have d: "run_state (discover (p_sort sample_platform) ?path (\<lambda>_. hot_node)) 0 = (Inl ?err, 1)" by code_simp
  have f: "\<not> fs_stat hot_node (o_disable_path ?opts)" by code_simp
  obtain eff u where run: "run_state (run_main sample_platform ?args [] (\<lambda>_. hot_node)) 0 = (eff, u)" by fastforce
  then have j: "e_journal eff = [?line]"
    using a l o d f
    by (auto simp: run_main_def run_options_def guard_modes_def arm_def run_present exits_def emitted_def
        less_eq_level_def severity_def split: if_splits)
  have "record_shown (p_printable sample_platform) ?line =
      [(''level'', ''ERROR''), (''msg'', ''cannot arm the guard''),
        (''error'', ''read the hwmon class at /a b=c'' @ [newline]
          @ ''level=INFO: list hwmon devices: no such file or directory'')]"
    by (simp add: record_shown_def record_attrs_def event_record_def cannot_arm_record_def level_text_def value_string_def
        arm_error_text_def no_entry_def)
  then show ?thesis using journal_reads_back [OF a o(1) l run] run j by auto
qed

end
