(* ===== verification/Listing.thy ===== *)
theory Listing
  imports Sample_Run
begin

text \<open>
  \<open>--list\<close>: what the tab writer makes of the rows is one aligned line per sensor, with the reading
  taken for it.
\<close>

section \<open>Scanning rows\<close>

text \<open>Text without the bytes the tab writer gives a meaning to.\<close>

definition plain_cell :: "string \<Rightarrow> bool" where
  "plain_cell s \<longleftrightarrow> (\<forall>c \<in> set s. byte c \<notin> {9, 10, 11, 12, 255})"

lemma scan_plain:
  assumes "plain_cell s"
  shows "tw_scan False cur n cells lines (s @ r) = tw_scan False (cur @ s) n cells lines r"
  using assms
proof (induction s arbitrary: cur)
  case (Cons c s)
  have "byte c \<notin> {9, 10, 11, 12, 255}" "plain_cell s" using Cons.prems by (simp_all add: plain_cell_def)
  then have "c \<notin> {CHR 0x09, CHR 0x0A, CHR 0x0B, CHR 0x0C, CHR 0xFF}" by (auto simp: byte_def)
  then show ?case using Cons.IH [OF \<open>plain_cell s\<close>] by simp
qed simp

lemma scan_tab:
  "plain_cell s \<Longrightarrow> tw_scan False [] 0 cells lines (s @ tab # r) = tw_scan False [] 0 (cells @ [tw_cell s 0]) lines r"
  by (simp add: scan_plain tab_def)

lemma scan_end:
  "plain_cell s \<Longrightarrow> cells \<noteq> [] \<Longrightarrow>
    tw_scan False [] 0 cells lines (s @ newline # r) = tw_scan False [] 0 [] (lines @ [cells @ [tw_cell s 0]]) r"
  by (simp add: scan_plain newline_def)

text \<open>A row of four cells.\<close>

type_synonym row = "string \<times> string \<times> string \<times> string"

definition row_text :: "row \<Rightarrow> string" where
  "row_text r = (case r of (a, b, c, d) \<Rightarrow> a @ [tab] @ b @ [tab] @ c @ [tab] @ d @ [newline])"

definition row_cells :: "row \<Rightarrow> cell list" where
  "row_cells r = (case r of (a, b, c, d) \<Rightarrow> [tw_cell a 0, tw_cell b 0, tw_cell c 0, tw_cell d 0])"

definition plain_row :: "row \<Rightarrow> bool" where
  "plain_row r \<longleftrightarrow> (case r of (a, b, c, d) \<Rightarrow> plain_cell a \<and> plain_cell b \<and> plain_cell c \<and> plain_cell d)"

lemma scan_row:
  "plain_row r \<Longrightarrow> tw_scan False [] 0 [] lines (row_text r @ q) = tw_scan False [] 0 [] (lines @ [row_cells r]) q"
  by (cases r) (simp add: plain_row_def row_text_def row_cells_def scan_tab scan_end)

lemma scan_rows:
  assumes "list_all plain_row rows"
  shows "tw_scan False [] 0 [] lines (concat (map row_text rows)) = [lines @ map row_cells rows @ [[]]]"
  using assms by (induction rows arbitrary: lines) (simp_all add: scan_row)

section \<open>Laying them out\<close>

lemma row_cells_length [simp]: "length (row_cells r) = 4"
  by (simp add: row_cells_def split: prod.split)

text \<open>Every row has the first three columns, so they all form one block.\<close>

lemma format_block:
  assumes "rows \<noteq> []" "length ws < 3" "\<forall>l \<in> set rest. \<not> has_column (length ws) l"
  shows "tw_format ws (map row_cells rows @ rest) =
    tw_format (ws @ [column_width (length ws) (map row_cells rows)]) (map row_cells rows) @ tw_format ws rest"
proof -
  obtain r rs where r: "rows = r # rs" using assms(1) by (cases rows) auto
  have h: "has_column (length ws) (row_cells x)" for x using assms(2) by (simp add: has_column_def)
  have "takeWhile (has_column (length ws)) (map row_cells rs @ rest) = map row_cells rs"
    "dropWhile (has_column (length ws)) (map row_cells rs @ rest) = rest"
    using h assms(3) by (cases rest; simp add: takeWhile_append dropWhile_append)+
  then show ?thesis using h by (simp add: r tw_format.simps(2) Let_def)
qed

lemma format_lines:
  assumes "\<forall>l \<in> set ls. \<not> has_column (length ws) l"
  shows "tw_format ws ls = map (tw_line ws) ls"
  using assms by (induction ls) (simp_all add: tw_format.simps)

text \<open>The width of a column: that of its widest cell, and two spaces.\<close>

definition row_cell :: "nat \<Rightarrow> row \<Rightarrow> string" where
  "row_cell k r = (case r of (a, b, c, d) \<Rightarrow> [a, b, c, d] ! k)"

definition text_width :: "string \<Rightarrow> nat" where
  "text_width s = length (runes s)"

definition col_width :: "row list \<Rightarrow> nat \<Rightarrow> nat" where
  "col_width rows k = Max ((\<lambda>r. text_width (row_cell k r)) ` set rows) + 2"

definition padded :: "nat \<Rightarrow> string \<Rightarrow> string" where
  "padded w s = s @ replicate (w - text_width s) CHR 0x20"

definition aligned :: "row list \<Rightarrow> row \<Rightarrow> string" where
  "aligned rows r = padded (col_width rows 0) (row_cell 0 r) @ padded (col_width rows 1) (row_cell 1 r)
    @ padded (col_width rows 2) (row_cell 2 r) @ row_cell 3 r"

lemma foldl_max: "foldl (\<lambda>w l. max w (f l + 2 :: int)) m ls = Max (insert m ((\<lambda>l. f l + 2) ` set ls))"
proof (induction ls arbitrary: m)
  case (Cons l ls)
  then show ?case by (cases "ls = []") (simp_all add: max.assoc max.commute max.left_commute)
qed simp

lemma column_width_rows:
  assumes "rows \<noteq> []" "k < 4"
  shows "column_width k (map row_cells rows) = int (col_width rows k)"
proof -
  have c: "snd (row_cells r ! k) = int (text_width (row_cell k r))" for r
    using assms(2) by (cases r) (auto simp: row_cells_def row_cell_def tw_cell_def text_width_def less_Suc_eq numeral_eq_Suc)
  let ?f = "\<lambda>r. text_width (row_cell k r)"
  have fin: "finite (?f ` set rows)" "?f ` set rows \<noteq> {}" using assms(1) by simp_all
  have "column_width k (map row_cells rows) = Max (insert 0 ((\<lambda>r. int (?f r) + 2) ` set rows))"
    unfolding column_width_def foldl_max by (simp add: image_image c)
  also have "\<dots> = Max ((\<lambda>r. int (?f r) + 2) ` set rows)"
  proof -
    have "Max ((\<lambda>r. int (?f r) + 2) ` set rows) \<in> (\<lambda>r. int (?f r) + 2) ` set rows"
      using assms(1) by (intro Max_in) simp_all
    then have "0 \<le> Max ((\<lambda>r. int (?f r) + 2) ` set rows)" by fastforce
    then show ?thesis using assms(1) by simp
  qed
  also have "\<dots> = int (Max (?f ` set rows) + 2)"
    using mono_Max_commute [of "\<lambda>n. int n + 2", OF _ fin] by (simp add: mono_def image_image)
  finally show ?thesis by (simp add: col_width_def)
qed

lemma tabwriter_rows:
  assumes "list_all plain_row rows" "rows \<noteq> []"
  shows "tabwriter (concat (map row_text rows)) = concat (map (\<lambda>r. aligned rows r @ [newline]) rows)"
proof -
  let ?ls = "map row_cells rows"
  let ?ws = "[int (col_width rows 0), int (col_width rows 1), int (col_width rows 2)]"
  note w = column_width_rows [OF assms(2)]
  have "tw_format [] (?ls @ [[]]) = tw_format [int (col_width rows 0)] (?ls @ []) @ tw_format [] [[]]"
    using format_block [OF assms(2), of "[]" "[[]]"] w [of 0] by (simp add: has_column_def)
  also have "tw_format [int (col_width rows 0)] (?ls @ []) = tw_format [int (col_width rows 0), int (col_width rows 1)] (?ls @ [])"
    using format_block [OF assms(2), of "[int (col_width rows 0)]" "[]"] w [of 1] by (simp add: tw_format.simps)
  also have "\<dots> = tw_format ?ws ?ls"
    using format_block [OF assms(2), of "[int (col_width rows 0), int (col_width rows 1)]" "[]"] w [of 2]
    by (simp add: tw_format.simps numeral_2_eq_2)
  also have "\<dots> = map (tw_line ?ws) ?ls" by (rule format_lines) (auto simp: has_column_def)
  also have "\<dots> = map (aligned rows) rows"
  proof -
    have "nat (int m - int n) = m - n" for m n by arith
    then have "tw_line ?ws (row_cells r) = aligned rows r" for r
      by (cases r) (simp add: row_cells_def tw_cell_def aligned_def row_cell_def padded_def text_width_def
          numeral_2_eq_2 numeral_3_eq_3)
    then show ?thesis by simp
  qed
  also have "tw_format [] [[]] = [[]]" by (simp add: tw_format.simps has_column_def)
  finally have f: "tw_format [] (?ls @ [[]]) = map (aligned rows) rows @ [[]]" .
  have j: "join [newline] (xs @ [[]]) = concat (map (\<lambda>x. x @ [newline]) xs)" for xs
  proof (induction xs)
    case (Cons x xs)
    then show ?case by (cases xs) simp_all
  qed simp
  show ?thesis unfolding tabwriter_def using scan_rows [OF assms(1), of "[]"] f j by (simp add: comp_def)
qed

section \<open>The listing\<close>

definition header :: row where
  "header = (''CHIP'', ''SENSOR'', ''LABEL'', ''READING'')"

definition listing_row :: "sensor \<times> (sensor_error + milli_celsius) \<Rightarrow> row" where
  "listing_row p = (case p of (s, r) \<Rightarrow>
     (s_chip s, s_attr s, if s_label s = [] then ''-'' else s_label s,
      case r of Inl _ \<Rightarrow> ''-'' | Inr v \<Rightarrow> mc_string v))"

definition plain_sensor :: "sensor \<Rightarrow> bool" where
  "plain_sensor s \<longleftrightarrow> plain_cell (s_chip s) \<and> plain_cell (s_attr s) \<and> plain_cell (s_label s)"

lemma plain_append [simp]: "plain_cell (a @ b) \<longleftrightarrow> plain_cell a \<and> plain_cell b"
  by (auto simp: plain_cell_def)

lemma plain_digits: "plain_cell (digits 10 n)" "plain_cell (zero_pad w (digits 10 n))"
proof -
  have "byte c \<notin> {9, 10, 11, 12, 255}" if "c \<in> set (digits 10 n)" for c
    using digits_are_digits [OF that] by (auto simp: is_digit_def)
  then show "plain_cell (digits 10 n)" "plain_cell (zero_pad w (digits 10 n))"
    by (auto simp: plain_cell_def zero_pad_def byte_def)
qed

lemma plain_mc_string: "plain_cell (mc_string v)"
  using plain_digits
  by (auto simp: mc_string_def format_f3_def show_milli_def split: f64.split) (simp_all add: plain_cell_def byte_def)

lemma plain_listing_row: "plain_sensor s \<Longrightarrow> plain_row (listing_row (s, r))"
  using plain_mc_string
  by (auto simp: plain_sensor_def plain_row_def listing_row_def split: sum.split) (simp_all add: plain_cell_def byte_def)

text \<open>The sensors are read one after the other, each once.\<close>

fun read_all :: "sensor list \<Rightarrow> world \<Rightarrow> (sensor_error + milli_celsius) list io" where
  "read_all [] w = State_Monad.return []"
| "read_all (s # ss) w = do {
     r \<leftarrow> sensor_read s w;
     rs \<leftarrow> read_all ss w;
     State_Monad.return (r # rs)
   }"

lemma run_sensor_rows:
  "run_state (sensor_rows ss w) t =
    (case run_state (read_all ss w) t of (rs, u) \<Rightarrow> (concat (map (row_text \<circ> listing_row) (zip ss rs)), u))"
  by (induction ss arbitrary: t)
    (auto simp: sensor_row_def row_text_def listing_row_def split: prod.split)

lemma read_all_length: "run_state (read_all ss w) t = (rs, u) \<Longrightarrow> length rs = length ss"
  by (induction ss arbitrary: rs t) (auto split: prod.splits)

text \<open>
  C30: the listing. \<open>--list\<close> reads every sensor it discovered once, in their order, and prints a
  header and one line for each: its chip, its attribute, its label and its reading in degrees, a dash
  where there is none. The columns start at the same place in every line, two spaces behind the
  widest cell, unless a chip or a label has one of the five bytes with a meaning to the tab writer.
\<close>

theorem listing_aligned:
  assumes "run_state (print_sensors ss w) t = (out, u)" "\<forall>s \<in> set ss. plain_sensor s"
  shows "\<exists>rs. run_state (read_all ss w) t = (rs, u) \<and> length rs = length ss
    \<and> (let rows = header # map listing_row (zip ss rs) in
       out = concat (map (\<lambda>r. aligned rows r @ [newline]) rows))"
proof -
  obtain rs v where rs: "run_state (read_all ss w) t = (rs, v)" by fastforce
  let ?rows = "header # map listing_row (zip ss rs)"
  have "plain_row header" by (simp add: plain_row_def header_def plain_cell_def byte_def)
  moreover have "plain_row (listing_row (s, r))" if "(s, r) \<in> set (zip ss rs)" for s r
    using plain_listing_row assms(2) set_zip_leftD [OF that] by blast
  ultimately have "list_all plain_row ?rows" by (auto simp: list_all_iff)
  then have "tabwriter (concat (map row_text ?rows)) = concat (map (\<lambda>r. aligned ?rows r @ [newline]) ?rows)"
    by (rule tabwriter_rows) simp
  moreover have "out = tabwriter (concat (map row_text ?rows))" "u = v"
    using assms(1) rs by (auto simp: print_sensors_def run_sensor_rows row_text_def header_def)
  ultimately show ?thesis using rs read_all_length [OF rs] by (simp only: Let_def) blast
qed

theorem listing_aligned_witness:
  "\<exists>u. run_state (print_sensors [sample_sensors ! 0, sample_sensors ! 1] (\<lambda>_. node ''45000'' [] [])) 0 =
    (''CHIP              SENSOR  LABEL  READING'' @ [newline]
     @ ''k10temp-pci-00c3  temp1   Tctl   45.000C'' @ [newline]
     @ ''k10temp-pci-00c3  temp3   Tccd1  41.000C'' @ [newline], u)"
proof -
  let ?ss = "[sample_sensors ! 0, sample_sensors ! 1]"
  let ?w = "\<lambda>_ :: nat. node ''45000'' [] []"
  have r: "fst (run_state (read_all ?ss ?w) 0) = [Inr 45000, Inr 41000]" by code_simp
  have p: "\<forall>s \<in> set ?ss. plain_sensor s" by code_simp
  obtain out u where o: "run_state (print_sensors ?ss ?w) 0 = (out, u)" by fastforce
  let ?rows = "header # map listing_row (zip ?ss [Inr 45000, Inr 41000])"
  have "concat (map (\<lambda>r. aligned ?rows r @ [newline]) ?rows) =
      ''CHIP              SENSOR  LABEL  READING'' @ [newline]
      @ ''k10temp-pci-00c3  temp1   Tctl   45.000C'' @ [newline]
      @ ''k10temp-pci-00c3  temp3   Tccd1  41.000C'' @ [newline]" by code_simp
  then show ?thesis using listing_aligned [OF o p] o r unfolding Let_def by auto
qed

end
