(* ===== verification/Typing.thy ===== *)
theory Typing
  imports Watchdog
begin

text \<open>
  Type soundness: which values the program's records can hold beyond what their HOL types say, and
  that every operation keeps to it. Integers fit an \<open>int64\<close>; a result has the fields its verdict
  promises, so that the error the log and the exit use is there; a message is logged at its level.
\<close>

section \<open>Conformance\<close>

definition options_ok :: "options \<Rightarrow> bool" where
  "options_ok opts \<longleftrightarrow> in_i64 (o_interval opts) \<and> in_i64 (o_read_retries opts)"

definition guard_ok :: "guard \<Rightarrow> bool" where
  "guard_ok g \<longleftrightarrow> in_i64 (g_max g) \<and> in_i64 (g_interval g) \<and> in_i64 (g_read_retries g) \<and> in_i64 (g_failures g)
    \<and> reading_source (g_sensors g)"

definition result_ok :: "result \<Rightarrow> bool" where
  "result_ok res \<longleftrightarrow> in_i64 (r_reading res) \<and> (case (r_verdict res, r_err res) of
     (Ok, None) \<Rightarrow> r_has_reading res
   | (Disabled, None) \<Rightarrow> \<not> r_has_reading res
   | (Tolerated, Some (Unread _)) \<Rightarrow> \<not> r_has_reading res
   | (Trip, Some (Unread _)) \<Rightarrow> \<not> r_has_reading res
   | (Trip, Some (OverLimit v limit _)) \<Rightarrow>
       r_has_reading res \<and> v = r_reading res \<and> in_i64 limit \<and> limit < v
   | _ \<Rightarrow> False)"

definition message_ok :: "level \<Rightarrow> message \<Rightarrow> bool" where
  "message_ok l m \<longleftrightarrow> (case m of
     Armed _ limit _ interval retries \<Rightarrow> l = Info \<and> in_i64 limit \<and> in_i64 interval \<and> in_i64 retries
   | AskedToStop _ \<Rightarrow> l = Info
   | Tripped _ _ why \<Rightarrow> l = Error \<and> why \<noteq> None
   | ReadingFailed _ failures retries why \<Rightarrow> l = Warn \<and> in_i64 failures \<and> in_i64 retries \<and> why \<noteq> None
   | Suspended _ \<Rightarrow> l = Warn
   | StillOk v _ \<Rightarrow> l = Debug \<and> in_i64 v
   | OverrideRead v _ _ limit \<Rightarrow> l = Warn \<and> in_i64 v \<and> in_i64 limit
   | Resumed v _ limit \<Rightarrow> l = Info \<and> in_i64 v \<and> in_i64 limit)"

definition event_ok :: "level \<times> event \<Rightarrow> bool" where
  "event_ok line = (case line of (l, e) \<Rightarrow> (case e of
     GuardEvent m \<Rightarrow> message_ok l m
   | IntervalNotPositive d \<Rightarrow> l = Error \<and> in_i64 d
   | RetriesNegative n \<Rightarrow> l = Error \<and> in_i64 n
   | ClassUnreadable _ \<Rightarrow> l = Error
   | CannotArm _ \<Rightarrow> l = Error
   | HeldUnarmed _ _ \<Rightarrow> l = Warn
   | ArmedAfterHold _ \<Rightarrow> l = Info
   | StoppedSuspended \<Rightarrow> l = Info
   | WatchdogEnabled every stale \<Rightarrow> l = Debug \<and> in_i64 every \<and> in_i64 stale
   | KeepAliveWithheld since \<Rightarrow> l = Error \<and> in_i64 since))"

definition pass_ok :: "pass \<Rightarrow> bool" where
  "pass_ok ps \<longleftrightarrow> result_ok (fst ps) \<and> (\<forall>(l, m) \<in> set (snd ps). message_ok l m)"

text \<open>The status of a process that ended is one of the three the unit files know.\<close>

definition effects_ok :: "effects \<Rightarrow> bool" where
  "effects_ok eff \<longleftrightarrow> e_exit eff \<in> {None, Some 0, Some 1, Some 2}
    \<and> list_all event_ok (e_journal eff) \<and> list_all pass_ok (e_passes eff)"

section \<open>The guard\<close>

lemma in_i64_0 [simp]: "in_i64 0"
  by (simp add: in_i64_def)

lemma judge_ok:
  assumes "guard_ok g" "judge g name r = (g', res)" "\<And>v. r = Inr v \<Longrightarrow> in_i64 v"
  shows "guard_ok g' \<and> result_ok res"
  using assms i64_in_i64
  by (cases r) (auto simp: judge_def Let_def guard_ok_def result_ok_def split: if_splits)

lemma check_ok:
  assumes "guard_ok g" "run_state (check g w) t = ((g', res), u)"
  shows "guard_ok g' \<and> result_ok res"
  using assms(2)
proof (cases rule: check_cases)
  case disabled
  then show ?thesis using assms(1) by (simp add: guard_ok_def result_ok_def)
next
  case (override t1 r)
  have "in_i64 v" if "r = Inr v" for v
    using override_source.read_i64 [of "g_override_path g" w "Suc t1" v u] override(4) that
    by (simp add: file_source_def)
  then show ?thesis using judge_ok [OF assms(1) override(5)] by blast
next
  case (sensors t1 t2 r)
  have "in_i64 v" if "r = Inr v" for v
    using reading_source.read_i64 [of "g_sensors g" w t2 v u] assms(1) sensors(5) that by (simp add: guard_ok_def)
  then show ?thesis using judge_ok [OF assms(1) sensors(6)] by blast
qed

lemma report_ok:
  assumes "guard_ok g" "result_ok res" "report g res = (g', lines)"
  shows "guard_ok g' \<and> pass_ok (res, lines)"
  using assms
  by (auto simp: report_def Let_def guard_ok_def pass_ok_def result_ok_def message_ok_def
      split: verdict.splits if_splits option.splits)

lemma guard_run_ok:
  assumes "guard_run w g0 t0 ps g t" "guard_ok g0"
  shows "guard_ok g \<and> list_all pass_ok ps"
  using assms
proof (induction rule: guard_run.induct)
  case (pass ps g t g1 res u g2 lines)
  then show ?case using check_ok [OF _ pass.hyps(3)] report_ok [OF _ _ pass.hyps(4)] by simp
qed simp

lemma run_guard_ok:
  assumes "guard_ok g" "run_state (run_guard g waits w) t = ((out, lines, ps, g'), u)"
  shows "list_all pass_ok ps \<and> (\<forall>(l, m) \<in> set lines. message_ok l m)"
proof -
  have "list_all pass_ok ps" using guard_run_ok [OF _ assms(1)] run_guard_run [OF assms(2)] by blast
  moreover have "message_ok Info (AskedToStop b)" for b by (simp add: message_ok_def)
  moreover have "message_ok (fst (armed_line g)) (snd (armed_line g))"
    using assms(1) by (simp add: message_ok_def armed_line_def guard_ok_def)
  ultimately show ?thesis
    unfolding run_guard_loop(2) [OF assms(2)] stop_lines_def
    by (auto simp: list_all_iff pass_ok_def)
qed

section \<open>Options and arming\<close>

lemma set_flag_ok: "options_ok opts \<Longrightarrow> set_flag name kind v opts = Inr opts' \<Longrightarrow> options_ok opts'"
  using parse_duration_i64 [of v] parse_int_range [of 0 64 v]
  by (auto simp: set_flag_def set_string_def set_bool_def options_ok_def in_i64_def
      split: flag_kind.splits option.splits sum.splits num_error.splits if_splits)

text \<open>One step of the parser: it ends, or sets a flag and goes on with what is left.\<close>

lemma parse_args_step:
  assumes "parse_args opts (s # args) = Inr (opts', rest)"
  shows "opts' = opts \<or> (\<exists>name kind v opts1 args1. set_flag name kind v opts = Inr opts1
    \<and> length args1 \<le> length args \<and> parse_args opts1 args1 = Inr (opts', rest))"
proof (cases "split_flag s")
  case (FlagArg name val)
  then obtain kind info where f: "map_of flags name = Some (kind, info)"
    using assms by (auto simp: parse_args.simps(2) split: option.splits if_splits)
  show ?thesis
  proof (cases "kind = BoolFlag")
    case True
    then show ?thesis using assms FlagArg f
      by (auto simp: parse_args.simps(2) Let_def split: sum.splits)
  next
    case no_bool: False
    show ?thesis
    proof (cases val)
      case (Some v)
      then show ?thesis using assms FlagArg f no_bool
        by (auto simp: parse_args.simps(2) split: sum.splits)
    next
      case None
      then show ?thesis using assms FlagArg f no_bool
        by (cases args) (auto simp: parse_args.simps(2) split: sum.splits intro: le_SucI)
    qed
  qed
qed (use assms in \<open>simp_all add: parse_args.simps(2)\<close>)

lemma parse_args_ok: "options_ok opts \<Longrightarrow> parse_args opts args = Inr (opts', rest) \<Longrightarrow> options_ok opts'"
proof (induction "length args" arbitrary: opts args rule: less_induct)
  case less
  show ?case
  proof (cases args)
    case Nil
    then show ?thesis using less.prems by simp
  next
    case (Cons s args')
    with parse_args_step less.prems(2) consider "opts' = opts"
      | name kind v opts1 args1 where "set_flag name kind v opts = Inr opts1"
        "length args1 < length args" "parse_args opts1 args1 = Inr (opts', rest)"
      by (metis length_Cons less_Suc_eq_le)
    then show ?thesis using less set_flag_ok by cases blast+
  qed
qed

lemma default_options_ok: "options_ok default_options"
  by (simp add: options_ok_def default_options_def second_def in_i64_def)

lemma loaded_limit:
  assumes "run_state (load path w) t = (Inr cfg, u)" "lookup cfg name = Inr entry"
  shows "in_i64 (b_max entry)"
proof -
  obtain conf err where p: "parse_table conf err = Inr cfg"
    using assms(1) by (auto simp: load_def results split: sum.splits prod.splits)
  have "(name, entry) \<in> set cfg" using assms(2) by (auto simp: lookup_def split: option.splits dest: map_of_SomeD)
  then show ?thesis using parse_table_sound [OF p] by (auto simp: sound_board_def in_i64_def)
qed

lemma arm_ok:
  assumes "options_ok opts" "run_state (arm p opts w) t = (Inr g, u)"
  shows "guard_ok g"
  using assms(2)
proof (rule arm_Inr)
  fix sensors t1 cfg t2 name entry selected
  assume "run_state (load (o_config_path opts) w) t1 = (Inr cfg, t2)" "lookup cfg name = Inr entry"
    and g: "g = new_guard opts name entry selected"
  then have "in_i64 (b_max entry)" by (blast intro: loaded_limit)
  then show ?thesis using assms(1) hwmon_source.reading_source_axioms
    by (simp add: g new_guard_def guard_ok_def options_ok_def)
qed

section \<open>The program\<close>

lemma effects_ok_exits [simp]:
  "effects_ok (exits c out err lines) \<longleftrightarrow> c \<in> {0, 1, 2} \<and> list_all event_ok lines"
  by (auto simp: effects_ok_def exits_def)

lemma effects_ok_logged: "effects_ok eff \<Longrightarrow> effects_ok (logged p fmt lvl eff)"
  by (simp add: effects_ok_def emitted_def list_all_iff)

lemma effects_ok_before [simp]:
  "effects_ok (before lines sent eff) \<longleftrightarrow> list_all event_ok lines \<and> effects_ok eff"
  by (auto simp: effects_ok_def before_def)

lemmas exit_codes_ok = exit_ok_def exit_tripped_def exit_config_def

lemma watch_ok:
  assumes "guard_ok g" "run_state (watch p n g waits w) t = (eff, u)"
  shows "effects_ok eff"
proof -
  obtain out lines ps g' where r: "run_state (run_guard g waits w) t = ((out, lines, ps, g'), u)"
    and e: "e_exit eff = exit_of out" "e_passes eff = ps"
      "e_journal eff = watchdog_lines p (g_interval g) @ map (\<lambda>(l, m). (l, GuardEvent m)) lines"
    using assms(2) by (auto simp: watch_def split: prod.splits)
  have "list_all event_ok (watchdog_lines p (g_interval g))"
    using watchdog_interval_bounds i64_in_i64 by (simp add: watchdog_lines_def Let_def event_ok_def stale_after_def)
  then show ?thesis using e run_guard_ok [OF assms(1) r]
    by (auto simp: effects_ok_def list_all_iff event_ok_def exit_of_def exit_codes_ok split: outcome.splits)
qed

lemma check_mode_ok:
  assumes "\<And>g. armed = Inr g \<Longrightarrow> guard_ok g" "run_state (check_mode p opts armed w) t = (eff, u)"
  shows "effects_ok eff"
proof (cases armed)
  case (Inl why)
  then show ?thesis using assms(2) by (auto simp: check_mode_def exit_codes_ok)
next
  case (Inr g)
  obtain g' res u' where c: "run_state (check g w) t = ((g', res), u')" by (metis prod.collapse)
  then show ?thesis using check_ok [OF assms(1) [OF Inr] c] assms(2) Inr
    by (auto simp: check_mode_def effects_ok_def exits_def exit_codes_ok pass_ok_def split: if_splits)
qed

lemma daemon_ok:
  assumes "options_ok opts" "\<And>g. armed = Inr g \<Longrightarrow> guard_ok g" "run_state (daemon p opts armed waits w) t = (eff, u)"
  shows "effects_ok eff"
proof (cases armed)
  case (Inr g)
  then show ?thesis using assms watch_ok by (auto simp: daemon_def Let_def)
next
  case (Inl why)
  let ?n = "notifier_new (p_dial p) (p_env p)"
  obtain out sent rest t1 where h: "run_state (hold_loop p opts ?n why waits w) t = ((out, sent, rest), t1)"
    by (metis prod.collapse)
  have held: "guard_ok g" if "out = Rearmed g" for g
    using hold_loop_ended [OF h] that arm_ok [OF assms(1)] by (auto simp: hold_ended_def retried_def)
  have "effects_ok eff'" if "run_state (after_hold p ?n out rest w) t1 = (eff', u')" for eff' u'
  proof (cases out)
    case (Rearmed g)
    then show ?thesis using that watch_ok [OF held [OF Rearmed]]
      by (auto simp: after_hold_def event_ok_def split: prod.splits)
  qed (use that in \<open>auto simp: after_hold_def exit_codes_ok event_ok_def effects_ok_def exits_def split: if_splits\<close>)
  then show ?thesis using assms(3) Inl h
    by (auto simp: daemon_def Let_def rearm_when_resumed_def event_ok_def split: prod.splits)
qed

lemma guard_modes_ok:
  assumes "options_ok opts" "run_state (guard_modes p opts waits w) t = (eff, u)"
  shows "effects_ok eff"
proof -
  obtain armed t1 where a: "run_state (arm p opts w) t = (armed, t1)" by (cases "run_state (arm p opts w) t")
  have g: "guard_ok g" if "armed = Inr g" for g using arm_ok [OF assms(1)] a that by blast
  have go: "effects_ok eff" if "run_state (proceed p opts armed waits w) t' = (eff, u)" for t'
    using that check_mode_ok [OF g] daemon_ok [OF assms(1) g] by (auto simp: proceed_def split: if_splits)
  show ?thesis using assms(2) a go
    by (cases armed)
      (auto simp: guard_modes_def run_present_absent exit_codes_ok event_ok_def split: if_splits)
qed

text \<open>The goroutine of the watchdog too logs nothing but ages that fit.\<close>

lemma watchdog_log_ok: "list_all event_ok (watchdog_log (watchdog p n interval evs))"
proof -
  have "in_i64 since" if "(now, Withheld since) \<in> set (watchdog_loop n stale l evs)" for now since stale l
    using that
    by (induction n stale l evs rule: watchdog_loop.induct)
      (auto simp: answer_ping_def Let_def i64_in_i64 split: if_splits)
  then show ?thesis
    by (auto simp: watchdog_def watchdog_log_def list_all_iff event_ok_def Let_def split: answer.splits)
qed

lemma run_main_ok: "effects_ok (fst (run_state (run_main p args waits w) t))"
proof (cases "parse_args default_options args")
  case (Inl err)
  then show ?thesis by (cases err) (simp_all add: run_main_def exit_codes_ok)
next
  case (Inr r)
  obtain opts rest where r: "r = (opts, rest)" by (cases r)
  have o: "options_ok opts" using parse_args_ok [OF default_options_ok] Inr r by blast
  obtain m u where m: "run_state (guard_modes p opts waits w) t = (m, u)" by fastforce
  have "effects_ok (fst (run_state (list_mode p opts w) t))"
    by (auto simp: list_mode_def exit_codes_ok event_ok_def split: prod.split sum.split)
  then have "effects_ok (fst (run_state (run_options p opts waits w) t))"
    using o m guard_modes_ok [OF o m]
    by (auto simp: run_options_def exit_codes_ok options_ok_def event_ok_def effects_ok_logged
        split: prod.split sum.split)
  then show ?thesis using Inr r by (cases rest) (simp_all add: run_main_def exit_codes_ok)
qed

text \<open>
  C11: type soundness of the whole program. Whatever the arguments, the environment and the world
  do, every integer that the program or the goroutine of its watchdog logs, and every reading of a
  pass, fits an \<open>int64\<close>; every result carries exactly what its verdict promises, so the reason
  that a trip is reported and logged with is always there to be dereferenced; every message has its
  level; and a run that ends exits 0, 1 or 2.
\<close>

theorem run_well_typed:
  "effects_ok (fst (run_state (run_main p args waits w) t))
    \<and> list_all event_ok (watchdog_log (watchdog p n interval evs))"
  using run_main_ok watchdog_log_ok by blast

end
