(* ===== verification/Spec2Isabelle.thy ===== *)
theory Spec2Isabelle
  imports Boards_Conf Chip_Names Arming_Safety Status Protection Threads_Safety Options_Roundtrip Journal_Safety Listing Typing
begin

text \<open>
  \<^bold>\<open>slurm-temperature-check\<close> keeps a SLURM worker node from running jobs while one of its
  temperature sensors is over the limit configured for its mainboard. This is a model of the whole
  program, function by function, with the theorems that make it correct.

  \<^bold>\<open>The program.\<close> A daemon finds the sensors the kernel exports below \<open>/sys/class/hwmon\<close>, loads
  a table of boards, reads the name of its own board, selects that board's sensors, and then takes a
  reading per interval. It exits 1 when the node must stop, which systemd answers by killing the job
  steps, and 2 when it could not arm, which systemd answers by draining the node. A disable file
  suspends checking; an override file is read in place of the sensors.

  \<^bold>\<open>The parts, from the bottom.\<close>

  \<^item> \<open>Prelude\<close>: Go's error-or-value results as sums, its 64-bit integers as \<open>int\<close> with the
    wrap-around written out (\<open>i64\<close>), and system calls: an operation is a state transformer over a
    clock, every call sees the snapshot of the file system at its own instant, and the world, a
    function from instants to snapshots, is arbitrary. So every theorem about a world covers anything
    that changes between two calls. The locale \<open>os_op\<close> is the contract of all operations made of
    system calls (the clock does not run backwards; in a world that no longer changes the result is
    a function of the snapshot, \<open>snap\<close>); each component interprets it on its operations.
  \<^item> \<open>Go_Strings\<close>, \<open>Go_Unicode\<close>, \<open>Go_Numbers\<close>, \<open>Go_Float\<close>, \<open>Go_Sort\<close>,
    \<open>Go_Quote\<close>, \<open>Go_Flag\<close>, \<open>Go_Duration\<close>, \<open>Go_Slog\<close>, \<open>Go_Tabwriter\<close>: what the
    source uses of Go's library, over strings of bytes. \<open>Go_Unquote\<close> reads quoted text back, byte
    for byte, and \<open>Go_Slog\<close> a line of the log. \<open>Go_Float\<close> is \<open>float64\<close> as rationals rounded to 53 bits, to nearest and
    ties to even. \<open>Go_Sort\<close> states the promise of \<open>sort.Slice\<close> as the locale \<open>slice_sort\<close>,
    interpreted on insertion sort; the model takes the sort as an argument.
  \<^item> \<open>Sysfs\<close>: snapshots, system calls and lexical paths. \<open>Sample_Node\<close> and \<open>Sample_Run\<close>:
    the concrete node, platform and command line on which the hypotheses of the properties hold.
  \<^item> \<open>Hwmon\<close> (\<open>internal/hwmon/hwmon.go\<close>): chip names, sensors, discovery, and the read that
    confirms its chip; \<open>Chip_Names\<close> states what a chip's name says over the tree. \<open>Select\<close> (\<open>match.go\<close>): the sensors a board's references name.
  \<^item> \<open>Config\<close> (\<open>internal/config/config.go\<close>): the parser of the board table with its errors, and
    a declarative specification of the format it is proved equivalent to; \<open>Boards_Conf\<close> parses the
    table that is shipped. \<open>Dmi\<close> (\<open>internal/dmi/dmi.go\<close>): the board's name.
  \<^item> \<open>Sdnotify\<close> (\<open>internal/sdnotify/sdnotify.go\<close>): datagrams to the service manager as a list
    of address and content, and the keep-alive's period.
  \<^item> \<open>Guard\<close> (\<open>internal/guard/guard.go\<close>): \<open>Check\<close>, \<open>Run\<close>, \<open>report\<close>, and the locale
    \<open>reading_source\<close> for the interface \<open>Source\<close>, interpreted on both implementations.
    \<open>spec_verdict\<close> is the specification by history the counter refines; \<open>guard_run\<close> is the
    relation of the passes a run can make, over which invariants are proved.
    \<open>Guard_Safety\<close> holds the properties.
  \<^item> \<open>Messages\<close>: the text of every error. \<open>Options\<close>, \<open>Arming\<close>, \<open>Journal\<close>, \<open>Command\<close>
    and \<open>Watchdog\<close> (\<open>cmd/slurm-temperature-check/main.go\<close>): flags, usage and logger; \<open>arm\<close> and
    \<open>rearmWhenResumed\<close>; the log with the attributes of every message and its lines; all modes of
    \<open>run\<close> with what they print, log, send and exit with; and the goroutine of the watchdog.
    \<open>Options_Roundtrip\<close>, \<open>Arming_Safety\<close>, \<open>Journal_Safety\<close>, \<open>Command_Safety\<close>,
    \<open>Status\<close> and \<open>Listing\<close> hold their properties, and \<open>Typing\<close> what every operation keeps of
    the values' types. \<open>Protection\<close> puts the parts together with the failure script and the
    service manager's timeout.
  \<^item> \<open>Threads\<close> (\<open>Run\<close>, \<open>run\<close> and \<open>watchdog\<close> again, at the grain of what the two goroutines
    see of one another): the loop and the watchdog as steps on one state, with the atomic time of the
    last pass, the clock, the signal and the streams both write to; \<open>reached\<close> holds of every state
    some interleaving leads to. \<open>Threads_Invariant\<close> keeps one invariant per goroutine through the
    steps of both, and \<open>Threads_Safety\<close> holds the properties: the sequential models of \<open>Command\<close>
    and \<open>Watchdog\<close> are what the interleavings come to.
  \<^item> \<open>Failure_Kind\<close> (\<open>packaging/libexec/failure-kind\<close>): which of the two units answers a failure.

  \<^bold>\<open>What is shown.\<close> Of the whole program: the state of a node that does not change decides how the
  daemon ends, as the specification's truth table says (C1); heat stops the jobs, whatever else the
  node does (C2); the disable file keeps the node whatever else happens (C3); the exit status tells
  whether the guard ever watched (C4), and so jobs are killed only for a guard that did (C5); a guard
  that arms watches the right sensors with the right limit (C6); keep-alives follow the loop's progress
  (C7), so that a wedged loop is ended within two timeouts (C8); a check answers for the daemon (C9);
  the lines of the log read back to what was logged (C10); and integers, results and messages are well
  typed throughout (C11). Of the two goroutines: their interleavings are the runs of the sequential
  models (C12), the race between them is harmless (C13), and a loop that hangs is starved wherever
  it hangs (C14). Of the guard: the verdict \<open>ok\<close> means a
  low enough reading, heat is never missed, the retries are counted exactly, the journal shows every
  transition, the override file is taken exactly where it holds a temperature. Of the components: what
  discovery finds, what a chip is called and what a reading is confirmed against, what
  selection returns, that the parser accepts exactly the specified tables and prints back, that
  texts and numbers are exact, what the status shows, and that nothing the override file or a
  sensor's attribute holds can be taken for an assignment to the service manager. The names of boards,
  chips and labels do go into a status as they are; \<open>name_adds_line\<close> of \<open>Status\<close> shows a label that
  adds a line, and the theorem takes them to be single lines.

  \<^bold>\<open>Loops and fuel.\<close> What ends a wait of the daemon, the ticker or a signal, is a list of
  \<open>wait\<close>s as long as a run is looked at; a run that has not ended by then is \<open>Running\<close> and has
  no exit status. No other loop is bounded artificially: \<open>max_device_links\<close> is the source's own
  bound of 8, and \<open>fold_steps\<close> (8) bounds the walk of a case-folding orbit, which has at most four
  members. \<open>Watchdog\<close> models the watchdog's goroutine apart from the loop, over a timeline of the
  passes the loop records and of its own ticks, and \<open>e_sent\<close> and \<open>e_journal\<close> hold what the main
  goroutine sends and logs; \<open>Threads\<close> puts the two together, over any schedule of their steps, and
  \<open>threads_refine_watch\<close> (C12) shows that nothing is lost by looking at them apart.

  \<^bold>\<open>Parameters.\<close> Not in the repository, and arguments of the model: the contents of the file system
  and the texts of its errors; Unicode's tables of printable code points and of case folding beyond
  ASCII; two escapes of JSON that differ between releases of Go; the sort; whether the notification socket connects; the environment, the process number and
  the version; what \<open>systemctl show\<close> answers.

  \<^bold>\<open>Not modelled.\<close> Datagrams the kernel drops. The rate of the tickers in \<open>Threads\<close>, where
  a tick may be due at any time. Signals before the handler is installed, which end the process without a status
  of its own. The units, the RPM packaging and the tests, which hold no code that runs as part of
  the program.
\<close>

end
